(* ===== verification/Prelude.thy ===== *)
theory Prelude
  imports Main "HOL-Library.Word"
begin

text \<open>
  Shared vocabulary of the development: machine integers, run-time faults and the sequencing of
  fallible steps, chains of nodes in a store of links, and the index structure of the paged
  containers (a dense numbering of a set of slots).
\<close>

section \<open>Machine integers\<close>

type_synonym u8 = "8 word"
type_synonym u16 = "16 word"
type_synonym u32 = "32 word"
type_synonym u64 = "64 word"

section \<open>Faults\<close>

text \<open>
  What the program does when it cannot go on.  \<open>Aborted\<close> is \<open>std::abort()\<close>, reached through
  \<open>CRASH_COND\<close>, \<open>CRASH_NOW\<close> and their \<open>_MSG\<close> forms of ErrorMacros.h.  \<open>ScrashAborted\<close> records
  that the condition of a \<open>SCRASH_COND\<close> held: the repository uses that macro in two headers and
  defines it nowhere.  The other values are undefined behaviour of C++ that the model refuses
  to give a result: a null dereference, an integer division by zero, an access outside of an
  array, a static cast to the wrong class, a self-deadlock on a non-recursive mutex, and a use of a
  freed object.
\<close>

datatype fault =
    Aborted | ScrashAborted | NullDeref | DivByZero | OutOfBounds | BadCast | SelfDeadlock
  | UseAfterFree

type_synonym 'a res = "fault + 'a"

definition bindR :: "'a res \<Rightarrow> ('a \<Rightarrow> 'b res) \<Rightarrow> 'b res" where
  "bindR m f = (case m of Inl e \<Rightarrow> Inl e | Inr x \<Rightarrow> f x)"

definition crash_cond :: "bool \<Rightarrow> unit res" where
  "crash_cond c = (if c then Inl Aborted else Inr ())"

named_theorems res_simps \<open>evaluation of fallible steps\<close>

lemma bindR_Inl [simp, res_simps]: "bindR (Inl e) f = Inl e"
  by (simp add: bindR_def)

lemma bindR_Inr [simp, res_simps]: "bindR (Inr x) f = f x"
  by (simp add: bindR_def)

lemma bindR_eq_Inr: "bindR m f = Inr y \<longleftrightarrow> (\<exists>x. m = Inr x \<and> f x = Inr y)"
  by (cases m) (auto simp: bindR_def)

lemma bindR_assoc: "bindR (bindR m f) g = bindR m (\<lambda>x. bindR (f x) g)"
  by (cases m) simp_all

lemma crash_cond_False [simp, res_simps]: "crash_cond False = Inr ()"
  by (simp add: crash_cond_def)

lemma crash_cond_True [simp, res_simps]: "crash_cond True = Inl Aborted"
  by (simp add: crash_cond_def)

lemma crash_cond_eq_Inr: "crash_cond c = Inr u \<longleftrightarrow> \<not> c"
  by (simp add: crash_cond_def)

text \<open>
  A loop whose end depends on code outside of the repository is a partial function: \<open>None\<close> when it
  does not return.  \<open>bindO\<close> sequences steps that may also fault.
\<close>

definition bindO :: "'a res option \<Rightarrow> ('a \<Rightarrow> 'b res option) \<Rightarrow> 'b res option" where
  "bindO m f = Option.bind m (\<lambda>r. case r of Inl e \<Rightarrow> Some (Inl e) | Inr x \<Rightarrow> f x)"

lemma bindO_simps [simp, res_simps]:
  "bindO None f = None"
  "bindO (Some (Inl e)) f = Some (Inl e)"
  "bindO (Some (Inr x)) f = f x"
  by (simp_all add: bindO_def)

lemma bindO_eq_Some: "bindO m f = Some (Inr y) \<longleftrightarrow> (\<exists>x. m = Some (Inr x) \<and> f x = Some (Inr y))"
  unfolding bindO_def by (cases m) (simp_all split: sum.split)

lemma bindO_mono [partial_function_mono]:
  assumes "mono_option B" and "\<And>y. mono_option (\<lambda>f. C y f)"
  shows "mono_option (\<lambda>f. bindO (B f) (\<lambda>y. C y f))"
  unfolding bindO_def
proof (rule bind_mono [OF assms(1)])
  fix r
  show "mono_option (\<lambda>f. case r of Inl e \<Rightarrow> Some (Inl e) | Inr x \<Rightarrow> C x f)"
    using assms(2) by (cases r) (simp_all add: option.const_mono)
qed

section \<open>Chains of nodes\<close>

text \<open>
  A pointer is an optional address.  \<open>chain nx p as q\<close>: following the links \<open>nx\<close> from \<open>p\<close> visits
  the addresses \<open>as\<close> in this order and then stands at \<open>q\<close>.  \<open>backed pv b as\<close>: each address of
  \<open>as\<close> points back, through \<open>pv\<close>, to its predecessor, the first one to \<open>b\<close>.
\<close>

type_synonym ptr = "nat option"

primrec chain :: "(nat \<Rightarrow> ptr) \<Rightarrow> ptr \<Rightarrow> nat list \<Rightarrow> ptr \<Rightarrow> bool" where
  "chain nx p [] q \<longleftrightarrow> p = q"
| "chain nx p (a # as) q \<longleftrightarrow> p = Some a \<and> chain nx (nx a) as q"

primrec backed :: "(nat \<Rightarrow> ptr) \<Rightarrow> ptr \<Rightarrow> nat list \<Rightarrow> bool" where
  "backed pv b [] \<longleftrightarrow> True"
| "backed pv b (a # as) \<longleftrightarrow> pv a = b \<and> backed pv (Some a) as"

named_theorems chain_simps \<open>rewriting chains of nodes\<close>

lemma chain_append [chain_simps]:
  "chain nx p (as @ bs) q \<longleftrightarrow> (\<exists>r. chain nx p as r \<and> chain nx r bs q)"
  by (induction as arbitrary: p) auto

lemma chain_upd [simp, chain_simps]:
  "a \<notin> set as \<Longrightarrow> chain (nx(a := v)) p as q = chain nx p as q"
  by (induction as arbitrary: p) auto

lemma chain_cong:
  "(\<And>a. a \<in> set as \<Longrightarrow> nx a = nx' a) \<Longrightarrow> chain nx p as q = chain nx' p as q"
  by (induction as arbitrary: p) auto

lemma chain_None [simp]: "chain nx None as q \<longleftrightarrow> as = [] \<and> q = None"
  by (cases as) auto

lemma chain_Some_None:
  "chain nx (Some a) as None \<longleftrightarrow> (\<exists>bs. as = a # bs \<and> chain nx (nx a) bs None)"
  by (cases as) auto

lemma chain_start: "chain nx p as None \<Longrightarrow> p = (case as of [] \<Rightarrow> None | a # _ \<Rightarrow> Some a)"
  by (cases as) auto

lemma backed_append [chain_simps]:
  "backed pv b (as @ bs) \<longleftrightarrow>
     backed pv b as \<and> backed pv (if as = [] then b else Some (last as)) bs"
  by (induction as arbitrary: b) auto

lemma backed_upd [simp, chain_simps]:
  "a \<notin> set as \<Longrightarrow> backed (pv(a := v)) b as = backed pv b as"
  by (induction as arbitrary: b) auto

lemma backed_cong:
  "(\<And>a. a \<in> set as \<Longrightarrow> pv a = pv' a) \<Longrightarrow> backed pv b as = backed pv' b as"
  by (induction as arbitrary: b) auto

text \<open>Consecutive addresses linked upwards form a chain.\<close>

lemma chain_upt:
  assumes "\<And>a. m \<le> a \<Longrightarrow> Suc a < n \<Longrightarrow> nx a = Some (Suc a)" and "m < n" and "nx (n - 1) = q"
  shows "chain nx (Some m) [m..<n] q"
  using assms
proof (induction "n - m" arbitrary: m)
  case 0
  then show ?case by simp
next
  case (Suc k)
  show ?case
  proof (cases "Suc m = n")
    case True
    with Suc.prems show ?thesis by (auto simp: upt_rec)
  next
    case False
    with Suc.prems have "Suc m < n" by simp
    with Suc have "chain nx (Some (Suc m)) [Suc m..<n] q" by simp
    with \<open>Suc m < n\<close> Suc.prems show ?thesis by (simp add: upt_conv_Cons)
  qed
qed

lemma backed_upt:
  assumes "\<And>a. m < a \<Longrightarrow> a < n \<Longrightarrow> pv a = Some (a - 1)" and "pv m = b"
  shows "backed pv b [m..<n]"
  using assms
proof (induction "n - m" arbitrary: m b)
  case 0
  then show ?case by simp
next
  case (Suc k)
  then have "m < n" by simp
  have "backed pv (Some m) [Suc m..<n]"
    using Suc.hyps(2) Suc.prems by (cases "Suc m < n") (auto intro: Suc.hyps(1))
  with \<open>m < n\<close> Suc.prems show ?case by (simp add: upt_conv_Cons)
qed

text \<open>
  Unlinking an address from a doubly linked chain: its predecessor (or the head) skips it and its
  successor points back to the predecessor.
\<close>

definition unlink_next :: "(nat \<Rightarrow> ptr) \<Rightarrow> (nat \<Rightarrow> ptr) \<Rightarrow> nat \<Rightarrow> (nat \<Rightarrow> ptr)" where
  "unlink_next nx pv a = (case pv a of Some p \<Rightarrow> nx(p := nx a) | None \<Rightarrow> nx)"

definition unlink_head :: "(nat \<Rightarrow> ptr) \<Rightarrow> (nat \<Rightarrow> ptr) \<Rightarrow> nat \<Rightarrow> ptr \<Rightarrow> ptr" where
  "unlink_head nx pv a h = (case pv a of None \<Rightarrow> nx a | Some _ \<Rightarrow> h)"

definition unlink_prev :: "(nat \<Rightarrow> ptr) \<Rightarrow> (nat \<Rightarrow> ptr) \<Rightarrow> nat \<Rightarrow> (nat \<Rightarrow> ptr)" where
  "unlink_prev nx pv a = (case nx a of Some q \<Rightarrow> pv(q := pv a) | None \<Rightarrow> pv)"

lemma unlink:
  assumes c: "chain nx h (xs @ a # ys) None" and b: "backed pv None (xs @ a # ys)"
    and d: "distinct (xs @ a # ys)"
  shows "chain (unlink_next nx pv a) (unlink_head nx pv a h) (xs @ ys) None"
    and "backed (unlink_prev nx pv a) None (xs @ ys)"
    and "unlink_next nx pv a a = nx a"
    and "\<And>z. z \<notin> set xs \<Longrightarrow> unlink_next nx pv a z = nx z"
    and "\<And>z. z \<notin> set ys \<Longrightarrow> unlink_prev nx pv a z = pv z"
proof -
  have ya: "chain nx (nx a) ys None" and cx: "chain nx h xs (Some a)"
    using c by (auto simp: chain_append)
  have pa: "pv a = (if xs = [] then None else Some (last xs))"
    using b by (simp add: backed_append)
  have hd: "nx a = (case ys of [] \<Rightarrow> None | q # _ \<Rightarrow> Some q)"
    using chain_start [OF ya] .
  show "\<And>z. z \<notin> set xs \<Longrightarrow> unlink_next nx pv a z = nx z"
    using pa by (auto simp: unlink_next_def)
  then show "unlink_next nx pv a a = nx a" using d by simp
  show "\<And>z. z \<notin> set ys \<Longrightarrow> unlink_prev nx pv a z = pv z"
    using hd by (auto simp: unlink_prev_def split: list.splits)
  show "chain (unlink_next nx pv a) (unlink_head nx pv a h) (xs @ ys) None"
  proof (cases xs rule: rev_cases)
    case Nil
    with ya pa show ?thesis by (simp add: unlink_next_def unlink_head_def)
  next
    case (snoc us u)
    with cx have "chain nx h us (Some u)" by (auto simp: chain_append)
    moreover have "u \<notin> set us" "u \<notin> set ys" using d snoc by auto
    ultimately show ?thesis
      using ya pa snoc by (auto simp: unlink_next_def unlink_head_def chain_append)
  qed
  show "backed (unlink_prev nx pv a) None (xs @ ys)"
  proof (cases ys)
    case Nil
    then show ?thesis using b hd by (simp add: unlink_prev_def backed_append)
  next
    case (Cons q zs)
    moreover have "q \<notin> set zs" "q \<notin> set xs" using d Cons by auto
    ultimately show ?thesis using b hd pa by (simp add: unlink_prev_def backed_append)
  qed
qed

section \<open>Dense numberings\<close>

text \<open>
  \<open>numbered n f g L\<close>: the slots \<open>L\<close> are numbered \<open>0..<n\<close> without gaps; \<open>f\<close> gives the slot of
  a number and \<open>g\<close> the number of a slot.  Adding a slot at the end and the swap-and-pop removal
  (the last slot takes the number of the removed one) keep a numbering.
\<close>

definition numbered :: "nat \<Rightarrow> (nat \<Rightarrow> nat) \<Rightarrow> (nat \<Rightarrow> nat) \<Rightarrow> nat set \<Rightarrow> bool" where
  "numbered n f g L \<longleftrightarrow>
     (\<forall>i<n. f i \<in> L \<and> g (f i) = i) \<and> (\<forall>s\<in>L. g s < n \<and> f (g s) = s)"

lemma numbered_empty [simp]: "numbered 0 f g {}"
  by (simp add: numbered_def)

lemma numberedI:
  assumes "\<And>i. i < n \<Longrightarrow> f i \<in> L" and "\<And>i. i < n \<Longrightarrow> g (f i) = i"
    and "\<And>s. s \<in> L \<Longrightarrow> g s < n" and "\<And>s. s \<in> L \<Longrightarrow> f (g s) = s"
  shows "numbered n f g L"
  using assms unfolding numbered_def by blast

lemma numberedD:
  assumes "numbered n f g L"
  shows "i < n \<Longrightarrow> f i \<in> L" and "i < n \<Longrightarrow> g (f i) = i"
    and "s \<in> L \<Longrightarrow> g s < n" and "s \<in> L \<Longrightarrow> f (g s) = s"
  using assms unfolding numbered_def by blast+

lemma numbered_inj:
  assumes "numbered n f g L" "i < n" "j < n" "f i = f j"
  shows "i = j"
  using numberedD(2) [OF assms(1)] assms(2-4) by metis

lemma numbered_insert:
  assumes N: "numbered n f g L" and s: "s \<notin> L"
  shows "numbered (Suc n) (f(n := s)) (g(s := n)) (insert s L)"
proof (rule numberedI)
  fix i assume "i < Suc n"
  then show "(f(n := s)) i \<in> insert s L" "(g(s := n)) ((f(n := s)) i) = i"
    using numberedD(1,2) [OF N, of i] s by (auto simp: less_Suc_eq)
next
  fix t assume "t \<in> insert s L"
  then show "(g(s := n)) t < Suc n" "(f(n := s)) ((g(s := n)) t) = t"
    using numberedD(3,4) [OF N, of t] s by auto
qed

lemma numbered_remove_last:
  assumes N: "numbered (Suc n) f g L" and s: "s \<in> L" and g: "g s = n"
  shows "numbered n f g (L - {s})"
proof (rule numberedI)
  fix i assume "i < n"
  then show "f i \<in> L - {s}" "g (f i) = i"
    using numberedD(1,2) [OF N, of i] g by auto
next
  fix t assume t: "t \<in> L - {s}"
  then show "f (g t) = t" using numberedD(4) [OF N, of t] by auto
  have "g t \<noteq> n" using t s g numberedD(4) [OF N, of t] numberedD(4) [OF N, of s] by auto
  then show "g t < n" using t numberedD(3) [OF N, of t] by auto
qed

lemma numbered_swap_pop:
  assumes N: "numbered (Suc n) f g L" and s: "s \<in> L" and ne: "g s \<noteq> n"
  shows "numbered n (f(g s := f n)) (g(f n := g s)) (L - {s})"
proof -
  have last: "f n \<in> L" "g (f n) = n" using numberedD(1,2) [OF N, of n] by auto
  have gs: "g s < n" "f (g s) = s" using numberedD(3,4) [OF N s] ne by auto
  have "s \<noteq> f n" using last ne by auto
  show ?thesis
  proof (rule numberedI)
    fix i assume i: "i < n"
    have "f i \<noteq> f n" using numbered_inj [OF N, of i n] i by auto
    moreover have "f i = s \<longleftrightarrow> i = g s" using numberedD(2) [OF N, of i] i gs by auto
    ultimately show "(f(g s := f n)) i \<in> L - {s}" "(g(f n := g s)) ((f(g s := f n)) i) = i"
      using numberedD(1,2) [OF N, of i] i last \<open>s \<noteq> f n\<close> by auto
  next
    fix t assume t: "t \<in> L - {s}"
    have "g t = n \<longleftrightarrow> t = f n" using t last numberedD(4) [OF N, of t] by auto
    moreover have "g t = g s \<longleftrightarrow> t = s" using t gs numberedD(4) [OF N, of t] by auto
    ultimately show "(g(f n := g s)) t < n" "(f(g s := f n)) ((g(f n := g s)) t) = t"
      using numberedD(3,4) [OF N, of t] t gs by auto
  qed
qed

lemma numbered_card: "numbered n f g L \<Longrightarrow> finite L \<and> card L = n"
proof -
  assume N: "numbered n f g L"
  then have "bij_betw f {..<n} L"
    using numberedD [OF N] by (intro bij_betw_byWitness [where f' = g]) auto
  then show ?thesis
    by (metis bij_betw_finite bij_betw_same_card card_lessThan finite_lessThan)
qed

lemma numbered_listing:
  assumes "numbered n f g L"
  shows "distinct (map f [0..<n])" and "set (map f [0..<n]) = L"
proof -
  have "inj_on f {0..<n}"
    using numberedD(2) [OF assms] by (intro inj_on_inverseI [where g = g]) auto
  then show "distinct (map f [0..<n])" by (simp add: distinct_map)
  have "L \<subseteq> f ` {0..<n}"
  proof
    fix s assume "s \<in> L"
    then have "s = f (g s)" "g s \<in> {0..<n}" using numberedD(3,4) [OF assms] by auto
    then show "s \<in> f ` {0..<n}" by blast
  qed
  then show "set (map f [0..<n]) = L"
    using numberedD(1) [OF assms] by auto
qed

section \<open>Termination of runs\<close>

lemma no_infinite_descent:
  assumes "wf r" and "\<And>k::nat. (f (Suc k), f k) \<in> r"
  shows False
proof -
  have "\<nexists>g. \<forall>k. (g (Suc k), g k) \<in> r" using assms(1) unfolding wf_iff_no_infinite_down_chain .
  then have "\<not> (\<forall>k. (f (Suc k), f k) \<in> r)" unfolding not_ex by (rule spec)
  then show False using assms(2) by blast
qed

text \<open>A step of one thread that lowers its rank lowers the sum of the ranks.\<close>

lemma rank_sum_less:
  assumes "t < (n::nat)" and "f' t < f t" and "\<And>u. u \<noteq> t \<Longrightarrow> f' u = (f u :: nat)"
  shows "(\<Sum>u<n. f' u) < (\<Sum>u<n. f u)"
proof (rule sum_strict_mono_ex1)
  show "\<forall>u\<in>{..<n}. f' u \<le> f u" using assms by (metis less_imp_le order_refl)
  show "\<exists>u\<in>{..<n}. f' u < f u" using assms by blast
qed simp

lemma rank_sum_eq:
  assumes "t < (n::nat)" and "\<And>u. u \<noteq> t \<Longrightarrow> f' u = (f u :: nat)"
  shows "(\<Sum>u<n. f' u) + f t = (\<Sum>u<n. f u) + f' t"
proof -
  have "(\<Sum>u<n. g u) = g t + (\<Sum>u\<in>{..<n} - {t}. g u)" for g :: "nat \<Rightarrow> nat"
    using assms(1) by (intro sum.remove) auto
  moreover have "(\<Sum>u\<in>{..<n} - {t}. f' u) = (\<Sum>u\<in>{..<n} - {t}. f u)"
    using assms(2) by (intro sum.cong) auto
  ultimately show ?thesis by simp
qed

end
