(* ===== verification/Interfaces.thy ===== *)
theory Interfaces
  imports Prelude
begin

text \<open>
  The interfaces between the containers and their clients, as locales: the operations a client
  calls and the laws it relies on, with the clients' lemmas proved once from the laws.  The
  theories of the containers discharge the laws for the models of the code.  The last section holds
  what the models of threads share: invariants and progress of step relations.
\<close>

section \<open>Stores of indexed slots\<close>

text \<open>
  What \<open>SparseList\<close>, \<open>SparseArray\<close> and \<open>EntityManager\<close> use of \<open>IndexedUnmanagedList\<close>: slots that are
  looked up, claimed at an index and released, with data written through the reference that
  \<open>lookup\<close> or \<open>claim\<close> returned.
\<close>

locale slot_store =
  fixes ok :: "'s \<Rightarrow> bool"
    and used :: "'s \<Rightarrow> nat set"
    and val :: "'s \<Rightarrow> nat \<Rightarrow> 'd"
    and lookup :: "'s \<Rightarrow> nat \<Rightarrow> ptr res"
    and claim :: "'s \<Rightarrow> nat \<Rightarrow> (ptr \<times> 's) res"
    and release :: "'s \<Rightarrow> nat \<Rightarrow> 's res"
    and put :: "'s \<Rightarrow> nat \<Rightarrow> 'd \<Rightarrow> 's"
  assumes lookup_law: "ok s \<Longrightarrow> lookup s i = Inr (if i \<in> used s then Some i else None)"
    and claim_used: "ok s \<Longrightarrow> i \<in> used s \<Longrightarrow> claim s i = Inr (None, s)"
    and claim_law: "ok s \<Longrightarrow> i \<notin> used s \<Longrightarrow>
      \<exists>s'. claim s i = Inr (Some i, s') \<and> ok s' \<and> used s' = insert i (used s) \<and>
        (\<forall>a\<in>used s. val s' a = val s a)"
    and release_law: "ok s \<Longrightarrow> i \<in> used s \<Longrightarrow>
      \<exists>s'. release s i = Inr s' \<and> ok s' \<and> used s' = used s - {i} \<and> val s' = val s"
    and release_unused: "ok s \<Longrightarrow> i \<notin> used s \<Longrightarrow> release s i = Inr s"
    and put_ok: "ok (put s i d) = ok s"
    and put_used: "used (put s i d) = used s"
    and put_val: "val (put s i d) = (val s)(i := d)"
    and finite_used: "finite (used s)"
begin

text \<open>Claiming a slot and writing its data, as every client does it.\<close>

lemma claim_put:
  assumes "ok s" and "i \<notin> used s"
  shows "\<exists>s'. claim s i = Inr (Some i, s') \<and> ok (put s' i d) \<and>
    used (put s' i d) = insert i (used s) \<and> val (put s' i d) i = d \<and>
    (\<forall>a\<in>used s. val (put s' i d) a = val s a)"
  using claim_law [OF assms] assms(2) by (auto simp: put_ok put_used put_val)

lemma release_put:
  assumes "ok s" and "i \<in> used s"
  shows "\<exists>s'. release (put s i d) i = Inr s' \<and> ok s' \<and> used s' = used s - {i} \<and>
    (\<forall>a\<in>used s'. val s' a = val s a)"
  using release_law [of "put s i d" i] assms by (auto simp: put_ok put_used put_val)

lemma released_slot_is_claimable:
  assumes "ok s" and "i \<in> used s"
  shows "\<exists>s' s''. release s i = Inr s' \<and> lookup s' i = Inr None \<and> claim s' i = Inr (Some i, s'') \<and>
    used s'' = used s"
  using release_law [OF assms] claim_law lookup_law assms(2) by fastforce

end

section \<open>Maps from 32-bit indices\<close>

text \<open>
  What the global objects use of \<open>SparseList\<close>: \<open>Get\<close>, \<open>EmplaceAt\<close> and \<open>EraseBySparseIndex\<close>, the
  last two aborting when the index is taken or absent.  \<open>look\<close> is the abstract view.
\<close>

locale index_map =
  fixes ok :: "'s \<Rightarrow> bool"
    and look :: "'s \<Rightarrow> nat \<Rightarrow> 'd option"
    and fetch :: "'s \<Rightarrow> nat \<Rightarrow> 'd option res"
    and add :: "'s \<Rightarrow> nat \<Rightarrow> 'd \<Rightarrow> 's res"
    and del :: "'s \<Rightarrow> nat \<Rightarrow> 's res"
  assumes fetch_law: "ok s \<Longrightarrow> fetch s i = Inr (look s i)"
    and add_law: "ok s \<Longrightarrow> i < 2 ^ 32 \<Longrightarrow> look s i = None \<Longrightarrow>
      \<exists>s'. add s i d = Inr s' \<and> ok s' \<and> look s' = (look s)(i \<mapsto> d)"
    and add_taken: "ok s \<Longrightarrow> look s i \<noteq> None \<Longrightarrow> add s i d = Inl Aborted"
    and del_law: "ok s \<Longrightarrow> look s i \<noteq> None \<Longrightarrow>
      \<exists>s'. del s i = Inr s' \<and> ok s' \<and> look s' = (look s)(i := None)"
    and del_absent: "ok s \<Longrightarrow> look s i = None \<Longrightarrow> del s i = Inl Aborted"
begin

lemma add_del:
  assumes "ok s" and "i < 2 ^ 32" and "look s i = None"
  shows "\<exists>s' s''. add s i d = Inr s' \<and> del s' i = Inr s'' \<and> ok s'' \<and> look s'' = look s"
proof -
  obtain s' where s': "add s i d = Inr s'" "ok s'" "look s' = (look s)(i \<mapsto> d)"
    using add_law [OF assms] by blast
  then obtain s'' where "del s' i = Inr s''" "ok s''" "look s'' = (look s')(i := None)"
    using del_law [of s' i] by auto
  with s' assms(3) show ?thesis by (auto simp: fun_upd_idem)
qed

end

text \<open>
  Two such maps that record a relation in both directions.  \<open>ka\<close> finds the key of the second map
  in a value of the first, and \<open>kb\<close> the key of the first map in a value of the second.
\<close>

locale two_way_map =
  A: index_map okA lookA fetchA addA delA + B: index_map okB lookB fetchB addB delB
  for okA :: "'s \<Rightarrow> bool" and lookA :: "'s \<Rightarrow> nat \<Rightarrow> 'a option"
    and fetchA :: "'s \<Rightarrow> nat \<Rightarrow> 'a option res" and addA :: "'s \<Rightarrow> nat \<Rightarrow> 'a \<Rightarrow> 's res"
    and delA :: "'s \<Rightarrow> nat \<Rightarrow> 's res"
    and okB :: "'t \<Rightarrow> bool" and lookB :: "'t \<Rightarrow> nat \<Rightarrow> 'b option"
    and fetchB :: "'t \<Rightarrow> nat \<Rightarrow> 'b option res" and addB :: "'t \<Rightarrow> nat \<Rightarrow> 'b \<Rightarrow> 't res"
    and delB :: "'t \<Rightarrow> nat \<Rightarrow> 't res" +
  fixes ka :: "'a \<Rightarrow> nat" and kb :: "'b \<Rightarrow> nat"
begin

definition inverse :: "'s \<Rightarrow> 't \<Rightarrow> bool" where
  "inverse s t \<longleftrightarrow> okA s \<and> okB t \<and>
     (\<forall>i x. lookA s i = Some x \<longrightarrow> (\<exists>y. lookB t (ka x) = Some y \<and> kb y = i)) \<and>
     (\<forall>j y. lookB t j = Some y \<longrightarrow> (\<exists>x. lookA s (kb y) = Some x \<and> ka x = j))"

lemma inverse_add:
  assumes I: "inverse s t" and i: "i < 2 ^ 32" "lookA s i = None" and x: "ka x < 2 ^ 32"
    and free: "lookB t (ka x) = None" and y: "kb y = i"
  shows "\<exists>s' t'. addA s i x = Inr s' \<and> addB t (ka x) y = Inr t' \<and> inverse s' t' \<and>
    lookA s' = (lookA s)(i \<mapsto> x) \<and> lookB t' = (lookB t)(ka x \<mapsto> y)"
proof -
  have ok: "okA s" "okB t" using I by (simp_all add: inverse_def)
  obtain s' where s': "addA s i x = Inr s'" "okA s'" "lookA s' = (lookA s)(i \<mapsto> x)"
    using A.add_law [OF ok(1) i] by blast
  obtain t' where t': "addB t (ka x) y = Inr t'" "okB t'" "lookB t' = (lookB t)(ka x \<mapsto> y)"
    using B.add_law [OF ok(2) x free] by blast
  have "inverse s' t'"
    using I s' t' y i(2) free unfolding inverse_def by (auto; fastforce)
  with s' t' show ?thesis by blast
qed

lemma inverse_del:
  assumes I: "inverse s t" and i: "lookA s i = Some x"
  shows "\<exists>s' t'. delA s i = Inr s' \<and> delB t (ka x) = Inr t' \<and> inverse s' t' \<and>
    lookA s' = (lookA s)(i := None) \<and> lookB t' = (lookB t)(ka x := None)"
proof -
  have ok: "okA s" "okB t" using I by (simp_all add: inverse_def)
  obtain y where y: "lookB t (ka x) = Some y" "kb y = i" using I i by (auto simp: inverse_def)
  obtain s' where s': "delA s i = Inr s'" "okA s'" "lookA s' = (lookA s)(i := None)"
    using A.del_law [OF ok(1)] i by fastforce
  obtain t' where t': "delB t (ka x) = Inr t'" "okB t'" "lookB t' = (lookB t)(ka x := None)"
    using B.del_law [OF ok(2)] y by fastforce
  have "inverse s' t'"
    using I s' t' y i unfolding inverse_def by (auto; metis option.inject)
  with s' t' show ?thesis by blast
qed

lemma inverse_unique:
  assumes "inverse s t" and "lookA s i = Some x" and "lookA s j = Some x'" and "ka x = ka x'"
  shows "i = j"
  using assms unfolding inverse_def by (metis option.inject)

end


section \<open>Named mailboxes\<close>

text \<open>
  What the network server uses of \<open>ActorMessageDispatcher\<close>: pushing a message to an actor by name.  \<open>inbox\<close> is what
  waits for an actor, \<open>None\<close> if there is no actor with this name.
\<close>

primrec push_each :: "(string \<Rightarrow> 'm \<Rightarrow> 'r \<Rightarrow> bool \<times> 'r) \<Rightarrow> string \<Rightarrow> 'm list \<Rightarrow> 'r \<Rightarrow> 'r" where
  "push_each push nm [] r = r"
| "push_each push nm (m # ms) r = push_each push nm ms (snd (push nm m r))"

locale message_router =
  fixes push :: "string \<Rightarrow> 'm \<Rightarrow> 'r \<Rightarrow> bool \<times> 'r"
    and inbox :: "'r \<Rightarrow> string \<Rightarrow> 'm list option"
  assumes push_known: "inbox r nm = Some ms \<Longrightarrow>
      fst (push nm m r) \<and> inbox (snd (push nm m r)) = (inbox r)(nm \<mapsto> ms @ [m])"
    and push_unknown: "inbox r nm = None \<Longrightarrow> push nm m r = (False, r)"
begin

lemma push_iff: "fst (push nm m r) \<longleftrightarrow> inbox r nm \<noteq> None"
  using push_known push_unknown by (cases "inbox r nm") auto

lemma names_stay: "inbox (snd (push nm m r)) x = None \<longleftrightarrow> inbox r x = None"
  using push_known push_unknown by (cases "inbox r nm") auto

lemma push_each_inbox:
  "inbox r nm = Some ms \<Longrightarrow> inbox (push_each push nm new r) = (inbox r)(nm \<mapsto> ms @ new)"
proof (induction new arbitrary: r ms)
  case Nil
  then show ?case by (simp add: fun_upd_idem)
next
  case (Cons m new)
  have i: "inbox (snd (push nm m r)) = (inbox r)(nm \<mapsto> ms @ [m])" using push_known [OF Cons.prems] by blast
  have "inbox (push_each push nm new (snd (push nm m r))) = (inbox r)(nm \<mapsto> (ms @ [m]) @ new)"
    using Cons.IH [of "snd (push nm m r)" "ms @ [m]"] unfolding i by (simp add: fun_eq_iff)
  then show ?case by simp
qed

end

section \<open>Step relations\<close>

text \<open>
  What every model of threads has: steps that keep an invariant.  The reachable states and the states of an infinite run
  keep it too.
\<close>

locale step_system =
  fixes step :: "'s \<Rightarrow> 's \<Rightarrow> bool"
    and ok :: "'s \<Rightarrow> bool"
  assumes step_ok: "step s s' \<Longrightarrow> ok s \<Longrightarrow> ok s'"
begin

lemma steps_ok: "step\<^sup>*\<^sup>* s s' \<Longrightarrow> ok s \<Longrightarrow> ok s'"
  by (induction rule: rtranclp_induct) (auto intro: step_ok)

lemma run_ok: "ok (f 0) \<Longrightarrow> (\<And>k. step (f k) (f (Suc k))) \<Longrightarrow> ok (f k)"
  by (induction k) (auto intro: step_ok)

end

text \<open>
  Threads that get somewhere.  From every state short of the goal some thread can make an inner step, one that does not wait for
  anything outside (a new call, a new completion, the next frame), and inner steps lower a well-founded measure.
\<close>

locale progress_system = step_system step ok
  for step :: "'s \<Rightarrow> 's \<Rightarrow> bool" and ok :: "'s \<Rightarrow> bool" +
  fixes inner :: "'s \<Rightarrow> 's \<Rightarrow> bool"
    and goal :: "'s \<Rightarrow> bool"
    and left :: "'s \<Rightarrow> 'm"
    and below :: "('m \<times> 'm) set"
  assumes below_wf: "wf below"
    and enabled: "ok s \<Longrightarrow> \<not> goal s \<Longrightarrow> \<exists>s'. step s s' \<and> inner s s'"
    and lowers: "ok s \<Longrightarrow> step s s' \<Longrightarrow> inner s s' \<Longrightarrow> (left s', left s) \<in> below"
begin

lemma no_infinite_run:
  assumes "ok (f 0)" and "\<And>k. step (f k) (f (Suc k))" and "\<And>k. inner (f k) (f (Suc k))"
  shows False
  using no_infinite_descent [OF below_wf, of "\<lambda>k. left (f k)"] lowers [OF run_ok [OF assms(1,2)] assms(2,3)] by blast

lemma goal_reached:
  "ok s \<Longrightarrow> \<exists>s'. (\<lambda>s s'. step s s' \<and> inner s s')\<^sup>*\<^sup>* s s' \<and> goal s'"
proof (induction "left s" arbitrary: s rule: wf_induct_rule [OF below_wf])
  case (1 s)
  show ?case
  proof (cases "goal s")
    case False
    then obtain s' where s': "step s s'" "inner s s'" using enabled [OF 1(2)] by blast
    then obtain s'' where "(\<lambda>s s'. step s s' \<and> inner s s')\<^sup>*\<^sup>* s' s''" "goal s''"
      using 1(1) [OF lowers [OF 1(2) s'] step_ok [OF s'(1) 1(2)]] by blast
    then show ?thesis using s' by (auto intro: converse_rtranclp_into_rtranclp)
  qed blast
qed

lemma inner_steps: "(\<lambda>s s'. step s s' \<and> inner s s')\<^sup>*\<^sup>* s s' \<Longrightarrow> step\<^sup>*\<^sup>* s s'"
  by (rule rtranclp_mono [THEN predicate2D]) auto

lemma some_run: "ok s \<Longrightarrow> \<exists>s'. step\<^sup>*\<^sup>* s s' \<and> goal s'"
  using goal_reached inner_steps by blast

end

end
