(* ===== verification/Paged_List.thy ===== *)
theory Paged_List
  imports Prelude
begin

text \<open>
  \<open>IndexedUnmanagedList<TData, Init>\<close> of Util/MemoryPool/IndexedUnmanagedList.h: slots with fixed
  indices, allocated page by page, each slot either on the free list or on the allocated list,
  both threaded through the slots by \<open>Next\<close> and \<open>Prev\<close>.

  A node is named by its position, page number times \<open>NodesPerPage\<close> plus block number; pages never
  move, so a position stands for an address.  The fields of the nodes are kept as one function
  from addresses per field.  The list never runs a constructor or destructor of the data.
\<close>

section \<open>State\<close>

record 'd plist =
  NodesPerPage :: nat
  BlockInit :: "nat \<Rightarrow> 'd \<Rightarrow> 'd"
  pages :: nat
  nIndex :: "nat \<Rightarrow> nat"
  nAllocated :: "nat \<Rightarrow> bool"
  nNext :: "nat \<Rightarrow> ptr"
  nPrev :: "nat \<Rightarrow> ptr"
  nData :: "nat \<Rightarrow> 'd"
  freeHead :: ptr
  allocatedHead :: ptr

text \<open>The packed \<open>Node\<close>: a 4-byte index, a flag and two 8-byte links before the data.\<close>

definition NodeMetadataSize :: nat where
  "NodeMetadataSize = 4 + 1 + 8 + 8"

text \<open>The constructor.  \<open>raw\<close> stands for memory nobody has written yet.\<close>

definition new_plist :: "nat \<Rightarrow> nat \<Rightarrow> (nat \<Rightarrow> 'd \<Rightarrow> 'd) \<Rightarrow> 'd plist \<Rightarrow> 'd plist" where
  "new_plist pageSize dataSize ini raw =
     raw\<lparr>NodesPerPage := pageSize div (NodeMetadataSize + dataSize), BlockInit := ini,
         pages := 0, freeHead := None, allocatedHead := None\<rparr>"

text \<open>The number of nodes in all pages.\<close>

definition cap :: "'d plist \<Rightarrow> nat" where
  "cap l = pages l * NodesPerPage l"

text \<open>\<open>if (p) p->Prev = v;\<close>\<close>

definition set_prev_of :: "ptr \<Rightarrow> ptr \<Rightarrow> 'd plist \<Rightarrow> 'd plist" where
  "set_prev_of p v l = (case p of None \<Rightarrow> l | Some a \<Rightarrow> l\<lparr>nPrev := (nPrev l)(a := v)\<rparr>)"

section \<open>Operations\<close>

text \<open>
  The loop of \<open>ExtendPage\<close>, from the last block of the new page down to the first.  \<open>h\<close> and \<open>t\<close>
  are \<open>headNodeOfNewPage\<close> and \<open>lastNodeOfNewPage\<close>; indices are 32-bit.
\<close>

fun init_nodes :: "nat \<Rightarrow> nat \<Rightarrow> ptr \<Rightarrow> ptr \<Rightarrow> 'd plist \<Rightarrow> ptr \<times> ptr \<times> 'd plist" where
  "init_nodes base 0 h t l = (h, t, l)"
| "init_nodes base (Suc i) h t l =
     (let a = base + i;
          l1 = l\<lparr>nIndex := (nIndex l)(a := a mod 2 ^ 32), nAllocated := (nAllocated l)(a := False),
                 nNext := (nNext l)(a := h), nPrev := (nPrev l)(a := None)\<rparr>;
          l2 = set_prev_of h (Some a) l1;
          t2 = (case t of None \<Rightarrow> Some a | Some _ \<Rightarrow> t);
          l3 = l2\<lparr>nData := (nData l2)(a := BlockInit l2 (a mod 2 ^ 32) (nData l2 a))\<rparr>
      in init_nodes base i (Some a) t2 l3)"

definition extend_page :: "'d plist \<Rightarrow> ptr \<times> ptr \<times> 'd plist" where
  "extend_page l =
     init_nodes (pages l * NodesPerPage l) (NodesPerPage l) None None (l\<lparr>pages := Suc (pages l)\<rparr>)"

text \<open>\<open>Create\<close> returns the index of the slot and the address of its data.\<close>

definition create :: "'d plist \<Rightarrow> (nat \<times> nat \<times> 'd plist) res" where
  "create l =
     (let l1 = (case freeHead l of
                  None \<Rightarrow> (case extend_page l of (h, _, l') \<Rightarrow> l'\<lparr>freeHead := h\<rparr>)
                | Some _ \<Rightarrow> l)
      in case freeHead l1 of
           None \<Rightarrow> Inl NullDeref
         | Some n \<Rightarrow>
             let l2 = l1\<lparr>freeHead := nNext l1 n\<rparr>;
                 l3 = set_prev_of (freeHead l2) None l2;
                 l4 = l3\<lparr>nPrev := (nPrev l3)(n := None), nNext := (nNext l3)(n := None)\<rparr>;
                 l5 = l4\<lparr>nNext := (nNext l4)(n := allocatedHead l4)\<rparr>;
                 l6 = set_prev_of (allocatedHead l5) (Some n) l5;
                 l7 = l6\<lparr>allocatedHead := Some n, nAllocated := (nAllocated l6)(n := True)\<rparr>
             in Inr (nIndex l7 n, n, l7))"

text \<open>The body of the page loop of \<open>CreateAt\<close>: a new page goes in front of the free list.\<close>

definition add_free_page :: "'d plist \<Rightarrow> 'd plist" where
  "add_free_page l =
     (case extend_page l of
        (h, t, l') \<Rightarrow>
          let l1 = (case t of None \<Rightarrow> l' | Some x \<Rightarrow> l'\<lparr>nNext := (nNext l')(x := freeHead l')\<rparr>);
              l2 = set_prev_of (freeHead l1) t l1
          in l2\<lparr>freeHead := h\<rparr>)"

lemma pages_set_prev_of [simp]: "pages (set_prev_of p v l) = pages l"
  by (simp add: set_prev_of_def split: option.split)

lemma pages_init_nodes [simp]: "pages (snd (snd (init_nodes b i h t l))) = pages l"
  by (induction i arbitrary: h t l) (simp_all add: Let_def)

lemma pages_extend_page: "extend_page l = (h, t, l') \<Longrightarrow> pages l' = Suc (pages l)"
  using pages_init_nodes [of "pages l * NodesPerPage l" "NodesPerPage l" None None
      "l\<lparr>pages := Suc (pages l)\<rparr>"]
  by (simp add: extend_page_def)

lemma pages_add_free_page [simp]: "pages (add_free_page l) = Suc (pages l)"
  by (auto simp: add_free_page_def Let_def dest: pages_extend_page split: prod.split option.split)

function grow_to :: "nat \<Rightarrow> 'd plist \<Rightarrow> 'd plist" where
  "grow_to pageIndex l =
     (if pages l \<le> pageIndex then grow_to pageIndex (add_free_page l) else l)"
  by pat_completeness auto
termination
  by (relation "measure (\<lambda>(i, l). Suc i - pages l)") auto

declare grow_to.simps [simp del]

text \<open>\<open>reinterpret_cast<Node*>(pages_[pageIndex] + blockIndex * NodeSize)\<close>\<close>

definition node_at :: "'d plist \<Rightarrow> nat \<Rightarrow> nat" where
  "node_at l index = (index div NodesPerPage l) * NodesPerPage l + index mod NodesPerPage l"

text \<open>\<open>CreateAt\<close>, \<open>None\<close> being the null pointer it returns for a slot in use.\<close>

definition createAt :: "'d plist \<Rightarrow> nat \<Rightarrow> (ptr \<times> 'd plist) res" where
  "createAt l index =
     (if NodesPerPage l = 0 then Inl DivByZero else
      let l1 = grow_to (index div NodesPerPage l) l;
          n = node_at l1 index
      in if nAllocated l1 n then Inr (None, l1)
         else
           let l2 = (case nPrev l1 n of
                       Some p \<Rightarrow> l1\<lparr>nNext := (nNext l1)(p := nNext l1 n)\<rparr>
                     | None \<Rightarrow> l1\<lparr>freeHead := nNext l1 n\<rparr>);
               l3 = set_prev_of (nNext l2 n) (nPrev l2 n) l2;
               l4 = l3\<lparr>nNext := (nNext l3)(n := allocatedHead l3)\<rparr>;
               l5 = set_prev_of (allocatedHead l4) (Some n) l4;
               l6 = l5\<lparr>allocatedHead := Some n, nAllocated := (nAllocated l5)(n := True)\<rparr>
           in Inr (Some n, l6))"

definition erase :: "'d plist \<Rightarrow> nat \<Rightarrow> 'd plist res" where
  "erase l index =
     (if NodesPerPage l = 0 then Inl DivByZero
      else if pages l \<le> index div NodesPerPage l then Inr l
      else
        let n = node_at l index
        in if \<not> nAllocated l n then Inr l
           else
             let l1 = (case nPrev l n of
                         Some p \<Rightarrow> l\<lparr>nNext := (nNext l)(p := nNext l n)\<rparr>
                       | None \<Rightarrow> l\<lparr>allocatedHead := nNext l n\<rparr>);
                 l2 = set_prev_of (nNext l1 n) (nPrev l1 n) l1;
                 l3 = l2\<lparr>nNext := (nNext l2)(n := freeHead l2)\<rparr>;
                 l4 = set_prev_of (freeHead l3) (Some n) l3;
                 l5 = l4\<lparr>nAllocated := (nAllocated l4)(n := False), freeHead := Some n\<rparr>
             in Inr l5)"

text \<open>\<open>Get\<close> returns the address of the data or null.\<close>

definition get :: "'d plist \<Rightarrow> nat \<Rightarrow> ptr res" where
  "get l index =
     (if NodesPerPage l = 0 then Inl DivByZero
      else if pages l \<le> index div NodesPerPage l then Inr None
      else let n = node_at l index in Inr (if nAllocated l n then Some n else None))"

text \<open>Iteration from \<open>begin()\<close> to \<open>end()\<close>: the addresses visited; \<open>None\<close> when the walk does not end.\<close>

partial_function (option) walk :: "(nat \<Rightarrow> ptr) \<Rightarrow> ptr \<Rightarrow> nat list option" where
  "walk nx p =
     (case p of None \<Rightarrow> Some []
      | Some a \<Rightarrow> Option.bind (walk nx (nx a)) (\<lambda>as. Some (a # as)))"

definition iterate :: "'d plist \<Rightarrow> (nat \<times> 'd) list option" where
  "iterate l =
     map_option (map (\<lambda>a. (nIndex l a, nData l a))) (walk (nNext l) (allocatedHead l))"

section \<open>What a new page looks like\<close>

named_theorems plist_simps \<open>fields of the states between the statements of an operation\<close>

lemma set_prev_of_fields [simp, plist_simps]:
  "NodesPerPage (set_prev_of p v l) = NodesPerPage l"
  "BlockInit (set_prev_of p v l) = BlockInit l"
  "nIndex (set_prev_of p v l) = nIndex l"
  "nAllocated (set_prev_of p v l) = nAllocated l"
  "nNext (set_prev_of p v l) = nNext l"
  "nData (set_prev_of p v l) = nData l"
  "freeHead (set_prev_of p v l) = freeHead l"
  "allocatedHead (set_prev_of p v l) = allocatedHead l"
  by (simp_all add: set_prev_of_def split: option.split)

lemma nPrev_set_prev_of [simp, plist_simps]:
  "nPrev (set_prev_of p v l) = (case p of None \<Rightarrow> nPrev l | Some a \<Rightarrow> (nPrev l)(a := v))"
  by (simp add: set_prev_of_def split: option.split)

lemma cap_set_prev_of [simp]: "cap (set_prev_of p v l) = cap l"
  by (simp add: cap_def)

text \<open>The loop of \<open>ExtendPage\<close> in closed form.\<close>

definition page_nodes :: "nat \<Rightarrow> nat \<Rightarrow> ptr \<Rightarrow> 'd plist \<Rightarrow> 'd plist" where
  "page_nodes base n h l =
     (let new = (\<lambda>a. base \<le> a \<and> a < base + n)
      in l\<lparr>nIndex := (\<lambda>a. if new a then a mod 2 ^ 32 else nIndex l a),
           nAllocated := (\<lambda>a. if new a then False else nAllocated l a),
           nNext := (\<lambda>a. if new a then (if Suc a = base + n then h else Some (Suc a)) else nNext l a),
           nPrev := (\<lambda>a. if new a then (if a = base then None else Some (a - 1))
                         else if 0 < n \<and> h = Some a then Some (base + n - 1) else nPrev l a),
           nData := (\<lambda>a. if new a then BlockInit l (a mod 2 ^ 32) (nData l a) else nData l a)\<rparr>)"

lemma page_nodes_0: "page_nodes base 0 h l = l"
  by (cases l) (auto simp: page_nodes_def fun_eq_iff)

lemma page_nodes_Suc:
  assumes "\<And>x. h = Some x \<Longrightarrow> base + Suc n \<le> x"
  shows "page_nodes base n (Some (base + n))
           (let l2 = set_prev_of h (Some (base + n))
                (l\<lparr>nIndex := (nIndex l)(base + n := (base + n) mod 2 ^ 32),
                  nAllocated := (nAllocated l)(base + n := False),
                  nNext := (nNext l)(base + n := h), nPrev := (nPrev l)(base + n := None)\<rparr>)
            in l2\<lparr>nData := (nData l2)(base + n := BlockInit l2 ((base + n) mod 2 ^ 32)
                    (nData l2 (base + n)))\<rparr>)
       = page_nodes base (Suc n) h l"
proof -
  have h: "base + n < x" if "h = Some x" for x
    using assms [OF that] by simp
  show ?thesis
    by (cases l; cases h)
      (auto simp: page_nodes_def set_prev_of_def Let_def fun_eq_iff less_Suc_eq dest: h)
qed

lemma init_nodes_page_nodes:
  fixes l :: "'d plist"
  assumes "\<And>x. h = Some x \<Longrightarrow> base + n \<le> x"
  shows "init_nodes base n h t l =
    (if n = 0 then (h, t, l)
     else (Some base, (case t of None \<Rightarrow> Some (base + n - 1) | Some _ \<Rightarrow> t), page_nodes base n h l))"
  using assms
proof (induction n arbitrary: h t l)
  case 0
  then show ?case by simp
next
  case (Suc n)
  have IH: "init_nodes base n (Some (base + n)) t' l' =
    (if n = 0 then (Some (base + n), t', l')
     else (Some base, (case t' of None \<Rightarrow> Some (base + n - 1) | Some _ \<Rightarrow> t'),
           page_nodes base n (Some (base + n)) l'))" for t' and l' :: "'d plist"
    by (rule Suc.IH) simp
  note S = page_nodes_Suc [OF Suc.prems, where l = l, unfolded Let_def]
  show ?case
    using S by (cases "n = 0") (simp_all add: Let_def IH page_nodes_0 split: option.split)
qed

lemma extend_page_eq:
  "0 < NodesPerPage l \<Longrightarrow>
   extend_page l = (Some (cap l), Some (cap l + NodesPerPage l - 1),
     page_nodes (cap l) (NodesPerPage l) None (l\<lparr>pages := Suc (pages l)\<rparr>))"
  using init_nodes_page_nodes [of None "cap l" "NodesPerPage l" None "l\<lparr>pages := Suc (pages l)\<rparr>"]
  by (simp add: extend_page_def cap_def)

lemma page_nodes_fields [simp, plist_simps]:
  "NodesPerPage (page_nodes b n h l) = NodesPerPage l"
  "BlockInit (page_nodes b n h l) = BlockInit l"
  "pages (page_nodes b n h l) = pages l"
  "freeHead (page_nodes b n h l) = freeHead l"
  "allocatedHead (page_nodes b n h l) = allocatedHead l"
  "nAllocated (page_nodes b n h l) a = (if b \<le> a \<and> a < b + n then False else nAllocated l a)"
  "nIndex (page_nodes b n h l) a = (if b \<le> a \<and> a < b + n then a mod 2 ^ 32 else nIndex l a)"
  "nData (page_nodes b n h l) a =
     (if b \<le> a \<and> a < b + n then BlockInit l (a mod 2 ^ 32) (nData l a) else nData l a)"
  "nNext (page_nodes b n h l) a =
     (if b \<le> a \<and> a < b + n then (if Suc a = b + n then h else Some (Suc a)) else nNext l a)"
  "nPrev (page_nodes b n None l) a =
     (if b \<le> a \<and> a < b + n then (if a = b then None else Some (a - 1)) else nPrev l a)"
  by (simp_all add: page_nodes_def)

lemma add_free_page_eq:
  "0 < NodesPerPage l \<Longrightarrow>
   add_free_page l =
     (let p = page_nodes (cap l) (NodesPerPage l) None (l\<lparr>pages := Suc (pages l)\<rparr>);
          t = cap l + NodesPerPage l - 1
      in (set_prev_of (freeHead l) (Some t) (p\<lparr>nNext := (nNext p)(t := freeHead l)\<rparr>))
         \<lparr>freeHead := Some (cap l)\<rparr>)"
  by (simp add: add_free_page_def extend_page_eq Let_def)

lemma add_free_page_fields:
  assumes "0 < NodesPerPage l"
  shows "nNext (add_free_page l) a = (if a = cap l + NodesPerPage l - 1 then freeHead l
      else if cap l \<le> a \<and> a < cap l + NodesPerPage l then Some (Suc a) else nNext l a)"
    and "nPrev (add_free_page l) a = (if freeHead l = Some a then Some (cap l + NodesPerPage l - 1)
      else if cap l \<le> a \<and> a < cap l + NodesPerPage l then (if a = cap l then None else Some (a - 1))
      else nPrev l a)"
    and "freeHead (add_free_page l) = Some (cap l)"
    and "allocatedHead (add_free_page l) = allocatedHead l"
  using assms by (auto simp: add_free_page_eq Let_def split: option.split)

section \<open>Slots\<close>

text \<open>
  What a client sees through \<open>Get\<close>: which indices are in use, and their data.  This level does not
  depend on the links.
\<close>

definition live :: "'d plist \<Rightarrow> nat set" where
  "live l = {a. a < cap l \<and> nAllocated l a}"

definition content :: "'d plist \<Rightarrow> nat \<Rightarrow> 'd option" where
  "content l i = (if i \<in> live l then Some (nData l i) else None)"

lemma live_I: "a < cap l \<Longrightarrow> nAllocated l a \<Longrightarrow> a \<in> live l"
  by (simp add: live_def)

lemma live_less: "a \<in> live l \<Longrightarrow> a < cap l"
  by (simp add: live_def)

lemma finite_live [simp]: "finite (live l)"
  by (rule finite_subset [of _ "{..<cap l}"]) (auto simp: live_def)

lemma node_at_eq [simp]: "node_at l i = i"
  by (simp add: node_at_def)

lemma pages_le_iff: "0 < NodesPerPage l \<Longrightarrow> pages l \<le> i div NodesPerPage l \<longleftrightarrow> cap l \<le> i"
  by (simp add: cap_def less_eq_div_iff_mult_less_eq)

lemma get_eq:
  "0 < NodesPerPage l \<Longrightarrow> get l i = Inr (if i \<in> live l then Some i else None)"
  by (simp add: get_def pages_le_iff live_def Let_def)

text \<open>\<open>grown l l'\<close>: \<open>l'\<close> is \<open>l\<close> with further pages of free slots.\<close>

definition grown :: "'d plist \<Rightarrow> 'd plist \<Rightarrow> bool" where
  "grown l l' \<longleftrightarrow>
     NodesPerPage l' = NodesPerPage l \<and> BlockInit l' = BlockInit l \<and> pages l \<le> pages l' \<and>
     allocatedHead l' = allocatedHead l \<and>
     (\<forall>a<cap l. nAllocated l' a = nAllocated l a \<and> nData l' a = nData l a \<and> nIndex l' a = nIndex l a) \<and>
     (\<forall>a. cap l \<le> a \<longrightarrow> a < cap l' \<longrightarrow>
        \<not> nAllocated l' a \<and> nData l' a = BlockInit l (a mod 2 ^ 32) (nData l a) \<and>
        nIndex l' a = a mod 2 ^ 32) \<and>
     (\<forall>a\<ge>cap l'. nData l' a = nData l a)"

lemma grown_refl [simp]: "grown l l"
  by (simp add: grown_def)

lemma grown_cap: "grown l l' \<Longrightarrow> cap l \<le> cap l'"
  by (simp add: grown_def cap_def)

lemma grownD:
  assumes "grown l l'"
  shows "NodesPerPage l' = NodesPerPage l" "BlockInit l' = BlockInit l"
    "allocatedHead l' = allocatedHead l"
    and "a < cap l \<Longrightarrow> nAllocated l' a = nAllocated l a \<and> nData l' a = nData l a \<and> nIndex l' a = nIndex l a"
    and "cap l \<le> a \<Longrightarrow> a < cap l' \<Longrightarrow> \<not> nAllocated l' a \<and>
           nData l' a = BlockInit l (a mod 2 ^ 32) (nData l a) \<and> nIndex l' a = a mod 2 ^ 32"
    and "cap l' \<le> a \<Longrightarrow> nData l' a = nData l a"
  using assms unfolding grown_def by blast+

lemma grown_trans:
  assumes g: "grown l l'" and h: "grown l' l''"
  shows "grown l l''"
  unfolding grown_def
proof (intro conjI allI impI)
  note gs = grownD [OF g] and hs = grownD [OF h]
  have caps: "cap l \<le> cap l'" "cap l' \<le> cap l''" using g h by (auto dest: grown_cap)
  show "NodesPerPage l'' = NodesPerPage l" "BlockInit l'' = BlockInit l"
    "allocatedHead l'' = allocatedHead l" using gs hs by simp_all
  show "pages l \<le> pages l''" using g h by (simp add: grown_def)
  fix a
  show "nAllocated l'' a = nAllocated l a" "nData l'' a = nData l a" "nIndex l'' a = nIndex l a"
    if "a < cap l" using gs(4) [OF that] hs(4) [of a] that caps by simp_all
  show "nData l'' a = nData l a" if "cap l'' \<le> a"
    using gs(6) [of a] hs(6) [of a] that caps by simp
  assume a: "cap l \<le> a" "a < cap l''"
  show "\<not> nAllocated l'' a" "nData l'' a = BlockInit l (a mod 2 ^ 32) (nData l a)"
    "nIndex l'' a = a mod 2 ^ 32"
    using gs(2) gs(5) [of a] gs(6) [of a] hs(4) [of a] hs(5) [of a] a by (cases "a < cap l'"; simp)+
qed

lemma grown_live:
  assumes g: "grown l l'"
  shows "live l' = live l"
proof -
  have "a < cap l' \<and> nAllocated l' a \<longleftrightarrow> a < cap l \<and> nAllocated l a" for a
    using grownD(4,5) [OF g, of a] grown_cap [OF g] by (cases "a < cap l") auto
  then show ?thesis by (simp add: live_def)
qed

lemma grown_add_free_page: "0 < NodesPerPage l \<Longrightarrow> grown l (add_free_page l)"
  by (auto simp: grown_def add_free_page_eq Let_def cap_def)

lemma grow_to_grown: "0 < NodesPerPage l \<Longrightarrow> grown l (grow_to i l)"
proof (induction i l rule: grow_to.induct)
  case (1 i l)
  show ?case
  proof (cases "pages l \<le> i")
    case True
    have g: "grown l (add_free_page l)" using "1.prems" by (rule grown_add_free_page)
    then have "0 < NodesPerPage (add_free_page l)" using "1.prems" by (simp add: grown_def)
    with True "1.IH" have "grown (add_free_page l) (grow_to i (add_free_page l))" by blast
    with g True show ?thesis by (subst grow_to.simps) (auto intro: grown_trans)
  next
    case False
    then show ?thesis by (subst grow_to.simps) simp
  qed
qed

lemma pages_grow_to: "pages (grow_to i l) = max (pages l) (Suc i)"
proof (induction i l rule: grow_to.induct)
  case (1 i l)
  then show ?case by (subst grow_to.simps) auto
qed

lemma grow_to_same: "i < pages l \<Longrightarrow> grow_to i l = l"
  by (subst grow_to.simps) simp

lemma NodesPerPage_grow_to [simp]:
  "0 < NodesPerPage l \<Longrightarrow> NodesPerPage (grow_to i l) = NodesPerPage l"
  using grow_to_grown by (auto simp: grown_def)

lemma cap_grow_to:
  assumes "0 < NodesPerPage l"
  shows "i < cap (grow_to (i div NodesPerPage l) l)"
proof -
  have "i < Suc (i div NodesPerPage l) * NodesPerPage l"
    using assms by (metis dividend_less_div_times mult_Suc add.commute)
  also have "\<dots> \<le> max (pages l) (Suc (i div NodesPerPage l)) * NodesPerPage l"
    by (rule mult_le_mono1) simp
  finally show ?thesis using assms by (simp add: cap_def pages_grow_to)
qed

text \<open>\<open>CreateAt\<close> on a slot in use changes nothing and returns null.\<close>

lemma createAt_live:
  assumes "0 < NodesPerPage l" and "i \<in> live l"
  shows "createAt l i = Inr (None, l)"
proof -
  have "\<not> pages l \<le> i div NodesPerPage l"
    using assms by (simp add: pages_le_iff live_def)
  then have "grow_to (i div NodesPerPage l) l = l" by (simp add: grow_to_same)
  with assms show ?thesis by (simp add: createAt_def live_def Let_def)
qed

text \<open>The links apart, \<open>CreateAt\<close> on a free slot grows the pages and sets one flag.\<close>

lemma createAt_fields:
  assumes n: "0 < NodesPerPage l" and l1: "l1 = grow_to (i div NodesPerPage l) l"
    and free: "\<not> nAllocated l1 i"
  obtains l' where "createAt l i = Inr (Some i, l')"
    "NodesPerPage l' = NodesPerPage l1" "BlockInit l' = BlockInit l1" "pages l' = pages l1"
    "nIndex l' = nIndex l1" "nData l' = nData l1" "nAllocated l' = (nAllocated l1)(i := True)"
  using free that unfolding createAt_def Let_def l1 [symmetric]
  by (auto simp: n split: option.split)

lemma createAt_free:
  assumes n: "0 < NodesPerPage l" and i: "i \<notin> live l"
  obtains l' where "createAt l i = Inr (Some i, l')"
    "NodesPerPage l' = NodesPerPage l" "BlockInit l' = BlockInit l"
    "live l' = insert i (live l)" "\<And>a. a \<in> live l \<Longrightarrow> nData l' a = nData l a"
    "nData l' i = (if i < cap l then nData l i else BlockInit l (i mod 2 ^ 32) (nData l i))"
proof -
  define l1 where l1: "l1 = grow_to (i div NodesPerPage l) l"
  have g: "grown l l1" using n l1 by (simp add: grow_to_grown)
  have c: "i < cap l1" using n l1 by (simp add: cap_grow_to)
  have free: "\<not> nAllocated l1 i" using i grown_live [OF g] c by (auto simp: live_def)
  obtain l' where l': "createAt l i = Inr (Some i, l')"
    "NodesPerPage l' = NodesPerPage l1" "BlockInit l' = BlockInit l1" "pages l' = pages l1"
    "nIndex l' = nIndex l1" "nData l' = nData l1" "nAllocated l' = (nAllocated l1)(i := True)"
    by (rule createAt_fields [OF n l1 free])
  have "live l' = insert i (live l1)"
    using l' c by (auto simp: live_def cap_def)
  moreover have "nData l' a = nData l a" if "a \<in> live l" for a
    using l' grownD(4) [OF g live_less [OF that]] by simp
  moreover have "nData l' i = (if i < cap l then nData l i else BlockInit l (i mod 2 ^ 32) (nData l i))"
    using l' grownD(4,5) [OF g, of i] c by simp
  ultimately show ?thesis
    using that [OF l'(1)] l' grownD(1,2) [OF g] grown_live [OF g] by simp
qed

lemma erase_dead: "0 < NodesPerPage l \<Longrightarrow> i \<notin> live l \<Longrightarrow> erase l i = Inr l"
  by (auto simp: erase_def pages_le_iff live_def Let_def)

lemma erase_live:
  assumes n: "0 < NodesPerPage l" and i: "i \<in> live l"
  obtains l' where "erase l i = Inr l'"
    "NodesPerPage l' = NodesPerPage l" "BlockInit l' = BlockInit l" "pages l' = pages l"
    "nIndex l' = nIndex l" "nData l' = nData l" "nAllocated l' = (nAllocated l)(i := False)"
    "live l' = live l - {i}"
proof -
  have "i < cap l" "nAllocated l i" using i by (simp_all add: live_def)
  then obtain l' where l': "erase l i = Inr l'"
    "NodesPerPage l' = NodesPerPage l" "BlockInit l' = BlockInit l" "pages l' = pages l"
    "nIndex l' = nIndex l" "nData l' = nData l" "nAllocated l' = (nAllocated l)(i := False)"
    unfolding erase_def Let_def by (auto simp: n pages_le_iff split: option.split)
  moreover from l' have "live l' = live l - {i}" by (auto simp: live_def cap_def)
  ultimately show ?thesis using that by blast
qed

section \<open>The two lists\<close>

text \<open>
  \<open>lists_ok l fs as\<close>: following \<open>Next\<close>, the free list runs through \<open>fs\<close> and the allocated list
  through \<open>as\<close>, the two share the slots of all pages between them, and the flag of a slot says
  which list it is on.  This says nothing about \<open>Prev\<close>.
\<close>

definition lists_ok :: "'d plist \<Rightarrow> nat list \<Rightarrow> nat list \<Rightarrow> bool" where
  "lists_ok l fs as \<longleftrightarrow>
     0 < NodesPerPage l \<and>
     chain (nNext l) (freeHead l) fs None \<and> chain (nNext l) (allocatedHead l) as None \<and>
     distinct (fs @ as) \<and> set (fs @ as) = {..<cap l} \<and>
     (\<forall>a<cap l. nAllocated l a \<longleftrightarrow> a \<in> set as) \<and> (\<forall>a<cap l. nIndex l a = a mod 2 ^ 32)"

lemma lists_okD:
  assumes "lists_ok l fs as"
  shows "0 < NodesPerPage l" "chain (nNext l) (freeHead l) fs None"
    "chain (nNext l) (allocatedHead l) as None" "distinct fs" "distinct as"
    "set fs \<inter> set as = {}" "set fs \<union> set as = {..<cap l}"
    "\<And>a. a < cap l \<Longrightarrow> nAllocated l a \<longleftrightarrow> a \<in> set as"
    "\<And>a. a < cap l \<Longrightarrow> nIndex l a = a mod 2 ^ 32"
    "\<And>a. a \<in> set fs \<Longrightarrow> a < cap l" "\<And>a. a \<in> set as \<Longrightarrow> a < cap l"
  using assms by (auto simp: lists_ok_def)

lemma lists_ok_live: "lists_ok l fs as \<Longrightarrow> live l = set as"
  using lists_okD(8,11) by (fastforce simp: live_def)

lemma lists_ok_new:
  assumes "NodeMetadataSize + ds \<le> ps"
  shows "lists_ok (new_plist ps ds ini raw) [] []"
  using assms by (simp add: lists_ok_def new_plist_def cap_def div_greater_zero_iff NodeMetadataSize_def)

text \<open>A page in front of the free list.\<close>

lemma lists_ok_page:
  assumes L: "lists_ok l fs as" and new: "ns = [cap l..<cap l + NodesPerPage l]"
  shows "lists_ok (add_free_page l) (ns @ fs) as"
    and "backed (nPrev l) None as \<Longrightarrow> backed (nPrev (add_free_page l)) None as"
    and "backed (nPrev l) None fs \<Longrightarrow> backed (nPrev (add_free_page l)) None (ns @ fs)"
proof -
  note Ls = lists_okD [OF L]
  let ?n = "NodesPerPage l" and ?c = "cap l" and ?l = "add_free_page l"
  have n: "0 < ?n" by (rule Ls)
  have g: "grown l ?l" using n by (rule grown_add_free_page)
  have cl: "cap ?l = ?c + ?n" using n by (simp add: cap_def grownD(1) [OF g])
  note nx = add_free_page_fields(1) [OF n] and pv = add_free_page_fields(2) [OF n]
    and fh = add_free_page_fields(3) [OF n]
  have in_old: "a \<in> set fs \<or> a \<in> set as \<Longrightarrow> a < ?c" for a using Ls(10,11) by auto
  have fs_hd: "freeHead l = (case fs of [] \<Rightarrow> None | a # _ \<Rightarrow> Some a)"
    using Ls(2) by (rule chain_start)
  have keep: "chain (nNext ?l) p xs None = chain (nNext l) p xs None"
    if "set xs \<subseteq> set fs \<union> set as" for p xs
    using that in_old nx n by (intro chain_cong) (fastforce)
  have "chain (nNext ?l) (Some ?c) ns (freeHead l)"
    unfolding new using n nx by (intro chain_upt) auto
  then have "chain (nNext ?l) (freeHead ?l) (ns @ fs) None"
    using Ls(2) keep by (auto simp: chain_append fh)
  moreover have "chain (nNext ?l) (allocatedHead ?l) as None"
    using Ls(3) keep grownD(3) [OF g] by simp
  moreover have "{..<cap ?l} = set ns \<union> {..<?c}" unfolding new cl by auto
  then have "set (ns @ fs @ as) = {..<cap ?l}" unfolding set_append Ls(7) by simp
  moreover have "set ns \<inter> (set fs \<union> set as) = {}" unfolding Ls(7) new by auto
  then have "distinct (ns @ fs @ as)" using Ls(4-6) new by (simp add: Int_Un_distrib)
  moreover have "nAllocated ?l a \<longleftrightarrow> a \<in> set as" "nIndex ?l a = a mod 2 ^ 32" if "a < cap ?l" for a
    using that grownD(4,5) [OF g, of a] Ls(8,9) [of a] in_old [of a] by (cases "a < ?c"; auto)+
  ultimately show "lists_ok ?l (ns @ fs) as"
    using n grownD(1) [OF g] by (simp add: lists_ok_def)
  show "backed (nPrev ?l) None as" if "backed (nPrev l) None as"
  proof -
    have "nPrev ?l a = nPrev l a" if "a \<in> set as" for a
      using that in_old [of a] pv [of a] fs_hd Ls(6) by (auto split: list.splits)
    then have "backed (nPrev ?l) None as = backed (nPrev l) None as" by (rule backed_cong)
    then show ?thesis using that by simp
  qed
  show "backed (nPrev ?l) None (ns @ fs)" if b: "backed (nPrev l) None fs"
  proof -
    have "backed (nPrev ?l) None ns"
    proof -
      have "freeHead l = Some a \<Longrightarrow> a < ?c" for a
        using fs_hd in_old [of a] by (auto split: list.splits)
      then have "nPrev ?l a = (if a = ?c then None else Some (a - 1))" if "?c \<le> a" "a < ?c + ?n" for a
        using pv [of a] that by auto
      then show ?thesis unfolding new using n by (intro backed_upt) auto
    qed
    moreover have "backed (nPrev ?l) (Some (?c + ?n - 1)) fs"
    proof (cases fs)
      case (Cons f gs)
      have "nPrev ?l a = nPrev l a" if "a \<in> set gs" for a
        using that in_old [of a] pv [of a] fs_hd Cons Ls(4) by auto
      then have "backed (nPrev ?l) (Some f) gs = backed (nPrev l) (Some f) gs"
        by (rule backed_cong)
      then have "backed (nPrev ?l) (Some f) gs" using b Cons by simp
      then show ?thesis using Cons pv fs_hd by simp
    qed simp
    moreover have "ns \<noteq> []" "last ns = ?c + ?n - 1" using n new by auto
    ultimately show ?thesis by (simp add: backed_append)
  qed
qed

text \<open>When the free list is empty, \<open>Create\<close> takes the new page as the free list.\<close>

lemma create_extends:
  assumes n: "0 < NodesPerPage l" and empty: "freeHead l = None"
  shows "create l = create (add_free_page l)"
proof -
  obtain h t l' where e: "extend_page l = (h, t, l')" by (cases "extend_page l")
  have h: "h = Some (cap l)" "t = Some (cap l + NodesPerPage l - 1)"
    and l': "l' = page_nodes (cap l) (NodesPerPage l) None (l\<lparr>pages := Suc (pages l)\<rparr>)"
    using n e by (simp_all add: extend_page_eq)
  have "nNext l' (cap l + NodesPerPage l - 1) = None" using n by (auto simp: l')
  then have "(nNext l')(cap l + NodesPerPage l - 1 := None) = nNext l'"
    by (rule fun_upd_idem)
  moreover have "l'\<lparr>nNext := nNext l'\<rparr> = l'" by (cases l') simp
  ultimately have "add_free_page l = l'\<lparr>freeHead := h\<rparr>"
    using empty by (simp add: add_free_page_def e h l' set_prev_of_def Let_def)
  then show ?thesis
    using empty e h by (simp add: create_def)
qed

lemma create_pops:
  assumes L: "lists_ok l (n # fs) as"
  obtains l' where "create l = Inr (n mod 2 ^ 32, n, l')" "lists_ok l' fs (n # as)"
    "NodesPerPage l' = NodesPerPage l" "BlockInit l' = BlockInit l" "nData l' = nData l"
    "backed (nPrev l) None as \<Longrightarrow> backed (nPrev l') None (n # as)"
    "backed (nPrev l) None (n # fs) \<Longrightarrow> backed (nPrev l') None fs"
proof -
  note Ls = lists_okD [OF L]
  have fh: "freeHead l = Some n" and fs: "chain (nNext l) (nNext l n) fs None" using Ls(2) by auto
  have n: "n < cap l" "n \<notin> set fs" "n \<notin> set as" "nIndex l n = n mod 2 ^ 32"
    using Ls(4,6,9,10) by auto
  have hd_as: "allocatedHead l = (case as of [] \<Rightarrow> None | a # _ \<Rightarrow> Some a)"
    and hd_fs: "nNext l n = (case fs of [] \<Rightarrow> None | a # _ \<Rightarrow> Some a)"
    using Ls(3) fs by (auto dest: chain_start)
  obtain l' where cr: "create l = Inr (n mod 2 ^ 32, n, l')"
    and fields: "NodesPerPage l' = NodesPerPage l" "BlockInit l' = BlockInit l" "nData l' = nData l"
      "pages l' = pages l" "nIndex l' = nIndex l" "nAllocated l' = (nAllocated l)(n := True)"
      "freeHead l' = nNext l n" "allocatedHead l' = Some n"
      "nNext l' = (nNext l)(n := allocatedHead l)"
    and pv: "\<And>a. nPrev l' a = (if allocatedHead l = Some a then Some n else if a = n then None
              else if nNext l n = Some a then None else nPrev l a)"
    using fh n(4) unfolding create_def Let_def by (simp split: option.split)
  have "lists_ok l' fs (n # as)"
    using Ls n fs by (auto simp: lists_ok_def fields cap_def)
  moreover have "backed (nPrev l') None (n # as)" if b: "backed (nPrev l) None as"
  proof (cases as)
    case Nil
    then show ?thesis using hd_as pv by simp
  next
    case (Cons a bs)
    have "nPrev l' c = nPrev l c" if "c \<in> set bs" for c
      using that Ls(5,6) n Cons hd_as hd_fs pv [of c] by (cases fs) auto
    then have "backed (nPrev l') (Some a) bs = backed (nPrev l) (Some a) bs" by (rule backed_cong)
    with b Cons hd_as pv n show ?thesis by auto
  qed
  moreover have "backed (nPrev l') None fs" if b: "backed (nPrev l) None (n # fs)"
  proof (cases fs)
    case (Cons f gs)
    have off: "allocatedHead l \<noteq> Some c" if "c \<in> set fs" for c
      using that hd_as Ls(6) by (auto split: list.splits)
    have "nPrev l' c = nPrev l c" if "c \<in> set gs" for c
      using that Ls(4,6) n Cons off [of c] hd_fs pv [of c] by auto
    then have "backed (nPrev l') (Some f) gs = backed (nPrev l) (Some f) gs" by (rule backed_cong)
    with b Cons hd_fs pv n off [of f] show ?thesis by auto
  qed simp
  ultimately show ?thesis using that cr fields by blast
qed

lemma erase_unlinks:
  assumes L: "lists_ok l fs (xs @ a # ys)" and b: "backed (nPrev l) None (xs @ a # ys)"
  obtains l' where "erase l a = Inr l'" "lists_ok l' (a # fs) (xs @ ys)"
    "NodesPerPage l' = NodesPerPage l" "BlockInit l' = BlockInit l" "nData l' = nData l"
    "backed (nPrev l') None (xs @ ys)" "nPrev l' a = nPrev l a"
proof -
  note Ls = lists_okD [OF L]
  note U = unlink [OF Ls(3) b Ls(5)]
  have a: "a < cap l" "nAllocated l a" "a \<notin> set fs" "a \<notin> set xs" "a \<notin> set ys"
    using Ls(5,6,8,11) by auto
  have fh: "freeHead l = (case fs of [] \<Rightarrow> None | f # _ \<Rightarrow> Some f)"
    using Ls(2) by (rule chain_start)
  have nxa: "unlink_next (nNext l) (nPrev l) a a = nNext l a" by (rule U(3))
  define nx pv where "nx = unlink_next (nNext l) (nPrev l) a" and "pv = unlink_prev (nNext l) (nPrev l) a"
  have "\<exists>l'. erase l a = Inr l' \<and>
      NodesPerPage l' = NodesPerPage l \<and> BlockInit l' = BlockInit l \<and> nData l' = nData l \<and>
      pages l' = pages l \<and> nIndex l' = nIndex l \<and> nAllocated l' = (nAllocated l)(a := False) \<and>
      freeHead l' = Some a \<and> allocatedHead l' = unlink_head (nNext l) (nPrev l) a (allocatedHead l) \<and>
      nNext l' = nx(a := freeHead l) \<and>
      nPrev l' = (case freeHead l of None \<Rightarrow> pv | Some f \<Rightarrow> pv(f := Some a))"
    using a Ls(1) nxa unfolding nx_def pv_def
    by (cases "nPrev l a")
      (simp_all add: erase_def pages_le_iff Let_def unlink_next_def unlink_head_def unlink_prev_def
        split: option.split)
  then obtain l' where er: "erase l a = Inr l'"
    and fields: "NodesPerPage l' = NodesPerPage l" "BlockInit l' = BlockInit l" "nData l' = nData l"
      "pages l' = pages l" "nIndex l' = nIndex l" "nAllocated l' = (nAllocated l)(a := False)"
      "freeHead l' = Some a" "allocatedHead l' = unlink_head (nNext l) (nPrev l) a (allocatedHead l)"
      "nNext l' = nx(a := freeHead l)"
    and pv: "nPrev l' = (case freeHead l of None \<Rightarrow> pv | Some f \<Rightarrow> pv(f := Some a))"
    by blast
  note nx_def [simp] pv_def [simp]
  have "chain (nNext l') (freeHead l) fs None"
  proof -
    have "nNext l' c = nNext l c" if "c \<in> set fs" for c
      using that a Ls(6) U(4) [of c] by (auto simp: fields)
    then have "chain (nNext l') (freeHead l) fs None = chain (nNext l) (freeHead l) fs None"
      by (rule chain_cong)
    with Ls(2) show ?thesis by simp
  qed
  moreover have "chain (nNext l') (allocatedHead l') (xs @ ys) None"
    using U(1) a by (simp add: fields)
  ultimately have "lists_ok l' (a # fs) (xs @ ys)"
    using Ls(1,4-7) Ls(8,9) a by (auto simp: lists_ok_def fields cap_def)
  moreover have "backed (nPrev l') None (xs @ ys)"
    using U(2) fh Ls(6) pv by (cases fs) auto
  moreover have "nPrev l' a = nPrev l a"
    using U(5) [of a] fh a pv by (cases fs) auto
  ultimately show ?thesis using that er fields by blast
qed

lemma createAt_unlinks:
  assumes L: "lists_ok l (xs @ a # ys) as" and b: "backed (nPrev l) None (xs @ a # ys)"
  obtains l' where "createAt l a = Inr (Some a, l')" "lists_ok l' (xs @ ys) (a # as)"
    "NodesPerPage l' = NodesPerPage l" "BlockInit l' = BlockInit l" "nData l' = nData l"
    "backed (nPrev l') None (xs @ ys)" "nPrev l' a = nPrev l a"
proof -
  note Ls = lists_okD [OF L]
  note U = unlink [OF Ls(2) b Ls(4)]
  have a: "a < cap l" "\<not> nAllocated l a" "a \<notin> set as" "a \<notin> set xs" "a \<notin> set ys"
    using Ls(4,6,8,10) by auto
  have grow: "grow_to (a div NodesPerPage l) l = l"
    using a(1) pages_le_iff [OF Ls(1), of a] by (intro grow_to_same) linarith
  have ah: "allocatedHead l = (case as of [] \<Rightarrow> None | f # _ \<Rightarrow> Some f)"
    using Ls(3) by (rule chain_start)
  have nxa: "unlink_next (nNext l) (nPrev l) a a = nNext l a" by (rule U(3))
  define nx pv where "nx = unlink_next (nNext l) (nPrev l) a" and "pv = unlink_prev (nNext l) (nPrev l) a"
  have "\<exists>l'. createAt l a = Inr (Some a, l') \<and>
      NodesPerPage l' = NodesPerPage l \<and> BlockInit l' = BlockInit l \<and> nData l' = nData l \<and>
      pages l' = pages l \<and> nIndex l' = nIndex l \<and> nAllocated l' = (nAllocated l)(a := True) \<and>
      allocatedHead l' = Some a \<and> freeHead l' = unlink_head (nNext l) (nPrev l) a (freeHead l) \<and>
      nNext l' = nx(a := allocatedHead l) \<and>
      nPrev l' = (case allocatedHead l of None \<Rightarrow> pv | Some f \<Rightarrow> pv(f := Some a))"
    using a Ls(1) nxa unfolding nx_def pv_def
    by (cases "nPrev l a")
      (simp_all add: createAt_def grow Let_def unlink_next_def unlink_head_def unlink_prev_def
        split: option.split)
  then obtain l' where er: "createAt l a = Inr (Some a, l')"
    and fields: "NodesPerPage l' = NodesPerPage l" "BlockInit l' = BlockInit l" "nData l' = nData l"
      "pages l' = pages l" "nIndex l' = nIndex l" "nAllocated l' = (nAllocated l)(a := True)"
      "allocatedHead l' = Some a" "freeHead l' = unlink_head (nNext l) (nPrev l) a (freeHead l)"
      "nNext l' = nx(a := allocatedHead l)"
    and pv: "nPrev l' = (case allocatedHead l of None \<Rightarrow> pv | Some f \<Rightarrow> pv(f := Some a))"
    by blast
  note nx_def [simp] pv_def [simp]
  have "chain (nNext l') (allocatedHead l) as None"
  proof -
    have "nNext l' c = nNext l c" if "c \<in> set as" for c
      using that a Ls(6) U(4) [of c] by (auto simp: fields)
    then have "chain (nNext l') (allocatedHead l) as None = chain (nNext l) (allocatedHead l) as None"
      by (rule chain_cong)
    with Ls(3) show ?thesis by simp
  qed
  moreover have "chain (nNext l') (freeHead l') (xs @ ys) None"
    using U(1) a by (simp add: fields)
  ultimately have "lists_ok l' (xs @ ys) (a # as)"
    using Ls(1,4-7) Ls(8,9) a by (auto simp: lists_ok_def fields cap_def)
  moreover have "backed (nPrev l') None (xs @ ys)"
    using U(2) ah Ls(6) pv by (cases as) auto
  moreover have "nPrev l' a = nPrev l a"
    using U(5) [of a] ah a pv by (cases as) auto
  ultimately show ?thesis using that er fields by blast
qed

lemma grow_to_lists:
  assumes "lists_ok l fs as"
  shows "\<exists>ns. lists_ok (grow_to i l) (ns @ fs) as \<and>
     (backed (nPrev l) None as \<longrightarrow> backed (nPrev (grow_to i l)) None as) \<and>
     (backed (nPrev l) None fs \<longrightarrow> backed (nPrev (grow_to i l)) None (ns @ fs))"
  using assms
proof (induction i l arbitrary: fs rule: grow_to.induct)
  case (1 i l)
  show ?case
  proof (cases "pages l \<le> i")
    case True
    define ms where "ms = [cap l..<cap l + NodesPerPage l]"
    note P = lists_ok_page [OF "1.prems" ms_def]
    obtain ns where "lists_ok (grow_to i (add_free_page l)) (ns @ ms @ fs) as"
      "backed (nPrev (add_free_page l)) None as \<longrightarrow> backed (nPrev (grow_to i (add_free_page l))) None as"
      "backed (nPrev (add_free_page l)) None (ms @ fs) \<longrightarrow>
         backed (nPrev (grow_to i (add_free_page l))) None (ns @ ms @ fs)"
      using "1.IH" [OF True P(1)] by blast
    with P(2,3) True show ?thesis
      by (subst (1 2 3) grow_to.simps) (auto intro!: exI [of _ "ns @ ms"])
  next
    case False
    with "1.prems" show ?thesis by (subst (1 2 3) grow_to.simps) (auto intro!: exI [of _ "[]"])
  qed
qed

lemma createAt_grow:
  assumes "0 < NodesPerPage l"
  shows "createAt l i = createAt (grow_to (i div NodesPerPage l) l) i"
proof -
  let ?l = "grow_to (i div NodesPerPage l) l"
  have "grow_to (i div NodesPerPage ?l) ?l = ?l"
    using assms by (intro grow_to_same) (simp add: pages_grow_to)
  then show ?thesis using assms by (simp add: createAt_def)
qed

lemma walk_chain: "chain nx p as None \<Longrightarrow> walk nx p = Some as"
proof (induction as arbitrary: p)
  case Nil
  then show ?case by (simp add: walk.simps)
next
  case (Cons a as)
  then show ?case by (subst walk.simps) simp
qed

lemma iterate_lists_ok:
  "lists_ok l fs as \<Longrightarrow> iterate l = Some (map (\<lambda>a. (a mod 2 ^ 32, nData l a)) as)"
proof -
  assume L: "lists_ok l fs as"
  have "walk (nNext l) (allocatedHead l) = Some as" using lists_okD(3) [OF L] by (rule walk_chain)
  moreover have "nIndex l a = a mod 2 ^ 32" if "a \<in> set as" for a
    using lists_okD(9) [OF L lists_okD(11) [OF L that]] .
  ultimately show ?thesis by (simp add: iterate_def)
qed

section \<open>Sequences of operations\<close>

datatype plist_op = OpCreate | OpCreateAt nat | OpErase nat

text \<open>One operation and the address it hands out, if any.\<close>

fun plist_step :: "'d plist \<Rightarrow> plist_op \<Rightarrow> (ptr \<times> 'd plist) res" where
  "plist_step l OpCreate = bindR (create l) (\<lambda>(i, a, l'). Inr (Some a, l'))"
| "plist_step l (OpCreateAt i) = createAt l i"
| "plist_step l (OpErase i) = bindR (erase l i) (\<lambda>l'. Inr (None, l'))"

fun plist_run :: "'d plist \<Rightarrow> plist_op list \<Rightarrow> (ptr list \<times> 'd plist) res" where
  "plist_run l [] = Inr ([], l)"
| "plist_run l (x # xs) =
     bindR (plist_step l x) (\<lambda>(p, l'). bindR (plist_run l' xs) (\<lambda>(ps, l''). Inr (p # ps, l'')))"

text \<open>
  The pool the list implements when slots are only created at the free head: a stack of free
  slots and the slots in use, latest first, with a page of \<open>n\<close> new slots when the stack is empty.
\<close>

fun pool_step :: "nat \<Rightarrow> nat list \<times> nat list \<Rightarrow> plist_op \<Rightarrow> ptr \<times> nat list \<times> nat list" where
  "pool_step n (fs, as) OpCreate =
     (let fs1 = (if fs = [] then [length as..<length as + n] else fs)
      in (Some (hd fs1), tl fs1, hd fs1 # as))"
| "pool_step n (fs, as) (OpCreateAt i) = (None, fs, as)"
| "pool_step n (fs, as) (OpErase i) =
     (None, if i \<in> set as then (i # fs, remove1 i as) else (fs, as))"

fun pool_run :: "nat \<Rightarrow> nat list \<times> nat list \<Rightarrow> plist_op list \<Rightarrow> ptr list \<times> nat list \<times> nat list" where
  "pool_run n s [] = ([], s)"
| "pool_run n s (x # xs) =
     (case pool_step n s x of (p, s') \<Rightarrow> case pool_run n s' xs of (ps, s'') \<Rightarrow> (p # ps, s''))"

fun is_CreateAt :: "plist_op \<Rightarrow> bool" where
  "is_CreateAt (OpCreateAt i) = True"
| "is_CreateAt _ = False"

fun is_Erase :: "plist_op \<Rightarrow> bool" where
  "is_Erase (OpErase i) = True"
| "is_Erase _ = False"

text \<open>The representation invariant of the pool: the allocated list is linked both ways.\<close>

definition pool_rep :: "'d plist \<Rightarrow> nat list \<times> nat list \<Rightarrow> bool" where
  "pool_rep l s = (case s of (fs, as) \<Rightarrow> lists_ok l fs as \<and> backed (nPrev l) None as)"

lemma cap_lists_ok: "lists_ok l fs as \<Longrightarrow> cap l = length fs + length as"
proof -
  assume "lists_ok l fs as"
  then have "distinct (fs @ as)" "set (fs @ as) = {..<cap l}" by (simp_all add: lists_ok_def)
  then have "length (fs @ as) = card {..<cap l}" by (metis distinct_card)
  then show ?thesis by simp
qed

lemma create_pool:
  assumes R: "pool_rep l (fs, as)"
  obtains n l' where "create l = Inr (n mod 2 ^ 32, n, l')"
    "pool_step (NodesPerPage l) (fs, as) OpCreate = (Some n, tl (if fs = [] then
       [length as..<length as + NodesPerPage l] else fs), n # as)"
    "pool_rep l' (snd (pool_step (NodesPerPage l) (fs, as) OpCreate))"
    "NodesPerPage l' = NodesPerPage l" "n \<notin> live l" "live l' = insert n (live l)"
    "\<And>a. a \<in> live l \<Longrightarrow> nData l' a = nData l a"
proof -
  have L: "lists_ok l fs as" and b: "backed (nPrev l) None as" using R by (simp_all add: pool_rep_def)
  note n0 = lists_okD(1) [OF L]
  show ?thesis
  proof (cases fs)
    case Nil
    define ms where "ms = [cap l..<cap l + NodesPerPage l]"
    have ms: "ms = cap l # [Suc (cap l)..<cap l + NodesPerPage l]" "cap l = length as"
      using n0 Nil cap_lists_ok [OF L] by (simp_all add: ms_def upt_conv_Cons)
    have "freeHead l = None" using Nil lists_okD(2) [OF L] by simp
    then have c: "create l = create (add_free_page l)" using n0 create_extends by blast
    note P = lists_ok_page [OF L ms_def]
    have g: "grown l (add_free_page l)" using n0 by (rule grown_add_free_page)
    from P(1) Nil ms have "lists_ok (add_free_page l) (cap l # [Suc (cap l)..<cap l + NodesPerPage l]) as"
      by simp
    then obtain l' where l': "create (add_free_page l) = Inr (cap l mod 2 ^ 32, cap l, l')"
      "lists_ok l' [Suc (cap l)..<cap l + NodesPerPage l] (cap l # as)"
      "NodesPerPage l' = NodesPerPage (add_free_page l)" "nData l' = nData (add_free_page l)"
      "backed (nPrev (add_free_page l)) None as \<Longrightarrow> backed (nPrev l') None (cap l # as)"
      by (rule create_pops) blast
    have "cap l \<notin> live l" by (simp add: live_def)
    moreover have "hd [length as..<length as + NodesPerPage l] = length as" using n0 by simp
    ultimately show ?thesis
      using l' P(2) [OF b] c ms Nil lists_ok_live [OF L] lists_ok_live [OF l'(2)] grownD(1) [OF g] grownD(4) [OF g live_less]
      by (intro that [of "cap l" l']) (auto simp: pool_rep_def Let_def)
  next
    case (Cons n gs)
    with L have "lists_ok l (n # gs) as" by simp
    then obtain l' where l': "create l = Inr (n mod 2 ^ 32, n, l')" "lists_ok l' gs (n # as)"
      "NodesPerPage l' = NodesPerPage l" "nData l' = nData l"
      "backed (nPrev l) None as \<Longrightarrow> backed (nPrev l') None (n # as)"
      by (rule create_pops) blast
    have "n \<notin> live l" using lists_okD(6) [OF L] lists_ok_live [OF L] Cons by auto
    with l' b Cons show ?thesis
      using lists_ok_live [OF L] lists_ok_live [OF l'(2)]
      by (intro that [of n l']) (auto simp: pool_rep_def Let_def)
  qed
qed

lemma erase_pool:
  assumes R: "pool_rep l (fs, as)"
  obtains l' where "erase l i = Inr l'"
    "pool_rep l' (snd (pool_step (NodesPerPage l) (fs, as) (OpErase i)))"
    "NodesPerPage l' = NodesPerPage l" "nData l' = nData l"
proof -
  have L: "lists_ok l fs as" and b: "backed (nPrev l) None as" using R by (simp_all add: pool_rep_def)
  show ?thesis
  proof (cases "i \<in> set as")
    case True
    then obtain xs ys where as: "as = xs @ i # ys" "i \<notin> set xs" by (metis split_list_first)
    then have rm: "remove1 i as = xs @ ys" by (simp add: remove1_append)
    from L b as obtain l' where "erase l i = Inr l'" "lists_ok l' (i # fs) (xs @ ys)"
      "NodesPerPage l' = NodesPerPage l" "nData l' = nData l" "backed (nPrev l') None (xs @ ys)"
      using erase_unlinks [of l fs xs i ys] by blast
    with True rm show ?thesis by (intro that [of l']) (auto simp: pool_rep_def)
  next
    case False
    then have "erase l i = Inr l"
      using lists_okD(1) [OF L] lists_ok_live [OF L] by (simp add: erase_dead)
    with False R show ?thesis by (intro that [of l]) auto
  qed
qed

lemma plist_run_pool:
  assumes "pool_rep l s" and "n = NodesPerPage l" and "list_all (\<lambda>x. \<not> is_CreateAt x) xs"
  shows "\<exists>l'. plist_run l xs = Inr (fst (pool_run n s xs), l') \<and> pool_rep l' (snd (pool_run n s xs))"
  using assms
proof (induction xs arbitrary: l s)
  case Nil
  then show ?case by simp
next
  case (Cons x xs)
  obtain fs as where s: "s = (fs, as)" by fastforce
  have "\<exists>l'. plist_step l x = Inr (fst (pool_step n s x), l') \<and> pool_rep l' (snd (pool_step n s x)) \<and>
      NodesPerPage l' = n"
  proof (cases x)
    case OpCreate
    with Cons.prems s show ?thesis by (auto elim!: create_pool)
  next
    case (OpCreateAt i)
    with Cons.prems show ?thesis by simp
  next
    case (OpErase i)
    with Cons.prems s show ?thesis by (auto elim!: erase_pool [of _ _ _ i])
  qed
  then obtain l1 where l1: "plist_step l x = Inr (fst (pool_step n s x), l1)"
    "pool_rep l1 (snd (pool_step n s x))" "NodesPerPage l1 = n" by blast
  with Cons.IH [of l1 "snd (pool_step n s x)"] Cons.prems show ?case
    by (auto split: prod.split)
qed

text \<open>Without \<open>Erase\<close> it is the free list that stays linked both ways.\<close>

definition fresh_rep :: "'d plist \<Rightarrow> nat list \<Rightarrow> bool" where
  "fresh_rep l as \<longleftrightarrow> (\<exists>fs. lists_ok l fs as \<and> backed (nPrev l) None fs)"

lemma create_fresh:
  assumes "fresh_rep l as"
  shows "\<exists>n l'. create l = Inr (n mod 2 ^ 32, n, l') \<and> fresh_rep l' (n # as)"
proof -
  obtain fs where L: "lists_ok l fs as" and b: "backed (nPrev l) None fs"
    using assms by (auto simp: fresh_rep_def)
  show ?thesis
  proof (cases fs)
    case Nil
    define ms where "ms = [cap l..<cap l + NodesPerPage l]"
    note P = lists_ok_page [OF L ms_def]
    have n0: "0 < NodesPerPage l" by (rule lists_okD(1) [OF L])
    then obtain n gs where ms: "ms = n # gs" by (cases ms) (auto simp: ms_def)
    have c: "create l = create (add_free_page l)"
      using n0 Nil lists_okD(2) [OF L] by (intro create_extends) simp_all
    from P(1) Nil ms have "lists_ok (add_free_page l) (n # gs) as" by simp
    then obtain l' where "create (add_free_page l) = Inr (n mod 2 ^ 32, n, l')"
      "lists_ok l' gs (n # as)"
      "backed (nPrev (add_free_page l)) None (n # gs) \<Longrightarrow> backed (nPrev l') None gs"
      by (rule create_pops) blast
    with P(3) [OF b] Nil ms c show ?thesis by (auto simp: fresh_rep_def)
  next
    case (Cons n gs)
    with L have "lists_ok l (n # gs) as" by simp
    then obtain l' where "create l = Inr (n mod 2 ^ 32, n, l')" "lists_ok l' gs (n # as)"
      "backed (nPrev l) None (n # gs) \<Longrightarrow> backed (nPrev l') None gs"
      by (rule create_pops) blast
    with b Cons show ?thesis by (auto simp: fresh_rep_def)
  qed
qed

lemma createAt_fresh:
  assumes "fresh_rep l as"
  shows "\<exists>l'. createAt l i = Inr (if i \<in> set as then None else Some i, l') \<and>
           fresh_rep l' (if i \<in> set as then as else i # as)"
proof -
  obtain fs where L: "lists_ok l fs as" and b: "backed (nPrev l) None fs"
    using assms by (auto simp: fresh_rep_def)
  have n0: "0 < NodesPerPage l" by (rule lists_okD(1) [OF L])
  show ?thesis
  proof (cases "i \<in> set as")
    case True
    with assms n0 lists_ok_live [OF L] show ?thesis by (simp add: createAt_live)
  next
    case False
    let ?l = "grow_to (i div NodesPerPage l) l"
    obtain gs where G: "lists_ok ?l gs as" "backed (nPrev ?l) None gs"
      using grow_to_lists [OF L, of "i div NodesPerPage l"] b by blast
    have "i \<in> set gs"
      using lists_okD(7) [OF G(1)] cap_grow_to [OF n0, of i] False by auto
    then obtain xs ys where gs: "gs = xs @ i # ys" by (metis split_list)
    obtain l' where "createAt ?l i = Inr (Some i, l')" "lists_ok l' (xs @ ys) (i # as)"
      "backed (nPrev l') None (xs @ ys)"
      using createAt_unlinks [OF G [unfolded gs]] by blast
    with False createAt_grow [OF n0, of i] show ?thesis by (auto simp: fresh_rep_def)
  qed
qed

definition handed :: "ptr list \<Rightarrow> nat list" where
  "handed ps = map the (filter (\<lambda>p. p \<noteq> None) ps)"

lemma plist_run_fresh:
  assumes "fresh_rep l as" and "list_all (\<lambda>x. \<not> is_Erase x) xs"
  shows "\<exists>ps l'. plist_run l xs = Inr (ps, l') \<and> fresh_rep l' (rev (handed ps) @ as)"
  using assms
proof (induction xs arbitrary: l as)
  case Nil
  then show ?case by (simp add: handed_def)
next
  case (Cons x xs)
  obtain p l1 where l1: "plist_step l x = Inr (p, l1)" "fresh_rep l1 (rev (handed [p]) @ as)"
  proof (cases x)
    case OpCreate
    with create_fresh [OF Cons.prems(1)] that show ?thesis by (fastforce simp: handed_def)
  next
    case (OpCreateAt i)
    with createAt_fresh [OF Cons.prems(1), of i] that show ?thesis
      by (fastforce simp: handed_def split: if_splits)
  next
    case (OpErase i)
    with Cons.prems show ?thesis by simp
  qed
  from Cons.IH [OF l1(2)] Cons.prems obtain ps l2 where
    "plist_run l1 xs = Inr (ps, l2)" "fresh_rep l2 (rev (handed ps) @ rev (handed [p]) @ as)"
    by auto
  with l1(1) show ?case by (auto simp: handed_def)
qed

section \<open>Pointers stay inside the pages\<close>

definition in_pages :: "'d plist \<Rightarrow> ptr \<Rightarrow> bool" where
  "in_pages l p = (case p of None \<Rightarrow> True | Some a \<Rightarrow> a < cap l)"

definition links_ok :: "'d plist \<Rightarrow> bool" where
  "links_ok l \<longleftrightarrow>
     0 < NodesPerPage l \<and> in_pages l (freeHead l) \<and> in_pages l (allocatedHead l) \<and>
     (\<forall>a<cap l. in_pages l (nNext l a) \<and> in_pages l (nPrev l a))"

lemma in_pages_simps [simp]: "in_pages l None" "in_pages l (Some a) \<longleftrightarrow> a < cap l"
  by (simp_all add: in_pages_def)

lemma in_pages_cong: "cap l' = cap l \<Longrightarrow> in_pages l' p = in_pages l p"
  by (simp add: in_pages_def split: option.split)

lemma links_ok_new:
  "NodeMetadataSize + ds \<le> ps \<Longrightarrow> links_ok (new_plist ps ds ini raw)"
  by (simp add: links_ok_def new_plist_def cap_def div_greater_zero_iff NodeMetadataSize_def)

lemma links_ok_add_free_page:
  assumes "links_ok l"
  shows "links_ok (add_free_page l)"
proof -
  have n: "0 < NodesPerPage l" using assms by (simp add: links_ok_def)
  let ?l = "add_free_page l"
  have cl: "cap ?l = cap l + NodesPerPage l"
    using n grownD(1) [OF grown_add_free_page [OF n]] by (simp add: cap_def)
  have up: "in_pages l p \<Longrightarrow> in_pages ?l p" for p
    by (cases p) (auto simp: cl)
  have "in_pages ?l (nNext ?l a)" "in_pages ?l (nPrev ?l a)" if a: "a < cap ?l" for a
  proof -
    have old: "in_pages ?l (nNext l a)" "in_pages ?l (nPrev l a)" if "a < cap l"
      using assms that up by (auto simp: links_ok_def)
    have new: "in_pages ?l (freeHead l)" using assms up by (simp add: links_ok_def)
    show "in_pages ?l (nNext ?l a)"
      using old new a n by (auto simp: add_free_page_fields(1) cl)
    show "in_pages ?l (nPrev ?l a)"
      using old a n by (auto simp: add_free_page_fields(2) cl)
  qed
  moreover have "freeHead ?l = Some (cap l)" "allocatedHead ?l = allocatedHead l"
    using n by (simp_all add: add_free_page_fields)
  ultimately show ?thesis
    using assms n up cl grownD(1) [OF grown_add_free_page [OF n]] by (simp add: links_ok_def)
qed

lemma links_okD:
  assumes "links_ok l"
  shows "0 < NodesPerPage l" "in_pages l (freeHead l)" "in_pages l (allocatedHead l)"
    "a < cap l \<Longrightarrow> in_pages l (nNext l a)" "a < cap l \<Longrightarrow> in_pages l (nPrev l a)"
  using assms by (simp_all add: links_ok_def)

text \<open>Links of the same pages, each copied from a link of \<open>l\<close> or set to a node of \<open>l\<close>.\<close>

lemma links_ok_copy:
  assumes ok: "links_ok l" and c: "cap l' = cap l" "NodesPerPage l' = NodesPerPage l"
    and h: "in_pages l (freeHead l')" "in_pages l (allocatedHead l')"
    and n: "\<And>a. a < cap l \<Longrightarrow> in_pages l (nNext l' a)"
    and p: "\<And>a. a < cap l \<Longrightarrow> in_pages l (nPrev l' a)"
  shows "links_ok l'"
  using assms in_pages_cong [OF c(1)] by (simp add: links_ok_def)

lemma links_ok_grow_to: "links_ok l \<Longrightarrow> links_ok (grow_to i l)"
proof (induction i l rule: grow_to.induct)
  case (1 i l)
  then show ?case
    by (subst grow_to.simps) (auto intro: links_ok_add_free_page)
qed

lemma create_links:
  assumes ok: "links_ok l"
  shows "\<exists>i n l'. create l = Inr (i, n, l') \<and> n < cap l' \<and> links_ok l'"
proof -
  have pop: "\<exists>i n l'. create l = Inr (i, n, l') \<and> n < cap l' \<and> links_ok l'"
    if ok: "links_ok l" and n: "freeHead l = Some n" for l :: "'a plist" and n
  proof -
    note K = links_okD [OF ok]
    have nc: "n < cap l" using K(2) n by simp
    have "\<exists>i l'. create l = Inr (i, n, l') \<and> NodesPerPage l' = NodesPerPage l \<and> pages l' = pages l \<and>
        freeHead l' = nNext l n \<and> allocatedHead l' = Some n \<and>
        nNext l' = (nNext l)(n := allocatedHead l) \<and>
        (\<forall>a. nPrev l' a \<in> {Some n, None, nPrev l a})"
      using n unfolding create_def Let_def by (simp split: option.split)
    then obtain i l' where l': "create l = Inr (i, n, l')" "NodesPerPage l' = NodesPerPage l"
      "pages l' = pages l" "freeHead l' = nNext l n" "allocatedHead l' = Some n"
      "nNext l' = (nNext l)(n := allocatedHead l)" "\<And>a. nPrev l' a \<in> {Some n, None, nPrev l a}"
      by blast
    have "links_ok l'"
    proof (rule links_ok_copy [OF ok])
      show "in_pages l (nPrev l' a)" if "a < cap l" for a
        using l'(7) [of a] K(5) [OF that] nc by auto
    qed (use l' K nc in \<open>auto simp: cap_def\<close>)
    with l' nc show ?thesis by (auto simp: cap_def)
  qed
  show ?thesis
  proof (cases "freeHead l")
    case None
    have n: "0 < NodesPerPage l" by (rule links_okD(1) [OF ok])
    have "create l = create (add_free_page l)" using n None by (rule create_extends)
    with pop [OF links_ok_add_free_page [OF ok] add_free_page_fields(3) [OF n]] show ?thesis by simp
  next
    case (Some n)
    with ok pop show ?thesis by blast
  qed
qed

lemma createAt_links:
  assumes ok: "links_ok l"
  shows "\<exists>p l'. createAt l i = Inr (p, l') \<and> p \<in> {None, Some i} \<and> i < cap l' \<and> links_ok l'"
proof -
  have n: "0 < NodesPerPage l" by (rule links_okD(1) [OF ok])
  define l1 where "l1 = grow_to (i div NodesPerPage l) l"
  have ok1: "links_ok l1" using ok by (simp add: l1_def links_ok_grow_to)
  note K = links_okD [OF ok1]
  have i: "i < cap l1" using cap_grow_to [OF n] by (simp add: l1_def)
  show ?thesis
  proof (cases "nAllocated l1 i")
    case True
    with n ok1 i show ?thesis by (simp add: createAt_def Let_def flip: l1_def)
  next
    case False
    then have "\<exists>l'. createAt l i = Inr (Some i, l') \<and> NodesPerPage l' = NodesPerPage l1 \<and>
        pages l' = pages l1 \<and> freeHead l' \<in> {freeHead l1, nNext l1 i} \<and> allocatedHead l' = Some i \<and>
        (\<forall>a. nNext l' a \<in> {allocatedHead l1, nNext l1 i, nNext l1 a}) \<and>
        (\<forall>a. nPrev l' a \<in> {Some i, nPrev l1 i, nPrev l1 a})"
      using n unfolding createAt_def Let_def l1_def [symmetric]
      by (cases "nPrev l1 i") (simp_all split: option.split)
    then obtain l' where l': "createAt l i = Inr (Some i, l')" "NodesPerPage l' = NodesPerPage l1"
      "pages l' = pages l1" "freeHead l' \<in> {freeHead l1, nNext l1 i}" "allocatedHead l' = Some i"
      "\<And>a. nNext l' a \<in> {allocatedHead l1, nNext l1 i, nNext l1 a}"
      "\<And>a. nPrev l' a \<in> {Some i, nPrev l1 i, nPrev l1 a}" by blast
    have "links_ok l'"
    proof (rule links_ok_copy [OF ok1])
      show "in_pages l1 (nPrev l' a)" if "a < cap l1" for a
        using l'(7) [of a] K(5) [OF that] K(5) [OF i] i by auto
      show "in_pages l1 (nNext l' a)" if "a < cap l1" for a
        using l'(6) [of a] K(4) [OF that] K(4) [OF i] K(3) by auto
      show "in_pages l1 (freeHead l')" using l'(4) K(2) K(4) [OF i] by auto
    qed (use l' i in \<open>auto simp: cap_def\<close>)
    with l' i show ?thesis by (auto simp: cap_def)
  qed
qed

lemma erase_links:
  assumes ok: "links_ok l"
  shows "\<exists>l'. erase l i = Inr l' \<and> links_ok l'"
proof (cases "i \<in> live l")
  case False
  with links_okD(1) [OF ok] ok show ?thesis by (simp add: erase_dead)
next
  case True
  note K = links_okD [OF ok]
  have i: "i < cap l" "nAllocated l i" using True by (auto simp: live_def)
  have "\<exists>l'. erase l i = Inr l' \<and> NodesPerPage l' = NodesPerPage l \<and> pages l' = pages l \<and>
      allocatedHead l' \<in> {allocatedHead l, nNext l i} \<and> freeHead l' = Some i \<and>
      (\<forall>a. nNext l' a \<in> {freeHead l, nNext l i, nNext l a}) \<and>
      (\<forall>a. nPrev l' a \<in> {Some i, nPrev l i, nPrev l a})"
    using i K(1) unfolding erase_def Let_def
    by (cases "nPrev l i") (simp_all add: pages_le_iff split: option.split)
  then obtain l' where l': "erase l i = Inr l'" "NodesPerPage l' = NodesPerPage l"
    "pages l' = pages l" "allocatedHead l' \<in> {allocatedHead l, nNext l i}" "freeHead l' = Some i"
    "\<And>a. nNext l' a \<in> {freeHead l, nNext l i, nNext l a}"
    "\<And>a. nPrev l' a \<in> {Some i, nPrev l i, nPrev l a}" by blast
  have "links_ok l'"
  proof (rule links_ok_copy [OF ok])
    show "in_pages l (nPrev l' a)" if "a < cap l" for a
      using l'(7) [of a] K(5) [OF that] K(5) [OF i(1)] i by auto
    show "in_pages l (nNext l' a)" if "a < cap l" for a
      using l'(6) [of a] K(4) [OF that] K(4) [OF i(1)] K(2) by auto
    show "in_pages l (allocatedHead l')" using l'(4) K(3) K(4) [OF i(1)] by auto
  qed (use l' i in \<open>auto simp: cap_def\<close>)
  with l' show ?thesis by blast
qed

lemma plist_run_links:
  assumes "links_ok l"
  shows "\<exists>ps l'. plist_run l xs = Inr (ps, l') \<and> links_ok l'"
  using assms
proof (induction xs arbitrary: l)
  case Nil
  then show ?case by simp
next
  case (Cons x xs)
  obtain p l1 where "plist_step l x = Inr (p, l1)" "links_ok l1"
  proof (cases x)
    case OpCreate
    with create_links [OF Cons.prems] that show ?thesis by fastforce
  next
    case (OpCreateAt i)
    with createAt_links [OF Cons.prems, of i] that show ?thesis by fastforce
  next
    case (OpErase i)
    with erase_links [OF Cons.prems, of i] that show ?thesis by fastforce
  qed
  with Cons.IH [of l1] show ?case by auto
qed

text \<open>Memory of zeroes, for concrete runs.\<close>

definition zero_memory :: "'d \<Rightarrow> 'd plist" where
  "zero_memory d = \<lparr>NodesPerPage = 0, BlockInit = (\<lambda>i d. d), pages = 0, nIndex = (\<lambda>a. 0),
     nAllocated = (\<lambda>a. False), nNext = (\<lambda>a. None), nPrev = (\<lambda>a. None), nData = (\<lambda>a. d),
     freeHead = None, allocatedHead = None\<rparr>"

text \<open>The first \<open>Create\<close> on a new list, with every field of the outcome.\<close>

lemma cap_new_plist [simp]: "cap (new_plist ps ds ini raw) = 0"
  by (simp add: cap_def new_plist_def)

lemma new_plist_fields [simp]:
  "NodesPerPage (new_plist ps ds ini raw) = ps div (NodeMetadataSize + ds)"
  "BlockInit (new_plist ps ds ini raw) = ini"
  "pages (new_plist ps ds ini raw) = 0"
  "freeHead (new_plist ps ds ini raw) = None"
  "allocatedHead (new_plist ps ds ini raw) = None"
  "nData (new_plist ps ds ini raw) = nData raw"
  by (simp_all add: new_plist_def)

lemma live_new_plist [simp]: "live (new_plist ps ds ini raw) = {}"
  by (simp add: live_def)

lemma content_new_plist [simp]: "content (new_plist ps ds ini raw) = Map.empty"
  by (simp add: content_def fun_eq_iff)

lemma nData_zero_memory [simp]: "nData (zero_memory d) = (\<lambda>a. d)"
  by (simp add: zero_memory_def)

section \<open>Properties\<close>

text \<open>
  C1.  A list used through \<open>Create\<close>, \<open>Erase\<close> and \<open>Get\<close> only (as \<open>SparseArray\<close> does) is the stack
  pool: from the constructor on, every sequence of these operations runs without a fault, hands
  out the slots the pool hands out, keeps exactly the pool's slots in use, and iterates over
  them, latest first.
\<close>

theorem create_erase_refines_pool:
  assumes "NodeMetadataSize + ds \<le> ps" and "n = ps div (NodeMetadataSize + ds)"
    and "list_all (\<lambda>x. \<not> is_CreateAt x) xs"
    and "pool_run n ([], []) xs = (outs, fs, as)"
  shows "\<exists>l'. plist_run (new_plist ps ds ini raw) xs = Inr (outs, l') \<and> live l' = set as \<and>
    distinct as \<and> iterate l' = Some (map (\<lambda>a. (a mod 2 ^ 32, nData l' a)) as)"
proof -
  have "pool_rep (new_plist ps ds ini raw) ([], [])"
    using lists_ok_new [OF assms(1)] by (simp add: pool_rep_def)
  from plist_run_pool [OF this _ assms(3), of n] assms(2,4)
  obtain l' where l': "plist_run (new_plist ps ds ini raw) xs = Inr (outs, l')" "lists_ok l' fs as"
    by (auto simp: pool_rep_def)
  then show ?thesis
    using lists_ok_live iterate_lists_ok lists_okD(5) by blast
qed

theorem create_erase_refines_pool_witness:
  "\<exists>l'. plist_run (new_plist 100 4 (\<lambda>i d. d) (zero_memory (7::nat)))
     [OpCreate, OpCreate, OpErase 0, OpCreate, OpCreate] =
       Inr ([Some 0, Some 1, None, Some 0, Some 2], l') \<and> live l' = {0, 1, 2} \<and>
     distinct [2, 0, 1::nat] \<and>
     iterate l' = Some (map (\<lambda>a. (a mod 2 ^ 32, nData l' a)) [2, 0, 1])"
  using create_erase_refines_pool [of 4 100 4 "[OpCreate, OpCreate, OpErase 0, OpCreate, OpCreate]"
      "[Some 0, Some 1, None, Some 0, Some 2]" "[3]" "[2, 0, 1]" "\<lambda>i d. d" "zero_memory (7::nat)"]
  by (simp add: NodeMetadataSize_def insert_commute upt_rec)

text \<open>
   A list that is only grown, through \<open>Create\<close> and \<open>CreateAt\<close> in any order, hands out every
  slot once: the slots handed out are distinct, they are exactly the slots in use, and the
  iteration visits them, latest first.
\<close>

theorem create_createAt_hands_out_once:
  assumes "NodeMetadataSize + ds \<le> ps" and "list_all (\<lambda>x. \<not> is_Erase x) xs"
  shows "\<exists>outs l'. plist_run (new_plist ps ds ini raw) xs = Inr (outs, l') \<and>
    distinct (handed outs) \<and> live l' = set (handed outs) \<and>
    iterate l' = Some (map (\<lambda>a. (a mod 2 ^ 32, nData l' a)) (rev (handed outs)))"
proof -
  have "fresh_rep (new_plist ps ds ini raw) []"
    using lists_ok_new [OF assms(1)] by (auto simp: fresh_rep_def intro!: exI [of _ "[]"])
  from plist_run_fresh [OF this assms(2)] obtain outs l' fs where
    l': "plist_run (new_plist ps ds ini raw) xs = Inr (outs, l')" "lists_ok l' fs (rev (handed outs))"
    by (auto simp: fresh_rep_def)
  then show ?thesis
    using lists_ok_live [OF l'(2)] iterate_lists_ok [OF l'(2)] lists_okD(5) [OF l'(2)] by auto
qed

theorem create_createAt_hands_out_once_witness:
  "\<exists>outs l'. plist_run (new_plist 100 4 (\<lambda>i d. d) (zero_memory (7::nat)))
      [OpCreateAt 2, OpCreate, OpCreateAt 2] = Inr (outs, l') \<and>
    distinct (handed outs) \<and> live l' = set (handed outs) \<and>
    iterate l' = Some (map (\<lambda>a. (a mod 2 ^ 32, nData l' a)) (rev (handed outs)))"
  by (rule create_createAt_hands_out_once) (simp_all add: NodeMetadataSize_def)

text \<open>
  The three operations together do not keep the lists apart.  \<open>Erase\<close> leaves the \<open>Prev\<close> link
  of the slot it frees; \<open>CreateAt\<close> takes that slot out of the free list through the stale link,
  so \<open>freeHead_\<close> stays on it.  From every state of the pool, erasing a slot that is not the
  latest one, re-creating it with \<open>CreateAt\<close> and calling \<open>Create\<close> hands it out a second time while
  it is in use.
\<close>

theorem recreated_slot_is_handed_out_again:
  assumes "pool_rep l (fs, b # xs @ a # ys)"
  shows "\<exists>l1 l2 l3. erase l a = Inr l1 \<and> createAt l1 a = Inr (Some a, l2) \<and> a \<in> live l2 \<and>
    create l2 = Inr (a mod 2 ^ 32, a, l3)"
proof -
  have L: "lists_ok l fs ((b # xs) @ a # ys)" and bk: "backed (nPrev l) None ((b # xs) @ a # ys)"
    using assms by (simp_all add: pool_rep_def)
  from erase_unlinks [OF L bk] obtain l1 where l1: "erase l a = Inr l1"
    "lists_ok l1 (a # fs) ((b # xs) @ ys)" "nPrev l1 a = nPrev l a" by blast
  note K = lists_okD [OF l1(2)]
  have pv: "nPrev l1 a = Some (last (b # xs))" using bk l1(3) by (simp add: backed_append)
  have a: "a < cap l1" "\<not> nAllocated l1 a" "nIndex l1 a = a mod 2 ^ 32" "freeHead l1 = Some a"
    using K(2,6) K(8,9,10) [of a] by auto
  have "grow_to (a div NodesPerPage l1) l1 = l1"
    using pages_le_iff [OF K(1), of a] a(1) by (intro grow_to_same) linarith
  then have "\<exists>l2. createAt l1 a = Inr (Some a, l2) \<and> freeHead l2 = Some a \<and> nAllocated l2 a \<and>
      nIndex l2 a = a mod 2 ^ 32 \<and> cap l2 = cap l1"
    using a K(1) pv by (simp add: createAt_def Let_def cap_def)
  then obtain l2 where l2: "createAt l1 a = Inr (Some a, l2)" "freeHead l2 = Some a"
    "nAllocated l2 a" "nIndex l2 a = a mod 2 ^ 32" "cap l2 = cap l1" by blast
  moreover have "\<exists>l3. create l2 = Inr (a mod 2 ^ 32, a, l3)"
    using l2 by (simp add: create_def Let_def)
  moreover have "a \<in> live l2" using a l2 by (simp add: live_def)
  ultimately show ?thesis using l1(1) by blast
qed

theorem recreated_slot_is_handed_out_again_witness:
  "\<exists>(l :: nat plist) l1 l2 l3. pool_rep l ([2, 3], [1, 0]) \<and> erase l 0 = Inr l1 \<and>
     createAt l1 0 = Inr (Some 0, l2) \<and> 0 \<in> live l2 \<and> create l2 = Inr (0, 0, l3)"
proof -
  have "pool_rep (new_plist 100 4 (\<lambda>i d. d) (zero_memory (7::nat))) ([], [])"
    using lists_ok_new [of 4 100] by (simp add: pool_rep_def NodeMetadataSize_def)
  moreover have "pool_run 4 ([], []) [OpCreate, OpCreate] = ([Some 0, Some 1], [2, 3], [1, 0])"
    by (simp add: upt_rec)
  moreover have "NodesPerPage (new_plist 100 4 (\<lambda>i d. d) (zero_memory (7::nat))) = 4"
    by (simp add: NodeMetadataSize_def)
  ultimately obtain l :: "nat plist" where "pool_rep l ([2, 3], [1, 0])"
    using plist_run_pool [of _ "([], [])" 4 "[OpCreate, OpCreate]"] by fastforce
  with recreated_slot_is_handed_out_again [of l "[2, 3]" 1 "[]" 0 "[]"] show ?thesis by auto
qed

text \<open>
  The same pair of calls in the other order: a slot taken with \<open>CreateAt\<close> from the middle of
  the free list keeps its old \<open>Prev\<close> link, and erasing it leaves \<open>allocatedHead_\<close> on it, so the
  iteration starts at a slot that is not in use.
\<close>

theorem erased_slot_stays_first_in_iteration:
  assumes "lists_ok l (b # xs @ a # ys) as" and "backed (nPrev l) None (b # xs @ a # ys)"
  shows "\<exists>l1 l2. createAt l a = Inr (Some a, l1) \<and> erase l1 a = Inr l2 \<and>
    a \<notin> live l2 \<and> allocatedHead l2 = Some a"
proof -
  have L: "lists_ok l ((b # xs) @ a # ys) as" and bk: "backed (nPrev l) None ((b # xs) @ a # ys)"
    using assms by simp_all
  from createAt_unlinks [OF L bk] obtain l1 where l1: "createAt l a = Inr (Some a, l1)"
    "lists_ok l1 ((b # xs) @ ys) (a # as)" "nPrev l1 a = nPrev l a" by blast
  note K = lists_okD [OF l1(2)]
  have pv: "nPrev l1 a = Some (last (b # xs))" using bk l1(3) by (simp add: backed_append)
  have a: "a < cap l1" "nAllocated l1 a" "allocatedHead l1 = Some a"
    using K(3) K(8,11) [of a] by auto
  then have "\<exists>l2. erase l1 a = Inr l2 \<and> allocatedHead l2 = Some a \<and> \<not> nAllocated l2 a"
    using K(1) pv by (simp add: erase_def Let_def pages_le_iff)
  then show ?thesis using l1(1) by (auto simp: live_def)
qed

theorem erased_slot_stays_first_in_iteration_witness:
  "\<exists>(l :: nat plist) l1 l2. lists_ok l [0, 1, 2, 3] [] \<and> createAt l 1 = Inr (Some 1, l1) \<and>
     erase l1 1 = Inr l2 \<and> 1 \<notin> live l2 \<and> allocatedHead l2 = Some 1"
proof -
  define l0 where "l0 = new_plist 100 4 (\<lambda>i d. d) (zero_memory (7::nat))"
  have "lists_ok l0 [] []" using lists_ok_new [of 4 100] by (simp add: l0_def NodeMetadataSize_def)
  note P = lists_ok_page [OF this refl]
  have "[cap l0..<cap l0 + NodesPerPage l0] = [0, 1, 2, 3]"
    by (simp add: l0_def NodeMetadataSize_def upt_rec)
  with P(1,3) have "lists_ok (add_free_page l0) [0, 1, 2, 3] []"
    "backed (nPrev (add_free_page l0)) None [0, 1, 2, 3]" by simp_all
  with erased_slot_stays_first_in_iteration [of "add_free_page l0" 0 "[]" 1 "[2, 3]" "[]"]
  show ?thesis by auto
qed

text \<open>
  Whatever the links look like, \<open>Get\<close>, \<open>CreateAt\<close> and \<open>Erase\<close> agree on which slots are in use:
  \<open>Get\<close> finds exactly these; \<open>CreateAt\<close> refuses a slot in use, and otherwise adds that slot alone and
  keeps the data of the others, the slot holding its old data or, on a new page, what the
  initialiser gives it; \<open>Erase\<close> removes that slot alone and ignores a slot not in use.
\<close>

theorem slot_operations:
  assumes n: "0 < NodesPerPage l"
  shows "get l i = Inr (if i \<in> live l then Some i else None) \<and>
    (if i \<in> live l then createAt l i = Inr (None, l) \<and>
        (\<exists>l'. erase l i = Inr l' \<and> live l' = live l - {i} \<and> nData l' = nData l)
     else erase l i = Inr l \<and>
        (\<exists>l'. createAt l i = Inr (Some i, l') \<and> live l' = insert i (live l) \<and>
          content l' = (content l)(i \<mapsto> (if i < cap l then nData l i
                                          else BlockInit l (i mod 2 ^ 32) (nData l i)))))"
proof (cases "i \<in> live l")
  case True
  obtain l' where "erase l i = Inr l'" "live l' = live l - {i}" "nData l' = nData l"
    using erase_live [OF n True] by blast
  with True n show ?thesis by (simp add: get_eq createAt_live)
next
  case False
  obtain l' where "createAt l i = Inr (Some i, l')" "live l' = insert i (live l)"
    "\<And>a. a \<in> live l \<Longrightarrow> nData l' a = nData l a"
    "nData l' i = (if i < cap l then nData l i else BlockInit l (i mod 2 ^ 32) (nData l i))"
    using createAt_free [OF n False] by blast
  with False n show ?thesis by (auto simp: get_eq erase_dead content_def fun_eq_iff)
qed

theorem slot_operations_witness:
  "get (new_plist 100 4 (\<lambda>i d. d) (zero_memory (7::nat))) 2 = Inr None \<and>
   (\<exists>l'. createAt (new_plist 100 4 (\<lambda>i d. d) (zero_memory (7::nat))) 2 = Inr (Some 2, l') \<and>
      live l' = {2} \<and> content l' = [2 \<mapsto> 7])"
  using slot_operations [of "new_plist 100 4 (\<lambda>i d. d) (zero_memory (7::nat))" 2]
  by (auto simp: NodeMetadataSize_def)

text \<open>
  C40.  Memory safety of every sequence of the three operations, mixed or not: none of them
  dereferences null or divides by zero, and every link they store or follow stays inside the
  allocated pages.
\<close>

theorem plist_memory_safe:
  assumes "NodeMetadataSize + ds \<le> ps"
  shows "\<exists>outs l'. plist_run (new_plist ps ds ini raw) xs = Inr (outs, l') \<and> links_ok l'"
  by (rule plist_run_links) (rule links_ok_new [OF assms])

theorem plist_memory_safe_witness:
  "\<exists>outs l'. plist_run (new_plist 16384 4 (\<lambda>i d. d) (zero_memory (0::nat)))
     [OpCreate, OpCreate, OpErase 0, OpCreateAt 0, OpCreate, OpErase 1, OpCreateAt 5000] =
       Inr (outs, l') \<and> links_ok l'"
  by (rule plist_memory_safe) (simp add: NodeMetadataSize_def)

end
