(* ===== verification/Sparse_List.thy ===== *)
theory Sparse_List
  imports Interfaces Paged_List
begin

text \<open>
  \<open>SparseList<TData>\<close> of Util/MemoryPool/SparseList.h and its iteration (MakeIterableFromThis.h): the
  data lives in the slots of an \<open>IndexedUnmanagedList\<close> and never moves; a dense array of the slot
  indices in use, kept gapless by swap-and-pop, drives the iteration.  The theory first shows that
  the paged list is a \<open>slot_store\<close>, and ends with the sparse list as an \<open>index_map\<close>.
\<close>

section \<open>The paged list as a store of slots\<close>

interpretation ps: slot_store "\<lambda>l. 0 < NodesPerPage l" live nData get createAt erase
  "\<lambda>l a d. l\<lparr>nData := (nData l)(a := d)\<rparr>"
proof
  fix s :: "'d plist" and i and d :: 'd
  show "get s i = Inr (if i \<in> live s then Some i else None)" if "0 < NodesPerPage s"
    using that by (rule get_eq)
  show "createAt s i = Inr (None, s)" if "0 < NodesPerPage s" "i \<in> live s"
    using that by (rule createAt_live)
  show "\<exists>s'. createAt s i = Inr (Some i, s') \<and> 0 < NodesPerPage s' \<and>
      live s' = insert i (live s) \<and> (\<forall>a\<in>live s. nData s' a = nData s a)"
    if n: "0 < NodesPerPage s" and i: "i \<notin> live s"
    by (rule createAt_free [OF n i]) (use n in auto)
  show "\<exists>s'. erase s i = Inr s' \<and> 0 < NodesPerPage s' \<and> live s' = live s - {i} \<and>
      nData s' = nData s" if n: "0 < NodesPerPage s" and i: "i \<in> live s"
    by (rule erase_live [OF n i]) (use n in auto)
  show "erase s i = Inr s" if "0 < NodesPerPage s" "i \<notin> live s"
    using that by (rule erase_dead)
qed (simp_all add: live_def cap_def)

section \<open>State\<close>

definition NullIndex :: nat where
  "NullIndex = 2 ^ 32 - 1"

text \<open>\<open>SparseBlock\<close>: the position of the slot in the dense array, and the data.\<close>

record 'd sblock =
  DenseIndex :: nat
  SData :: 'd

text \<open>
  \<open>dense i\<close> is the dense block number \<open>i\<close>, that is block \<open>i mod DenseBlocksPerPage\<close> of dense page
  \<open>i div DenseBlocksPerPage\<close>; \<open>densePages\<close> is the number of dense pages.
\<close>

record 'd slist =
  DenseBlocksPerPage :: nat
  count :: nat
  densePages :: nat
  dense :: "nat \<Rightarrow> nat"
  sparseBlocks :: "'d sblock plist"

text \<open>
  The constructor; a \<open>SparseBlock\<close> is four bytes and the data, a \<open>DenseBlock\<close> four bytes.  \<open>sparseBlocks_\<close> is declared with
  the initializer that \<open>IndexedUnmanagedList\<close> has by default and that does nothing; the \<open>SparseBlockInitializer\<close> of the class
  is not used.
\<close>

definition new_slist ::
    "nat \<Rightarrow> nat \<Rightarrow> nat \<Rightarrow> (nat \<Rightarrow> nat) \<Rightarrow> 'd sblock plist \<Rightarrow> 'd slist" where
  "new_slist sparsePageSize dataSize densePageSize rawDense raw =
     \<lparr>DenseBlocksPerPage = densePageSize div 4, count = 0, densePages = 0, dense = rawDense,
      sparseBlocks = new_plist sparsePageSize (4 + dataSize) (\<lambda>index b. b) raw\<rparr>"

section \<open>Operations\<close>

text \<open>A dense block behind \<open>densePages_[page]\<close>: the index must be inside of the vector.\<close>

definition dense_block :: "'d slist \<Rightarrow> nat \<Rightarrow> nat res" where
  "dense_block l i =
     (if DenseBlocksPerPage l = 0 then Inl DivByZero
      else if densePages l \<le> i div DenseBlocksPerPage l then Inl OutOfBounds
      else Inr ((i div DenseBlocksPerPage l) * DenseBlocksPerPage l + i mod DenseBlocksPerPage l))"

text \<open>\<open>while (densePageIndex >= densePages_.size()) densePages_.push_back(...)\<close>\<close>

function dense_grow :: "nat \<Rightarrow> 'd slist \<Rightarrow> 'd slist" where
  "dense_grow page l =
     (if densePages l \<le> page then dense_grow page (l\<lparr>densePages := Suc (densePages l)\<rparr>) else l)"
  by pat_completeness auto
termination
  by (relation "measure (\<lambda>(page, l). Suc page - densePages l)") auto

declare dense_grow.simps [simp del]

definition write_sparse :: "nat \<Rightarrow> ('d sblock \<Rightarrow> 'd sblock) \<Rightarrow> 'd slist \<Rightarrow> 'd slist" where
  "write_sparse a f l =
     l\<lparr>sparseBlocks := (sparseBlocks l)\<lparr>nData := (nData (sparseBlocks l))
          (a := f (nData (sparseBlocks l) a))\<rparr>\<rparr>"

text \<open>\<open>EmplaceImpl\<close>; \<open>a\<close> is the address of the sparse block.\<close>

definition emplaceImpl :: "'d slist \<Rightarrow> nat \<Rightarrow> nat \<Rightarrow> 'd \<Rightarrow> 'd slist res" where
  "emplaceImpl l sparseIndex a d =
     (let denseIndex = count l;
          l1 = write_sparse a (\<lambda>b. b\<lparr>DenseIndex := denseIndex mod 2 ^ 32\<rparr>) l;
          l2 = l1\<lparr>count := (count l1 + 1) mod 2 ^ 64\<rparr>
      in if DenseBlocksPerPage l2 = 0 then Inl DivByZero else
         let l3 = dense_grow (denseIndex div DenseBlocksPerPage l2) l2
         in bindR (dense_block l3 denseIndex) (\<lambda>b.
            Inr (write_sparse a (\<lambda>s. s\<lparr>SData := d\<rparr>) (l3\<lparr>dense := (dense l3)(b := sparseIndex)\<rparr>))))"

definition emplace :: "'d slist \<Rightarrow> 'd \<Rightarrow> (nat \<times> 'd slist) res" where
  "emplace l d =
     bindR (create (sparseBlocks l)) (\<lambda>(sparseIndex, a, bs).
     bindR (emplaceImpl (l\<lparr>sparseBlocks := bs\<rparr>) sparseIndex a d) (\<lambda>l'.
     Inr (sparseIndex, l')))"

definition emplaceAt :: "'d slist \<Rightarrow> nat \<Rightarrow> 'd \<Rightarrow> 'd slist res" where
  "emplaceAt l sparseIndex d =
     bindR (createAt (sparseBlocks l) sparseIndex) (\<lambda>(p, bs).
       case p of None \<Rightarrow> Inl Aborted
       | Some a \<Rightarrow> emplaceImpl (l\<lparr>sparseBlocks := bs\<rparr>) sparseIndex a d)"

definition eraseBySparseIndex :: "'d slist \<Rightarrow> nat \<Rightarrow> 'd slist res" where
  "eraseBySparseIndex l sparseIndex =
     bindR (get (sparseBlocks l) sparseIndex) (\<lambda>p. case p of None \<Rightarrow> Inl Aborted | Some a \<Rightarrow>
       (let eraseDenseIndex = DenseIndex (nData (sparseBlocks l) a);
            l1 = write_sparse a (\<lambda>b. b\<lparr>DenseIndex := NullIndex\<rparr>) l
        in bindR (erase (sparseBlocks l1) sparseIndex) (\<lambda>bs.
           let l2 = l1\<lparr>sparseBlocks := bs, count := (count l1 + 2 ^ 64 - 1) mod 2 ^ 64\<rparr>
           in if eraseDenseIndex = count l2 then Inr l2
              else if DenseBlocksPerPage l2 = 0 then Inl DivByZero
              else if densePages l2 \<le> eraseDenseIndex div DenseBlocksPerPage l2 then Inl Aborted
              else
                bindR (dense_block l2 eraseDenseIndex) (\<lambda>eraseBlock.
                bindR (dense_block l2 (count l2)) (\<lambda>swapBlock.
                bindR (get (sparseBlocks l2) (dense l2 swapBlock)) (\<lambda>q.
                  let l3 = l2\<lparr>dense := (dense l2)(eraseBlock := dense l2 swapBlock)\<rparr>
                  in case q of None \<Rightarrow> Inl NullDeref
                     | Some c \<Rightarrow>
                         Inr (write_sparse c (\<lambda>b. b\<lparr>DenseIndex := eraseDenseIndex\<rparr>) l3)))))))"

definition slist_get :: "'d slist \<Rightarrow> nat \<Rightarrow> 'd option res" where
  "slist_get l sparseIndex =
     bindR (get (sparseBlocks l) sparseIndex) (\<lambda>p.
       Inr (case p of None \<Rightarrow> None | Some a \<Rightarrow> Some (SData (nData (sparseBlocks l) a))))"

definition pair_at :: "'d slist \<Rightarrow> nat \<Rightarrow> (nat \<times> 'd) res" where
  "pair_at l denseIndex =
     bindR (dense_block l denseIndex) (\<lambda>b.
     bindR (get (sparseBlocks l) (dense l b)) (\<lambda>p.
       case p of None \<Rightarrow> Inl NullDeref
       | Some a \<Rightarrow> Inr (dense l b, SData (nData (sparseBlocks l) a))))"

text \<open>
  A range-for over the list: from dense index 0 until the index is past the count, whatever the
  other iterator is.  \<open>shouldInvalidateIterator_\<close> is set to false and never to true.
\<close>

function iterate_from :: "'d slist \<Rightarrow> nat \<Rightarrow> (nat \<times> 'd) list res" where
  "iterate_from l denseIndex =
     (if count l \<le> denseIndex then Inr []
      else bindR (pair_at l denseIndex) (\<lambda>x.
           bindR (iterate_from l (denseIndex + 1)) (\<lambda>xs. Inr (x # xs))))"
  by pat_completeness auto
termination
  by (relation "measure (\<lambda>(l, i). count l - i)") auto

declare iterate_from.simps [simp del]

definition slist_iterate :: "'d slist \<Rightarrow> (nat \<times> 'd) list res" where
  "slist_iterate l = iterate_from l 0"

text \<open>
  The destructor: the data it runs \<open>~TData\<close> on, in this order.  The code counts with an \<open>int\<close>; a list of $2^{31}$ entries and
  more, where this would differ, needs more than 8 GB of dense pages alone and is left aside.
\<close>

function destroy_from :: "'d slist \<Rightarrow> nat \<Rightarrow> nat list res" where
  "destroy_from l denseIndex =
     (if count l \<le> denseIndex then Inr []
      else bindR (dense_block l denseIndex) (\<lambda>b.
           bindR (get (sparseBlocks l) (dense l b)) (\<lambda>p.
           case p of None \<Rightarrow> Inl NullDeref
           | Some a \<Rightarrow> bindR (destroy_from l (denseIndex + 1)) (\<lambda>as. Inr (a # as)))))"
  by pat_completeness auto
termination
  by (relation "measure (\<lambda>(l, i). count l - i)") auto

declare destroy_from.simps [simp del]

section \<open>The invariant and the abstract map\<close>

definition block_of :: "'d slist \<Rightarrow> nat \<Rightarrow> 'd sblock" where
  "block_of l a = nData (sparseBlocks l) a"

definition used :: "'d slist \<Rightarrow> nat set" where
  "used l = live (sparseBlocks l)"

definition slist_ok :: "'d slist \<Rightarrow> bool" where
  "slist_ok l \<longleftrightarrow>
     0 < NodesPerPage (sparseBlocks l) \<and> 0 < DenseBlocksPerPage l \<and> used l \<subseteq> {..<2 ^ 32} \<and>
     numbered (count l) (dense l) (\<lambda>a. DenseIndex (block_of l a)) (used l) \<and>
     count l \<le> densePages l * DenseBlocksPerPage l"

definition smap :: "'d slist \<Rightarrow> nat \<Rightarrow> 'd option" where
  "smap l i = (if i \<in> used l then Some (SData (block_of l i)) else None)"

lemma slist_okD:
  assumes "slist_ok l"
  shows "0 < NodesPerPage (sparseBlocks l)" "0 < DenseBlocksPerPage l"
    "a \<in> used l \<Longrightarrow> a < 2 ^ 32"
    "numbered (count l) (dense l) (\<lambda>a. DenseIndex (block_of l a)) (used l)"
    "count l \<le> densePages l * DenseBlocksPerPage l"
  using assms by (auto simp: slist_ok_def)

lemma used_bound: "used l \<subseteq> {..<2 ^ 32} \<Longrightarrow> card (used l) \<le> 2 ^ 32"
  using card_mono [of "{..<2 ^ 32}" "used l"] by simp

lemma slist_ok_count: "slist_ok l \<Longrightarrow> count l = card (used l) \<and> count l \<le> 2 ^ 32"
  using numbered_card slist_okD(4) used_bound unfolding slist_ok_def by metis

lemma dense_block_eq:
  assumes "0 < DenseBlocksPerPage l" and "i < densePages l * DenseBlocksPerPage l"
  shows "dense_block l i = Inr i"
proof -
  have "\<not> densePages l \<le> i div DenseBlocksPerPage l"
    using assms by (simp add: less_eq_div_iff_mult_less_eq)
  then show ?thesis using assms by (simp add: dense_block_def)
qed

lemma dense_grow_eq: "dense_grow page l = l\<lparr>densePages := max (densePages l) (Suc page)\<rparr>"
proof (induction page l rule: dense_grow.induct)
  case (1 page l)
  then show ?case by (subst dense_grow.simps) (auto simp: max_def)
qed

lemma sparse_free_count:
  assumes "used l \<subseteq> {..<2 ^ 32}" and "i < 2 ^ 32" and "i \<notin> used l"
  shows "card (used l) < 2 ^ 32"
proof -
  have "used l \<subset> {..<2 ^ 32}" using assms by auto
  then show ?thesis using psubset_card_mono [of "{..<2 ^ 32}" "used l"] by simp
qed

lemma numbered_cong:
  assumes "numbered n f g L" and "\<And>i. i < n \<Longrightarrow> f' i = f i" and "\<And>s. s \<in> L \<Longrightarrow> g' s = g s"
  shows "numbered n f' g' L"
  using assms unfolding numbered_def by auto

lemma block_fields: "b\<lparr>DenseIndex := i\<rparr>\<lparr>SData := d\<rparr> = \<lparr>DenseIndex = i, SData = d\<rparr>"
  for b :: "'d sblock"
  by (cases b) simp

text \<open>Numbering a newly claimed slot \<open>a\<close> and writing its data.\<close>

lemma emplaceImpl_ok:
  fixes l :: "'d slist"
  assumes ok: "slist_ok l" and n: "0 < NodesPerPage bs" and L: "live bs = insert a (used l)"
    and old: "\<And>x. x \<in> used l \<Longrightarrow> nData bs x = block_of l x"
    and a: "a \<notin> used l" "a < 2 ^ 32"
  obtains l' where "emplaceImpl (l\<lparr>sparseBlocks := bs\<rparr>) a a d = Inr l'" "slist_ok l'"
    "smap l' = (smap l)(a \<mapsto> d)" "count l' = Suc (count l)" "used l' = insert a (used l)"
    "sparseBlocks l' = bs\<lparr>nData := (nData bs)(a := \<lparr>DenseIndex = count l, SData = d\<rparr>)\<rparr>"
proof -
  note K = slist_okD [OF ok]
  define bs' where "bs' = bs\<lparr>nData := (nData bs)(a := \<lparr>DenseIndex = count l, SData = d\<rparr>)\<rparr>"
  define dp where "dp = max (densePages l) (Suc (count l div DenseBlocksPerPage l))"
  define l' where "l' = l\<lparr>count := Suc (count l), densePages := dp,
    dense := (dense l)(count l := a), sparseBlocks := bs'\<rparr>"
  have c: "count l < 2 ^ 32"
    using sparse_free_count [of l a] slist_ok_count [OF ok] a K(3) by auto
  have live': "live bs' = insert a (used l)" using L by (simp add: bs'_def live_def cap_def)
  have "count l < Suc (count l div DenseBlocksPerPage l) * DenseBlocksPerPage l"
    using K(2) by (metis dividend_less_div_times mult_Suc add.commute)
  also have "\<dots> \<le> dp * DenseBlocksPerPage l" unfolding dp_def by (rule mult_le_mono1) simp
  finally have cp: "count l < dp * DenseBlocksPerPage l" .
  have "emplaceImpl (l\<lparr>sparseBlocks := bs\<rparr>) a a d = Inr l'"
    using K(2) c cp
    by (simp add: emplaceImpl_def write_sparse_def dense_grow_eq dense_block_eq Let_def
        dp_def [symmetric] l'_def bs'_def block_fields)
  moreover have "numbered (Suc (count l)) (dense l') (\<lambda>x. DenseIndex (block_of l' x)) (used l')"
  proof -
    have N: "numbered (Suc (count l)) ((dense l)(count l := a))
        ((\<lambda>x. DenseIndex (block_of l x))(a := count l)) (insert a (used l))"
      by (rule numbered_insert [OF K(4) a(1)])
    have "used l' = insert a (used l)" using live' by (simp add: l'_def used_def)
    then show ?thesis using old
      by (auto intro!: numbered_cong [OF N] simp: l'_def bs'_def block_of_def)
  qed
  then have "slist_ok l'"
    using K n a cp live' by (auto simp: slist_ok_def l'_def used_def bs'_def)
  moreover have "smap l' = (smap l)(a \<mapsto> d)"
    using live' old by (auto simp: smap_def fun_eq_iff l'_def used_def block_of_def bs'_def)
  moreover have "count l' = Suc (count l)" "used l' = insert a (used l)" "sparseBlocks l' = bs'"
    using live' by (simp_all add: l'_def used_def)
  ultimately show ?thesis using that bs'_def by simp
qed

lemma emplaceAt_ok:
  assumes ok: "slist_ok l" and i: "i < 2 ^ 32" "smap l i = None"
  shows "\<exists>l'. emplaceAt l i d = Inr l' \<and> slist_ok l' \<and> smap l' = (smap l)(i \<mapsto> d)"
proof -
  note K = slist_okD [OF ok]
  have f: "i \<notin> used l" using i(2) by (simp add: smap_def split: if_splits)
  from ps.claim_law [OF K(1), of i] f obtain bs where bs: "createAt (sparseBlocks l) i = Inr (Some i, bs)"
    "0 < NodesPerPage bs" "live bs = insert i (used l)"
    "\<And>x. x \<in> used l \<Longrightarrow> nData bs x = block_of l x"
    unfolding used_def block_of_def by blast
  obtain l' where "emplaceImpl (l\<lparr>sparseBlocks := bs\<rparr>) i i d = Inr l'" "slist_ok l'"
    "smap l' = (smap l)(i \<mapsto> d)"
    by (rule emplaceImpl_ok [OF ok bs(2-4) f i(1)])
  with bs(1) show ?thesis by (simp add: emplaceAt_def)
qed

lemma emplaceAt_taken:
  assumes "slist_ok l" and "smap l i \<noteq> None"
  shows "emplaceAt l i d = Inl Aborted"
  using assms ps.claim_used [of "sparseBlocks l" i]
  by (auto simp: emplaceAt_def smap_def used_def slist_ok_def split: if_splits)

lemma slist_get_eq: "slist_ok l \<Longrightarrow> slist_get l i = Inr (smap l i)"
  using ps.lookup_law [of "sparseBlocks l" i]
  by (simp add: slist_get_def smap_def used_def block_of_def slist_ok_def)

lemma erase_absent:
  assumes "slist_ok l" and "smap l i = None"
  shows "eraseBySparseIndex l i = Inl Aborted"
  using assms ps.lookup_law [of "sparseBlocks l" i]
  by (simp add: eraseBySparseIndex_def smap_def used_def slist_ok_def split: if_splits)

lemma dec_wrap: "0 < n \<Longrightarrow> n \<le> 2 ^ 32 \<Longrightarrow> (n + 2 ^ 64 - 1) mod 2 ^ 64 = n - (1::nat)"
proof -
  assume n: "0 < n" "n \<le> 2 ^ 32"
  have "(n + 2 ^ 64 - 1) mod 2 ^ 64 = (n - 1 + 2 ^ 64) mod (2::nat) ^ 64" using n by simp
  also have "\<dots> = n - 1" using n by (simp only: mod_add_self2) simp
  finally show ?thesis .
qed

text \<open>The slots when \<open>i\<close> has been released.\<close>

definition released :: "nat \<Rightarrow> 'd slist \<Rightarrow> 'd sblock plist \<Rightarrow> bool" where
  "released i l bs \<longleftrightarrow> 0 < NodesPerPage bs \<and> live bs = used l - {i} \<and>
     nData bs = (nData (sparseBlocks l))(i := (block_of l i)\<lparr>DenseIndex := NullIndex\<rparr>)"

lemma released_blocks:
  assumes "released i l bs"
  shows "used (l\<lparr>sparseBlocks := bs, count := n\<rparr>) = used l - {i}"
    "x \<in> used l - {i} \<Longrightarrow> block_of (l\<lparr>sparseBlocks := bs, count := n\<rparr>) x = block_of l x"
  using assms by (auto simp: released_def used_def block_of_def)

lemma smap_without:
  "used l' = used l - {i} \<Longrightarrow> (\<And>x. x \<in> used l - {i} \<Longrightarrow> SData (block_of l' x) = SData (block_of l x)) \<Longrightarrow>
   smap l' = (smap l)(i := None)"
  by (auto simp: smap_def fun_eq_iff)

text \<open>The erased number was the last one.\<close>

lemma erase_last:
  assumes ok: "slist_ok l" and iu: "i \<in> used l" and n: "count l = Suc n" "DenseIndex (block_of l i) = n" and bs: "released i l bs"
  defines "l2 \<equiv> l\<lparr>sparseBlocks := bs, count := n\<rparr>"
  shows "slist_ok l2" "smap l2 = (smap l)(i := None)"
proof -
  note K = slist_okD [OF ok]
  note u2 = released_blocks(1) [OF bs, of n, folded l2_def] and b2 = released_blocks(2) [OF bs, of _ n, folded l2_def]
  have "numbered n (dense l) (\<lambda>x. DenseIndex (block_of l x)) (used l - {i})"
    using numbered_remove_last [of n] K(4) n iu by simp
  then have "numbered n (dense l2) (\<lambda>x. DenseIndex (block_of l2 x)) (used l2)"
    unfolding u2 by (rule numbered_cong) (simp_all add: b2, simp add: l2_def)
  then show "slist_ok l2" using K bs n by (auto simp: slist_ok_def u2) (auto simp: l2_def released_def)
  show "smap l2 = (smap l)(i := None)" using u2 b2 by (intro smap_without) auto
qed

text \<open>The last number of the dense array goes to the slot that takes the erased number.\<close>

lemma erase_swap:
  assumes ok: "slist_ok l" and iu: "i \<in> used l" and n: "count l = Suc n" and bs: "released i l bs"
  defines "e \<equiv> DenseIndex (block_of l i)" and "c \<equiv> dense l n"
  defines "l' \<equiv> write_sparse c (\<lambda>b. b\<lparr>DenseIndex := e\<rparr>) (l\<lparr>sparseBlocks := bs, count := n, dense := (dense l)(e := c)\<rparr>)"
  assumes e: "e \<noteq> n"
  shows "slist_ok l'" "smap l' = (smap l)(i := None)" "used l' = used l - {i}"
proof -
  note K = slist_okD [OF ok]
  note num = numberedD [OF K(4)]
  have c: "c \<in> used l" "c \<noteq> i" "DenseIndex (block_of l c) = n"
    using num(1,2) [of n] n e by (auto simp: c_def e_def)
  have "used l' = live bs" by (simp add: l'_def write_sparse_def used_def live_def cap_def)
  then show u': "used l' = used l - {i}" using bs by (simp add: released_def)
  have b': "block_of l' x = (if x = c then (block_of l c)\<lparr>DenseIndex := e\<rparr> else block_of l x)"
    if "x \<in> used l - {i}" for x
    using that c bs by (auto simp: l'_def write_sparse_def block_of_def released_def)
  have N: "numbered n ((dense l)(e := dense l n)) ((\<lambda>x. DenseIndex (block_of l x))(dense l n := e)) (used l - {i})"
    using numbered_swap_pop [of n "dense l" "\<lambda>x. DenseIndex (block_of l x)" "used l" i]
      K(4) iu e by (simp add: n e_def)
  have "numbered n (dense l') (\<lambda>x. DenseIndex (block_of l' x)) (used l')"
    unfolding u' by (rule numbered_cong [OF N])
      (simp_all add: b' c_def [symmetric], simp add: l'_def write_sparse_def)
  then show "slist_ok l'"
    using K bs n by (auto simp: slist_ok_def u') (auto simp: l'_def write_sparse_def released_def)
  show "smap l' = (smap l)(i := None)" using u' b' by (intro smap_without) auto
qed

text \<open>Erasing, on every path; the slots are those of the list's own \<open>Erase\<close>, but for their data.\<close>

lemma erase_ok:
  fixes l :: "'d slist"
  assumes ok: "slist_ok l" and i: "smap l i \<noteq> None"
  obtains l' where "eraseBySparseIndex l i = Inr l'" "slist_ok l'" "smap l' = (smap l)(i := None)"
    "used l' = used l - {i}" "count l = Suc (count l')"
    "\<exists>f g bs. erase ((sparseBlocks l)\<lparr>nData := f\<rparr>) i = Inr bs \<and> sparseBlocks l' = bs\<lparr>nData := g\<rparr>"
proof -
  note K = slist_okD [OF ok]
  define e where "e = DenseIndex (block_of l i)"
  define n where "n = count l - 1"
  define sb where "sb = (sparseBlocks l)\<lparr>nData := (nData (sparseBlocks l))
    (i := (block_of l i)\<lparr>DenseIndex := NullIndex\<rparr>)\<rparr>"
  have iu: "i \<in> used l" using i by (simp add: smap_def split: if_splits)
  have e: "e < count l" using numberedD(3) [OF K(4) iu] by (simp add: e_def)
  then have n: "count l = Suc n" "n < count l" by (simp_all add: n_def)
  have wrap: "(count l + 2 ^ 64 - 1) mod 2 ^ 64 = n"
    using dec_wrap [of "count l"] slist_ok_count [OF ok] n_def n(2) by simp
  have get_i: "get (sparseBlocks l) i = Inr (Some i)"
    using ps.lookup_law [OF K(1), of i] iu by (simp add: used_def)
  have "0 < NodesPerPage sb" "live sb = used l"
    using K(1) by (simp_all add: sb_def used_def live_def cap_def)
  then obtain bs where bs: "erase sb i = Inr bs" and rel: "released i l bs"
    using ps.release_law [of sb i] iu by (auto simp: released_def sb_def)
  define l2 where "l2 = l\<lparr>sparseBlocks := bs, count := n\<rparr>"
  have er: "\<exists>f g bs. erase ((sparseBlocks l)\<lparr>nData := f\<rparr>) i = Inr bs \<and> sparseBlocks l' = bs\<lparr>nData := g\<rparr>"
    if "sparseBlocks l' = bs\<lparr>nData := g\<rparr>" for l' :: "'d slist" and g
    using bs that unfolding sb_def by blast
  have start: "eraseBySparseIndex l i =
     (if e = n then Inr l2 else
      bindR (dense_block l2 e) (\<lambda>eb. bindR (dense_block l2 n) (\<lambda>sw.
      bindR (get bs (dense l2 sw)) (\<lambda>q. case q of None \<Rightarrow> Inl NullDeref
        | Some c \<Rightarrow> Inr (write_sparse c (\<lambda>b. b\<lparr>DenseIndex := e\<rparr>)
            (l2\<lparr>dense := (dense l2)(eb := dense l2 sw)\<rparr>))))))"
    using get_i bs K(1,2,5) wrap e
    by (simp add: eraseBySparseIndex_def write_sparse_def Let_def e_def block_of_def sb_def l2_def
        less_eq_div_iff_mult_less_eq cong: option.case_cong)
  show thesis
  proof (cases "e = n")
    case True
    then show thesis
      using that [of l2] start n erase_last [OF ok iu n(1) _ rel] released_blocks(1) [OF rel, of n] er [of l2 "nData bs"]
      by (simp add: l2_def e_def)
  next
    case False
    have "dense l n \<in> used l" "dense l n \<noteq> i" using numberedD(1,2) [OF K(4), of n] n False by (auto simp: e_def)
    then have "get bs (dense l n) = Inr (Some (dense l n))" using ps.lookup_law [of bs] rel by (simp add: released_def)
    moreover have "dense_block l2 e = Inr e" "dense_block l2 n = Inr n" using K(2,5) e n by (simp_all add: dense_block_eq l2_def)
    ultimately have "eraseBySparseIndex l i = Inr (write_sparse (dense l n) (\<lambda>b. b\<lparr>DenseIndex := e\<rparr>)
        (l\<lparr>sparseBlocks := bs, count := n, dense := (dense l)(e := dense l n)\<rparr>))" (is "_ = Inr ?l")
      using start False by (simp add: l2_def)
    moreover have "slist_ok ?l" "smap ?l = (smap l)(i := None)" "used ?l = used l - {i}"
      unfolding e_def by (rule erase_swap [OF ok iu n(1) rel]; use False in \<open>simp add: e_def\<close>)+
    moreover have "sparseBlocks ?l = bs\<lparr>nData := (nData bs)(dense l n := (nData bs (dense l n))\<lparr>DenseIndex := e\<rparr>)\<rparr>"
      by (simp add: write_sparse_def)
    moreover have "count l = Suc (count ?l)" using n(1) by (simp add: write_sparse_def)
    ultimately show thesis using that [of ?l] er [of ?l] by blast
  qed
qed

section \<open>The sparse list as a map\<close>

interpretation sl: index_map slist_ok smap slist_get emplaceAt eraseBySparseIndex
proof
  fix s :: "'d slist" and i and d :: 'd
  show "slist_get s i = Inr (smap s i)" if "slist_ok s" using that by (rule slist_get_eq)
  show "\<exists>s'. emplaceAt s i d = Inr s' \<and> slist_ok s' \<and> smap s' = (smap s)(i \<mapsto> d)"
    if "slist_ok s" "i < 2 ^ 32" "smap s i = None" using that by (rule emplaceAt_ok)
  show "emplaceAt s i d = Inl Aborted" if "slist_ok s" "smap s i \<noteq> None"
    using that by (rule emplaceAt_taken)
  show "\<exists>s'. eraseBySparseIndex s i = Inr s' \<and> slist_ok s' \<and> smap s' = (smap s)(i := None)"
    if "slist_ok s" "smap s i \<noteq> None" by (rule erase_ok [OF that]) blast
  show "eraseBySparseIndex s i = Inl Aborted" if "slist_ok s" "smap s i = None"
    using that by (rule erase_absent)
qed

lemma slist_ok_new:
  assumes "NodeMetadataSize + (4 + ds) \<le> ps" and "4 \<le> dps"
  shows "slist_ok (new_slist ps ds dps rawd raw)" and "smap (new_slist ps ds dps rawd raw) = Map.empty"
  using assms
  by (simp_all add: slist_ok_def new_slist_def used_def smap_def fun_eq_iff div_greater_zero_iff
      NodeMetadataSize_def)

lemma dom_smap: "dom (smap l) = used l"
  by (auto simp: smap_def dom_def)

section \<open>Iteration and destruction\<close>

lemma pair_at_ok:
  assumes "slist_ok l" and "i < count l"
  shows "pair_at l i = Inr (dense l i, SData (block_of l (dense l i)))"
proof -
  note K = slist_okD [OF assms(1)]
  have "dense l i \<in> used l" using numberedD(1) [OF K(4) assms(2)] .
  then have "get (sparseBlocks l) (dense l i) = Inr (Some (dense l i))"
    using ps.lookup_law [OF K(1)] by (simp add: used_def)
  moreover have "dense_block l i = Inr i" using K assms(2) by (intro dense_block_eq) auto
  ultimately show ?thesis by (simp add: pair_at_def block_of_def)
qed

lemma iterate_from_ok:
  assumes "slist_ok l"
  shows "iterate_from l i =
    Inr (map (\<lambda>j. (dense l j, SData (block_of l (dense l j)))) [i..<count l])"
  using assms
proof (induction l i rule: iterate_from.induct)
  case (1 l i)
  then show ?case
    by (subst iterate_from.simps) (auto simp: pair_at_ok upt_conv_Cons)
qed

lemma destroy_from_ok:
  assumes "slist_ok l"
  shows "destroy_from l i = Inr (map (dense l) [i..<count l])"
  using assms
proof (induction l i rule: destroy_from.induct)
  case (1 l i)
  note K = slist_okD [OF 1(2)]
  show ?case
  proof (cases "count l \<le> i")
    case True
    then show ?thesis by (subst destroy_from.simps) simp
  next
    case False
    then have "dense l i \<in> used l" using numberedD(1) [OF K(4), of i] by simp
    then have "get (sparseBlocks l) (dense l i) = Inr (Some (dense l i))"
      using ps.lookup_law [OF K(1)] by (simp add: used_def)
    moreover have "dense_block l i = Inr i" using K False by (intro dense_block_eq) auto
    ultimately show ?thesis
      using 1 False by (subst destroy_from.simps) (simp add: upt_conv_Cons)
  qed
qed

section \<open>Indices chosen by the list\<close>

lemma pool_rep_data [simp]: "pool_rep (l\<lparr>nData := f\<rparr>) s = pool_rep l s"
  by (simp add: pool_rep_def lists_ok_def cap_def)

lemma emplace_pool:
  assumes ok: "slist_ok l" and R: "pool_rep (sparseBlocks l) (fs, as)"
    and room: "cap (sparseBlocks l) + NodesPerPage (sparseBlocks l) \<le> 2 ^ 32"
  obtains i l' s where "emplace l d = Inr (i, l')" "smap l i = None" "slist_ok l'"
    "smap l' = (smap l)(i \<mapsto> d)" "pool_rep (sparseBlocks l') s" "i < 2 ^ 32"
proof -
  obtain n bs where bs: "create (sparseBlocks l) = Inr (n mod 2 ^ 32, n, bs)"
    "pool_rep bs (snd (pool_step (NodesPerPage (sparseBlocks l)) (fs, as) OpCreate))"
    "NodesPerPage bs = NodesPerPage (sparseBlocks l)" "n \<notin> live (sparseBlocks l)"
    "live bs = insert n (live (sparseBlocks l))"
    "\<And>a. a \<in> live (sparseBlocks l) \<Longrightarrow> nData bs a = nData (sparseBlocks l) a"
    using create_pool [OF R] by metis
  have "cap (sparseBlocks l) = length fs + length as"
    using R cap_lists_ok by (auto simp: pool_rep_def)
  moreover obtain gs as' where gs: "snd (pool_step (NodesPerPage (sparseBlocks l)) (fs, as) OpCreate)
      = (gs, as')" and len: "length gs + length as' \<le> length fs + length as + NodesPerPage (sparseBlocks l)"
    using slist_okD(1) [OF ok] by (cases fs) (auto simp: Let_def)
  moreover have "cap bs = length gs + length as'"
    using bs(2) gs cap_lists_ok by (auto simp: pool_rep_def)
  ultimately have "cap bs \<le> cap (sparseBlocks l) + NodesPerPage (sparseBlocks l)" by simp
  moreover have "n < cap bs" using bs(5) live_less [of n bs] by simp
  ultimately have n: "n < 2 ^ 32" using room by simp
  obtain l' where "emplaceImpl (l\<lparr>sparseBlocks := bs\<rparr>) n n d = Inr l'" "slist_ok l'"
    "smap l' = (smap l)(n \<mapsto> d)"
    "sparseBlocks l' = bs\<lparr>nData := (nData bs)(n := \<lparr>DenseIndex = count l, SData = d\<rparr>)\<rparr>"
    by (rule emplaceImpl_ok [OF ok, of bs n])
      (use bs n slist_okD(1) [OF ok] in \<open>auto simp: used_def block_of_def\<close>)
  with bs n show thesis
    by (intro that [of n l']) (auto simp: emplace_def smap_def used_def)
qed

text \<open>The states reached by \<open>Emplace\<close> and \<open>EraseBySparseIndex\<close>.\<close>

definition pooled :: "'d slist \<Rightarrow> bool" where
  "pooled l \<longleftrightarrow> slist_ok l \<and> (\<exists>s. pool_rep (sparseBlocks l) s)"

lemma pooled_new:
  assumes "NodeMetadataSize + (4 + ds) \<le> ps" and "4 \<le> dps"
  shows "pooled (new_slist ps ds dps rawd raw)"
  using slist_ok_new [OF assms] lists_ok_new [OF assms(1)]
  by (auto simp: pooled_def new_slist_def pool_rep_def intro!: exI [of _ "[]"])

lemma erase_pooled:
  assumes "pooled l" and "smap l i \<noteq> None"
  obtains l' where "eraseBySparseIndex l i = Inr l'" "pooled l'" "smap l' = (smap l)(i := None)"
proof -
  from assms(1) obtain fs as where P: "slist_ok l" "pool_rep (sparseBlocks l) (fs, as)"
    by (auto simp: pooled_def)
  obtain l' f g bs where l': "eraseBySparseIndex l i = Inr l'" "slist_ok l'"
    "smap l' = (smap l)(i := None)"
    "erase ((sparseBlocks l)\<lparr>nData := f\<rparr>) i = Inr bs" "sparseBlocks l' = bs\<lparr>nData := g\<rparr>"
    by (rule erase_ok [OF P(1) assms(2)]) blast
  have "pool_rep ((sparseBlocks l)\<lparr>nData := f\<rparr>) (fs, as)" using P(2) by simp
  then obtain bs' s where "erase ((sparseBlocks l)\<lparr>nData := f\<rparr>) i = Inr bs'" "pool_rep bs' s"
    using erase_pool by metis
  then have "\<exists>s. pool_rep bs s" using l'(4) by (cases s) auto
  then have "pooled l'" using l'(2,5) by (auto simp: pooled_def simp del: split_paired_Ex)
  with l' show thesis using that by blast
qed

section \<open>Runs\<close>

datatype 'd slist_op = EmplaceAt nat 'd | EraseAt nat

fun slist_step :: "'d slist \<Rightarrow> 'd slist_op \<Rightarrow> 'd slist res" where
  "slist_step l (EmplaceAt i d) = emplaceAt l i d"
| "slist_step l (EraseAt i) = eraseBySparseIndex l i"

fun slist_run :: "'d slist \<Rightarrow> 'd slist_op list \<Rightarrow> 'd slist res" where
  "slist_run l [] = Inr l"
| "slist_run l (x # xs) = bindR (slist_step l x) (\<lambda>l'. slist_run l' xs)"

text \<open>The abstract specification: a partial map, taken and absent indices aborting.\<close>

fun map_step :: "(nat \<Rightarrow> 'd option) \<Rightarrow> 'd slist_op \<Rightarrow> (nat \<Rightarrow> 'd option) res" where
  "map_step m (EmplaceAt i d) = (if m i = None then Inr (m(i \<mapsto> d)) else Inl Aborted)"
| "map_step m (EraseAt i) = (if m i = None then Inl Aborted else Inr (m(i := None)))"

fun map_run :: "(nat \<Rightarrow> 'd option) \<Rightarrow> 'd slist_op list \<Rightarrow> (nat \<Rightarrow> 'd option) res" where
  "map_run m [] = Inr m"
| "map_run m (x # xs) = bindR (map_step m x) (\<lambda>m'. map_run m' xs)"

fun op_index :: "'d slist_op \<Rightarrow> nat" where
  "op_index (EmplaceAt i d) = i"
| "op_index (EraseAt i) = i"

lemma slist_step_map:
  assumes "slist_ok l" and "op_index x < 2 ^ 32"
  shows "case map_step (smap l) x of Inl e \<Rightarrow> slist_step l x = Inl e
    | Inr m \<Rightarrow> \<exists>l'. slist_step l x = Inr l' \<and> slist_ok l' \<and> smap l' = m"
proof (cases x)
  case (EmplaceAt i d)
  with assms sl.add_law [of l i d] sl.add_taken [of l i d] show ?thesis by auto
next
  case (EraseAt i)
  with assms sl.del_law [of l i] sl.del_absent [of l i] show ?thesis by auto
qed

lemma slist_run_map:
  assumes "slist_ok l" and "list_all (\<lambda>x. op_index x < 2 ^ 32) xs"
  shows "case map_run (smap l) xs of Inl e \<Rightarrow> slist_run l xs = Inl e
    | Inr m \<Rightarrow> \<exists>l'. slist_run l xs = Inr l' \<and> slist_ok l' \<and> smap l' = m"
  using assms
proof (induction xs arbitrary: l)
  case Nil
  then show ?case by simp
next
  case (Cons x xs)
  from slist_step_map [of l x] Cons.prems
  consider e where "map_step (smap l) x = Inl e" "slist_step l x = Inl e"
    | l' where "map_step (smap l) x = Inr (smap l')" "slist_step l x = Inr l'" "slist_ok l'"
    by (auto split: sum.splits)
  then show ?case
  proof cases
    case (2 l')
    then show ?thesis using Cons.IH [OF 2(3)] Cons.prems(2) by (auto split: sum.splits)
  qed simp
qed

text \<open>What the iteration and the destructor see of the map.\<close>

lemma iterate_smap:
  assumes "slist_ok l"
  shows "\<exists>ys. slist_iterate l = Inr ys \<and> distinct (map fst ys) \<and> map_of ys = smap l"
proof -
  note K = slist_okD [OF assms]
  let ?ys = "map (\<lambda>j. (dense l j, SData (block_of l (dense l j)))) [0..<count l]"
  have "map fst ?ys = map (dense l) [0..<count l]" by (simp add: comp_def)
  note L = numbered_listing [OF K(4)]
  have "map_of ?ys i = smap l i" for i
  proof -
    have *: "?ys = map (\<lambda>a. (a, SData (block_of l a))) (map (dense l) [0..<count l])" by simp
    have "map_of (map (\<lambda>a. (a, SData (block_of l a))) xs) i =
        (if i \<in> set xs then Some (SData (block_of l i)) else None)" for xs
      by (induction xs) auto
    then show ?thesis unfolding * by (simp only: L(2) smap_def)
  qed
  then have "map_of ?ys = smap l" ..
  moreover have "distinct (map fst ?ys)" using L(1) by (simp add: comp_def)
  ultimately show ?thesis using iterate_from_ok [OF assms, of 0] by (auto simp: slist_iterate_def)
qed

lemma destroy_smap:
  assumes "slist_ok l"
  shows "\<exists>as. destroy_from l 0 = Inr as \<and> distinct as \<and> set as = dom (smap l)"
  using destroy_from_ok [OF assms, of 0] numbered_listing [OF slist_okD(4) [OF assms]]
  by (simp add: dom_smap)

section \<open>Properties\<close>

text \<open>
  C2.  A sparse list used through \<open>EmplaceAt\<close> and \<open>EraseBySparseIndex\<close> is a partial map from
  32-bit indices: from the constructor on, every sequence of these calls aborts exactly where
  the map says so (a taken index, an absent one) and never faults otherwise; \<open>Get\<close> returns the
  map's values, the iteration visits each entry of the map once, and the destructor destroys
  the data of each entry once.
\<close>

theorem slist_refines_map:
  assumes "NodeMetadataSize + (4 + ds) \<le> ps" and "4 \<le> dps"
    and "list_all (\<lambda>x. op_index x < 2 ^ 32) xs"
  shows "case map_run Map.empty xs of Inl e \<Rightarrow> slist_run (new_slist ps ds dps rawd raw) xs = Inl e
    | Inr m \<Rightarrow> \<exists>l ys as. slist_run (new_slist ps ds dps rawd raw) xs = Inr l \<and>
        (\<forall>i. slist_get l i = Inr (m i)) \<and>
        slist_iterate l = Inr ys \<and> distinct (map fst ys) \<and> map_of ys = m \<and>
        destroy_from l 0 = Inr as \<and> distinct as \<and> set as = dom m"
proof -
  let ?l = "new_slist ps ds dps rawd raw"
  note N = slist_ok_new [OF assms(1,2), of rawd raw]
  note R = slist_run_map [OF N(1) assms(3), unfolded N(2)]
  show ?thesis
  proof (cases "map_run Map.empty xs")
    case (Inl e)
    then show ?thesis using R by simp
  next
    case (Inr m)
    then obtain l where l: "slist_run ?l xs = Inr l" "slist_ok l" "smap l = m" using R by auto
    then show ?thesis
      using Inr iterate_smap [OF l(2)] destroy_smap [OF l(2)] sl.fetch_law [OF l(2)] by auto
  qed
qed

theorem slist_refines_map_witness:
  "\<exists>l ys as. slist_run (new_slist 65536 4 16384 (\<lambda>i. 0) (zero_memory \<lparr>DenseIndex = 0, SData = 0::nat\<rparr>))
      [EmplaceAt 5 50, EmplaceAt 3 30, EmplaceAt 9000 90, EraseAt 5] = Inr l \<and>
    (\<forall>i. slist_get l i = Inr ([3 \<mapsto> 30, 9000 \<mapsto> 90] i)) \<and>
    slist_iterate l = Inr ys \<and> distinct (map fst ys) \<and> map_of ys = [3 \<mapsto> 30, 9000 \<mapsto> 90] \<and>
    destroy_from l 0 = Inr as \<and> distinct as \<and> set as = dom [3 \<mapsto> 30::nat, 9000 \<mapsto> 90]"
proof -
  have "map_run Map.empty [EmplaceAt 5 50, EmplaceAt 3 30, EmplaceAt 9000 90, EraseAt 5]
      = Inr [3 \<mapsto> 30::nat, 9000 \<mapsto> 90]"
    by (auto simp: fun_eq_iff)
  with slist_refines_map [of 4 65536 16384
      "[EmplaceAt 5 50, EmplaceAt 3 30, EmplaceAt 9000 90, EraseAt 5]" "\<lambda>i. 0"
      "zero_memory \<lparr>DenseIndex = 0, SData = 0::nat\<rparr>"]
  show ?thesis by (simp add: NodeMetadataSize_def)
qed

text \<open>
  With indices chosen by the list: as long as the 32-bit index space has room for one more
  page, \<open>Emplace\<close> returns an index not in use and adds the datum there alone; \<open>Emplace\<close> and
  \<open>EraseBySparseIndex\<close> both keep the list in the states from which this holds, starting with the
  constructor.
\<close>

theorem emplace_fresh_index:
  assumes "pooled l" and "cap (sparseBlocks l) + NodesPerPage (sparseBlocks l) \<le> 2 ^ 32"
  shows "(\<exists>i l'. emplace l d = Inr (i, l') \<and> i < 2 ^ 32 \<and> smap l i = None \<and>
      smap l' = (smap l)(i \<mapsto> d) \<and> pooled l') \<and>
    (smap l j \<noteq> None \<longrightarrow> (\<exists>l'. eraseBySparseIndex l j = Inr l' \<and> smap l' = (smap l)(j := None) \<and>
      pooled l'))"
proof -
  obtain fs as where P: "slist_ok l" "pool_rep (sparseBlocks l) (fs, as)"
    using assms(1) by (auto simp: pooled_def)
  show ?thesis
    by (rule emplace_pool [OF P assms(2)], use erase_pooled [OF assms(1)] in
        \<open>auto simp: pooled_def simp del: split_paired_Ex\<close>) blast
qed

theorem emplace_fresh_index_witness:
  "\<exists>i l'. emplace (new_slist 65536 4 16384 (\<lambda>i. 0) (zero_memory \<lparr>DenseIndex = 0, SData = 0::nat\<rparr>)) 7
      = Inr (i, l') \<and> i < 2 ^ 32 \<and> smap l' = [i \<mapsto> 7] \<and> pooled l'"
proof -
  let ?l = "new_slist 65536 4 16384 (\<lambda>i. 0) (zero_memory \<lparr>DenseIndex = 0, SData = 0::nat\<rparr>)"
  have "smap ?l = Map.empty" by (rule slist_ok_new) (simp_all add: NodeMetadataSize_def)
  moreover have "pooled ?l" by (rule pooled_new) (simp_all add: NodeMetadataSize_def)
  moreover have "cap (sparseBlocks ?l) + NodesPerPage (sparseBlocks ?l) \<le> 2 ^ 32"
    by (simp add: new_slist_def NodeMetadataSize_def)
  ultimately show ?thesis using emplace_fresh_index [of ?l 7] by auto
qed

end
