(* ===== verification/Sparse_Array.thy ===== *)
theory Sparse_Array
  imports Sparse_List
begin

text \<open>
  \<open>SparseArray<TData>\<close> of Util/MemoryPool/SparseArray.h: the data lives in a gapless dense array,
  the slots of an \<open>IndexedUnmanagedList\<close> hold the positions, and an erased datum is replaced by
  the last one (swap-and-pop).  A dense block holds \<open>Some d\<close> while an object lives in its storage
  and \<open>None\<close> while the storage is raw.
\<close>

section \<open>State\<close>

text \<open>The type traits the code branches on, and what moving from an object leaves behind.\<close>

record 'd traits =
  trivially_destructible :: bool
  trivially_copyable :: bool
  moved_from :: "'d \<Rightarrow> 'd"

record 'd sarray =
  aTraits :: "'d traits"
  aBlocksPerPage :: nat
  aCount :: nat
  aPages :: nat
  aIndex :: "nat \<Rightarrow> nat"
  aData :: "nat \<Rightarrow> 'd option"
  aSparse :: "nat plist"

text \<open>The constructor; the metadata of a dense block are four bytes, a sparse block is four bytes.\<close>

definition new_sarray :: "'d traits \<Rightarrow> nat \<Rightarrow> nat \<Rightarrow> nat \<Rightarrow> (nat \<Rightarrow> nat) \<Rightarrow> nat plist \<Rightarrow> 'd sarray" where
  "new_sarray tr densePageSize dataSize sparsePageSize rawIndex raw =
     \<lparr>aTraits = tr, aBlocksPerPage = densePageSize div (4 + dataSize), aCount = 0, aPages = 0,
      aIndex = rawIndex, aData = (\<lambda>i. None),
      aSparse = new_plist sparsePageSize 4 (\<lambda>i d. d) raw\<rparr>"

section \<open>Operations\<close>

text \<open>\<open>densePages_[i / DenseBlocksPerPage] + (i % DenseBlocksPerPage) * DenseBlockSize\<close>\<close>

definition adense_block :: "'d sarray \<Rightarrow> nat \<Rightarrow> nat res" where
  "adense_block l i =
     (if aBlocksPerPage l = 0 then Inl DivByZero
      else if aPages l \<le> i div aBlocksPerPage l then Inl OutOfBounds
      else Inr ((i div aBlocksPerPage l) * aBlocksPerPage l + i mod aBlocksPerPage l))"

function adense_grow :: "nat \<Rightarrow> 'd sarray \<Rightarrow> 'd sarray" where
  "adense_grow page l =
     (if aPages l \<le> page then adense_grow page (l\<lparr>aPages := Suc (aPages l)\<rparr>) else l)"
  by pat_completeness auto
termination
  by (relation "measure (\<lambda>(page, l). Suc page - aPages l)") auto

declare adense_grow.simps [simp del]

definition write_slot :: "nat \<Rightarrow> nat \<Rightarrow> 'd sarray \<Rightarrow> 'd sarray" where
  "write_slot a v l =
     l\<lparr>aSparse := (aSparse l)\<lparr>nData := (nData (aSparse l))(a := v)\<rparr>\<rparr>"

text \<open>\<open>if constexpr (!std::is_trivially_destructible_v<TData>) ...->~TData();\<close>\<close>

definition destruct :: "nat \<Rightarrow> 'd sarray \<Rightarrow> 'd sarray" where
  "destruct b l =
     (if trivially_destructible (aTraits l) then l else l\<lparr>aData := (aData l)(b := None)\<rparr>)"

definition sarray_emplace :: "'d sarray \<Rightarrow> 'd \<Rightarrow> (nat \<times> 'd sarray) res" where
  "sarray_emplace l d =
     bindR (create (aSparse l)) (\<lambda>(sparseIndex, a, bs).
       let denseIndex = aCount l;
           l1 = write_slot a (denseIndex mod 2 ^ 32) (l\<lparr>aSparse := bs\<rparr>);
           l2 = l1\<lparr>aCount := (aCount l1 + 1) mod 2 ^ 64\<rparr>
       in if aBlocksPerPage l2 = 0 then Inl DivByZero else
          let l3 = adense_grow (denseIndex div aBlocksPerPage l2) l2
          in bindR (adense_block l3 denseIndex) (\<lambda>b.
             Inr (sparseIndex, l3\<lparr>aIndex := (aIndex l3)(b := sparseIndex),
                                 aData := (aData l3)(b \<mapsto> d)\<rparr>)))"

text \<open>\<open>memcpy\<close> of a whole block, or the index and a move construction of the data.\<close>

definition copy_block :: "nat \<Rightarrow> nat \<Rightarrow> 'd sarray \<Rightarrow> 'd sarray" where
  "copy_block to from l =
     (if trivially_copyable (aTraits l)
      then l\<lparr>aIndex := (aIndex l)(to := aIndex l from), aData := (aData l)(to := aData l from)\<rparr>
      else l\<lparr>aIndex := (aIndex l)(to := aIndex l from),
             aData := (aData l)(to := aData l from,
                                from := map_option (moved_from (aTraits l)) (aData l from))\<rparr>)"

definition sarray_erase :: "'d sarray \<Rightarrow> nat \<Rightarrow> 'd sarray res" where
  "sarray_erase l sparseIndex =
     bindR (get (aSparse l) sparseIndex) (\<lambda>p. case p of None \<Rightarrow> Inl Aborted | Some a \<Rightarrow>
       (let eraseDenseIndex = nData (aSparse l) a
        in bindR (adense_block l eraseDenseIndex) (\<lambda>eraseBlock.
           let l1 = write_slot a NullIndex l
           in bindR (erase (aSparse l1) sparseIndex) (\<lambda>bs.
              let l2 = destruct eraseBlock
                    (l1\<lparr>aSparse := bs, aCount := (aCount l1 + 2 ^ 64 - 1) mod 2 ^ 64\<rparr>)
              in if eraseDenseIndex = aCount l2 then Inr l2
                 else bindR (adense_block l2 (aCount l2)) (\<lambda>lastBlock.
                      bindR (get (aSparse l2) (aIndex l2 lastBlock)) (\<lambda>q.
                        case q of None \<Rightarrow> Inl ScrashAborted
                        | Some c \<Rightarrow>
                            Inr (destruct lastBlock (copy_block eraseBlock lastBlock
                                   (write_slot c eraseDenseIndex l2)))))))))"

text \<open>\<open>Get\<close>: \<open>None\<close> for null, else the object the returned pointer designates.\<close>

definition sarray_get :: "'d sarray \<Rightarrow> nat \<Rightarrow> 'd option option res" where
  "sarray_get l sparseIndex =
     bindR (get (aSparse l) sparseIndex) (\<lambda>p. case p of None \<Rightarrow> Inr None | Some a \<Rightarrow>
       bindR (adense_block l (nData (aSparse l) a)) (\<lambda>b. Inr (Some (aData l b))))"

definition sarray_pair_at :: "'d sarray \<Rightarrow> nat \<Rightarrow> (nat \<times> 'd option) res" where
  "sarray_pair_at l denseIndex =
     bindR (adense_block l denseIndex) (\<lambda>b. Inr (aIndex l b, aData l b))"

function sarray_iterate_from :: "'d sarray \<Rightarrow> nat \<Rightarrow> (nat \<times> 'd option) list res" where
  "sarray_iterate_from l denseIndex =
     (if aCount l \<le> denseIndex then Inr []
      else bindR (sarray_pair_at l denseIndex) (\<lambda>x.
           bindR (sarray_iterate_from l (denseIndex + 1)) (\<lambda>xs. Inr (x # xs))))"
  by pat_completeness auto
termination
  by (relation "measure (\<lambda>(l, i). aCount l - i)") auto

declare sarray_iterate_from.simps [simp del]

text \<open>The destructor: the dense blocks it runs \<open>~TData\<close> on, page by page.\<close>

definition sarray_destroyed :: "'d sarray \<Rightarrow> nat list" where
  "sarray_destroyed l =
     concat (map (\<lambda>page. if trivially_destructible (aTraits l) then []
                         else map (\<lambda>b. page * aBlocksPerPage l + b) [0..<aBlocksPerPage l])
                 [0..<aPages l])"

section \<open>The invariant and the abstract map\<close>

definition ausing :: "'d sarray \<Rightarrow> nat set" where
  "ausing l = live (aSparse l)"

definition sarray_ok :: "'d sarray \<Rightarrow> bool" where
  "sarray_ok l \<longleftrightarrow>
     (\<exists>s. pool_rep (aSparse l) s) \<and> 0 < NodesPerPage (aSparse l) \<and> 0 < aBlocksPerPage l \<and>
     ausing l \<subseteq> {..<2 ^ 32} \<and> numbered (aCount l) (aIndex l) (nData (aSparse l)) (ausing l) \<and>
     aCount l \<le> aPages l * aBlocksPerPage l \<and>
     (\<forall>i<aCount l. aData l i \<noteq> None) \<and>
     (\<not> trivially_destructible (aTraits l) \<longrightarrow> (\<forall>i\<ge>aCount l. aData l i = None)) \<and>
     (trivially_copyable (aTraits l) \<longrightarrow> trivially_destructible (aTraits l))"

definition amap :: "'d sarray \<Rightarrow> nat \<Rightarrow> 'd option" where
  "amap l i = (if i \<in> ausing l then aData l (nData (aSparse l) i) else None)"

lemma sarray_okD:
  assumes "sarray_ok l"
  shows "\<exists>s. pool_rep (aSparse l) s" "0 < NodesPerPage (aSparse l)" "0 < aBlocksPerPage l"
    "a \<in> ausing l \<Longrightarrow> a < 2 ^ 32" "numbered (aCount l) (aIndex l) (nData (aSparse l)) (ausing l)"
    "aCount l \<le> aPages l * aBlocksPerPage l" "i < aCount l \<Longrightarrow> aData l i \<noteq> None"
    "\<not> trivially_destructible (aTraits l) \<Longrightarrow> aCount l \<le> i \<Longrightarrow> aData l i = None"
    "trivially_copyable (aTraits l) \<Longrightarrow> trivially_destructible (aTraits l)"
  using assms by (auto simp: sarray_ok_def)

lemma sarray_ok_count: "sarray_ok l \<Longrightarrow> aCount l = card (ausing l) \<and> aCount l \<le> 2 ^ 32"
proof -
  assume ok: "sarray_ok l"
  have "ausing l \<subseteq> {..<2 ^ 32}" using sarray_okD(4) [OF ok] by auto
  then have "card (ausing l) \<le> 2 ^ 32" using card_mono [of "{..<2 ^ 32}" "ausing l"] by simp
  then show ?thesis using numbered_card [OF sarray_okD(5) [OF ok]] by simp
qed

lemma adense_block_eq:
  assumes "0 < aBlocksPerPage l" and "i < aPages l * aBlocksPerPage l"
  shows "adense_block l i = Inr i"
proof -
  have "\<not> aPages l \<le> i div aBlocksPerPage l"
    using assms by (simp add: less_eq_div_iff_mult_less_eq)
  then show ?thesis using assms by (simp add: adense_block_def)
qed

lemma adense_grow_eq: "adense_grow page l = l\<lparr>aPages := max (aPages l) (Suc page)\<rparr>"
proof (induction page l rule: adense_grow.induct)
  case (1 page l)
  then show ?case by (subst adense_grow.simps) (auto simp: max_def)
qed

lemma amap_numbered:
  assumes "sarray_ok l" and "i < aCount l"
  shows "amap l (aIndex l i) = aData l i"
  using numberedD(1,2) [OF sarray_okD(5) [OF assms(1)] assms(2)] by (simp add: amap_def)

lemma dom_amap: "sarray_ok l \<Longrightarrow> dom (amap l) = ausing l"
  using numberedD(3) [OF sarray_okD(5)] sarray_okD(7) by (force simp: amap_def dom_def)

lemma sarray_ok_new:
  assumes "NodeMetadataSize + 4 \<le> ps" and "4 + ds \<le> dps"
    and "trivially_copyable tr \<longrightarrow> trivially_destructible tr"
  shows "sarray_ok (new_sarray tr dps ds ps ri raw)"
    and "amap (new_sarray tr dps ds ps ri raw) = Map.empty"
  using assms lists_ok_new [OF assms(1)]
  by (auto simp: sarray_ok_def new_sarray_def ausing_def amap_def fun_eq_iff div_greater_zero_iff
      NodeMetadataSize_def pool_rep_def intro!: exI [of _ "[]"])

lemma sarray_get_eq:
  assumes "sarray_ok l"
  shows "sarray_get l i = Inr (if amap l i = None then None else Some (amap l i))"
proof -
  note K = sarray_okD [OF assms]
  show ?thesis
  proof (cases "i \<in> ausing l")
    case True
    then have b: "nData (aSparse l) i < aCount l" using numberedD(3) [OF K(5)] by simp
    then have "adense_block l (nData (aSparse l) i) = Inr (nData (aSparse l) i)"
      using K(3,6) by (intro adense_block_eq) auto
    then show ?thesis
      using ps.lookup_law [OF K(2), of i] True K(7) [OF b] by (auto simp: sarray_get_def ausing_def amap_def)
  next
    case False
    then show ?thesis
      using ps.lookup_law [OF K(2), of i] by (simp add: sarray_get_def ausing_def amap_def)
  qed
qed

lemma sarray_iterate_from_ok:
  assumes "sarray_ok l"
  shows "sarray_iterate_from l i = Inr (map (\<lambda>j. (aIndex l j, aData l j)) [i..<aCount l])"
  using assms
proof (induction l i rule: sarray_iterate_from.induct)
  case (1 l i)
  note K = sarray_okD [OF 1(2)]
  have "i < aCount l \<Longrightarrow> adense_block l i = Inr i" using K(3,6) by (intro adense_block_eq) auto
  then show ?case
    using 1 by (subst sarray_iterate_from.simps) (auto simp: sarray_pair_at_def upt_conv_Cons)
qed

section \<open>Emplacing and erasing\<close>

lemma sarray_emplace_ok:
  fixes l :: "'d sarray"
  assumes ok: "sarray_ok l" and room: "cap (aSparse l) + NodesPerPage (aSparse l) \<le> 2 ^ 32"
  obtains i l' where "sarray_emplace l d = Inr (i, l')" "i < 2 ^ 32" "amap l i = None" "sarray_ok l'"
    "amap l' = (amap l)(i \<mapsto> d)"
proof -
  note K = sarray_okD [OF ok]
  obtain fs as where R: "pool_rep (aSparse l) (fs, as)" using K(1) by auto
  obtain n bs s where bs: "create (aSparse l) = Inr (n mod 2 ^ 32, n, bs)" "pool_rep bs s"
    "s = snd (pool_step (NodesPerPage (aSparse l)) (fs, as) OpCreate)"
    "NodesPerPage bs = NodesPerPage (aSparse l)" "n \<notin> ausing l" "live bs = insert n (ausing l)"
    "\<And>a. a \<in> ausing l \<Longrightarrow> nData bs a = nData (aSparse l) a"
    using create_pool [OF R] unfolding ausing_def by metis
  have "cap bs = length (fst s) + length (snd s)" "cap (aSparse l) = length fs + length as"
    using bs(2) R cap_lists_ok by (auto simp: pool_rep_def split_beta)
  moreover have "length (fst s) + length (snd s) \<le> length fs + length as + NodesPerPage (aSparse l)"
    using K(2) by (cases fs) (auto simp: bs(3) Let_def)
  moreover have "n < cap bs" using bs(6) live_less [of n bs] by simp
  ultimately have n: "n < 2 ^ 32" using room by simp
  have "ausing l \<subset> {..<2 ^ 32}" using K(4) bs(5) n by auto
  then have "card (ausing l) < card {..<(2::nat) ^ 32}" by (rule psubset_card_mono [OF finite_lessThan])
  then have c: "aCount l < 2 ^ 32" using sarray_ok_count [OF ok] by simp
  define pg where "pg = max (aPages l) (Suc (aCount l div aBlocksPerPage l))"
  define l' where "l' = l\<lparr>aCount := Suc (aCount l), aPages := pg, aIndex := (aIndex l)(aCount l := n),
    aData := (aData l)(aCount l \<mapsto> d), aSparse := bs\<lparr>nData := (nData bs)(n := aCount l)\<rparr>\<rparr>"
  have "aCount l < Suc (aCount l div aBlocksPerPage l) * aBlocksPerPage l"
    using K(3) by (metis dividend_less_div_times mult_Suc add.commute)
  also have "\<dots> \<le> pg * aBlocksPerPage l" unfolding pg_def by (rule mult_le_mono1) simp
  finally have cp: "aCount l < pg * aBlocksPerPage l" .
  have run: "sarray_emplace l d = Inr (n, l')"
    using bs(1) K(3) c cp n
    by (simp add: sarray_emplace_def write_slot_def adense_grow_eq adense_block_eq Let_def
        pg_def [symmetric] l'_def)
  have u': "ausing l' = insert n (ausing l)"
    using bs(6) by (simp add: l'_def ausing_def live_def cap_def)
  have "numbered (aCount l') (aIndex l') (nData (aSparse l')) (ausing l')"
    unfolding u' using bs(7)
    by (auto intro!: numbered_cong [OF numbered_insert [OF K(5) bs(5)]] simp: l'_def)
  moreover have "\<exists>s. pool_rep (aSparse l') s" using bs(2) by (auto simp: l'_def simp del: split_paired_Ex)
  ultimately have "sarray_ok l'"
    using K n bs(4) cp u'
    unfolding sarray_ok_def by (auto simp: l'_def less_Suc_eq simp del: split_paired_Ex)
  moreover have "amap l' = (amap l)(n \<mapsto> d)"
    using u' bs(7) numberedD(3) [OF K(5), THEN less_imp_neq]
    by (auto simp: amap_def fun_eq_iff l'_def)
  moreover have "amap l n = None" using bs(5) by (simp add: amap_def)
  ultimately show thesis using that run n by blast
qed

lemma sarray_erase_absent:
  assumes "sarray_ok l" and "amap l i = None"
  shows "sarray_erase l i = Inl Aborted"
  using assms ps.lookup_law [OF sarray_okD(2) [OF assms(1)], of i] dom_amap [OF assms(1)]
  by (auto simp: sarray_erase_def ausing_def)

definition shrunk :: "nat \<Rightarrow> nat \<Rightarrow> nat plist \<Rightarrow> 'd sarray \<Rightarrow> 'd sarray" where
  "shrunk e n bs l = destruct e (l\<lparr>aSparse := bs, aCount := n\<rparr>)"

lemma shrunk_fields [simp]:
  "aSparse (shrunk e n bs l) = bs" "aCount (shrunk e n bs l) = n" "aIndex (shrunk e n bs l) = aIndex l"
  "aTraits (shrunk e n bs l) = aTraits l" "aBlocksPerPage (shrunk e n bs l) = aBlocksPerPage l" "aPages (shrunk e n bs l) = aPages l"
  "aData (shrunk e n bs l) = (if trivially_destructible (aTraits l) then aData l else (aData l)(e := None))"
  "ausing (shrunk e n bs l) = live bs"
  by (simp_all add: shrunk_def destruct_def ausing_def)

text \<open>The slots without \<open>i\<close>.\<close>

definition slots_without :: "nat \<Rightarrow> 'd sarray \<Rightarrow> nat plist \<Rightarrow> bool" where
  "slots_without i l bs \<longleftrightarrow> (\<exists>s. pool_rep bs s) \<and> NodesPerPage bs = NodesPerPage (aSparse l) \<and>
     live bs = ausing l - {i} \<and> nData bs = (nData (aSparse l))(i := NullIndex)"

text \<open>Erasing up to the question whether the datum was the last one.\<close>

lemma sarray_erase_run:
  assumes ok: "sarray_ok l" and i: "amap l i \<noteq> None" and n: "aCount l = Suc n"
  defines "e \<equiv> nData (aSparse l) i"
  obtains bs where "slots_without i l bs"
    "sarray_erase l i = (if e = n then Inr (shrunk e n bs l) else
      bindR (adense_block (shrunk e n bs l) n) (\<lambda>b. bindR (get bs (aIndex l b)) (\<lambda>q. case q of
        None \<Rightarrow> Inl ScrashAborted
      | Some c \<Rightarrow> Inr (destruct b (copy_block e b (write_slot c e (shrunk e n bs l)))))))"
proof -
  note K = sarray_okD [OF ok]
  define sb where "sb = (aSparse l)\<lparr>nData := (nData (aSparse l))(i := NullIndex)\<rparr>"
  have iu: "i \<in> ausing l" using i by (simp add: amap_def split: if_splits)
  have e: "e < aCount l" using numberedD(3) [OF K(5) iu] by (simp add: e_def)
  have wrap: "(aCount l + 2 ^ 64 - 1) mod 2 ^ 64 = n"
    using dec_wrap [of "Suc n"] conjunct2 [OF sarray_ok_count [OF ok]] unfolding n by simp
  have get_i: "get (aSparse l) i = Inr (Some i)"
    using ps.lookup_law [OF K(2), of i] iu by (simp add: ausing_def)
  obtain s where s: "pool_rep sb s" using K(1) by (auto simp: sb_def)
  then obtain bs s' where bs: "erase sb i = Inr bs" "pool_rep bs s'" "nData bs = nData sb"
    "NodesPerPage bs = NodesPerPage sb"
    using erase_pool [of sb "fst s" "snd s" i] unfolding prod.collapse by blast
  have "0 < NodesPerPage sb" "live sb = ausing l"
    using K(2) by (simp_all add: sb_def ausing_def live_def cap_def)
  then have "live bs = ausing l - {i}" using ps.release_law [of sb i] iu bs(1) by auto
  then have "slots_without i l bs" using bs(2-4) unfolding slots_without_def by (auto simp: sb_def simp del: split_paired_Ex)
  moreover have db: "adense_block l e = Inr e" using K(3,6) e by (intro adense_block_eq) auto
  have w: "aSparse (write_slot i NullIndex l) = sb" "aCount (write_slot i NullIndex l) = aCount l"
    "(write_slot i NullIndex l)\<lparr>aSparse := bs, aCount := k\<rparr> = l\<lparr>aSparse := bs, aCount := k\<rparr>" for k
    by (simp_all add: write_slot_def sb_def)
  have sh: "destruct k (l\<lparr>aSparse := bs, aCount := n\<rparr>) = shrunk k n bs l" for k by (simp add: shrunk_def)
  have "sarray_erase l i = (if e = n then Inr (shrunk e n bs l) else
      bindR (adense_block (shrunk e n bs l) n) (\<lambda>b. bindR (get bs (aIndex l b)) (\<lambda>q. case q of
        None \<Rightarrow> Inl ScrashAborted
      | Some c \<Rightarrow> Inr (destruct b (copy_block e b (write_slot c e (shrunk e n bs l)))))))"
    using wrap by (simp add: sarray_erase_def Let_def get_i e_def [symmetric] db w bs(1) sh)
  ultimately show thesis by (rule that)
qed

lemma sarray_slots:
  assumes "sarray_ok l" and "i \<in> ausing l" and "x \<in> ausing l"
  shows "nData (aSparse l) x < aCount l" "nData (aSparse l) x = nData (aSparse l) i \<longleftrightarrow> x = i"
  using numberedD [OF sarray_okD(5) [OF assms(1)]] assms(2,3) by metis+

text \<open>The last datum is erased.\<close>

lemma sarray_erase_last:
  assumes ok: "sarray_ok l" and iu: "i \<in> ausing l" and n: "aCount l = Suc n" "nData (aSparse l) i = n" and bs: "slots_without i l bs"
  shows "sarray_ok (shrunk n n bs l)" "amap (shrunk n n bs l) = (amap l)(i := None)"
proof -
  note K = sarray_okD [OF ok] and B = bs [unfolded slots_without_def]
  let ?l = "shrunk n n bs l"
  have "numbered n (aIndex l) (nData (aSparse l)) (ausing l - {i})"
    using numbered_remove_last [of n] K(5) n iu by simp
  then have "numbered (aCount ?l) (aIndex ?l) (nData (aSparse ?l)) (ausing ?l)"
    using B by simp (rule numbered_cong, simp_all)
  then show "sarray_ok ?l" using K(2-4,6-9) B n unfolding sarray_ok_def by (auto simp del: split_paired_Ex)
  show "amap ?l = (amap l)(i := None)"
    using B sarray_slots [OF ok iu] n(2) by (auto simp: amap_def fun_eq_iff)
qed

text \<open>The last datum takes the place of the erased one.\<close>

lemma sarray_erase_swap:
  assumes ok: "sarray_ok l" and iu: "i \<in> ausing l" and n: "aCount l = Suc n" and bs: "slots_without i l bs"
  defines "e \<equiv> nData (aSparse l) i" and "c \<equiv> aIndex l n"
  defines "l' \<equiv> destruct n (copy_block e n (write_slot c e (shrunk e n bs l)))"
  assumes e: "e \<noteq> n"
  shows "sarray_ok l'" "amap l' = (amap l)(i := None)"
proof -
  note K = sarray_okD [OF ok] and B = bs [unfolded slots_without_def]
  note num = numberedD [OF K(5)] and sl = sarray_slots [OF ok iu]
  have en: "e < n" using sl(1) [OF iu] e n by (simp add: e_def)
  have c: "c \<in> ausing l" "c \<noteq> i" "nData (aSparse l) c = n"
    using num(1,2) [of n] n e by (auto simp: c_def e_def)
  have l': "aSparse l' = bs\<lparr>nData := (nData bs)(c := e)\<rparr>" "aCount l' = n"
    "aIndex l' = (aIndex l)(e := c)" "aTraits l' = aTraits l" "aPages l' = aPages l"
    "aBlocksPerPage l' = aBlocksPerPage l"
    by (simp_all add: l'_def destruct_def copy_block_def write_slot_def c_def)
  have dt: "aData l' x = (if x = e then aData l n
      else if x = n \<and> \<not> trivially_destructible (aTraits l) then None else aData l x)"
    if "x \<noteq> n \<or> \<not> trivially_destructible (aTraits l)" for x
    using that e K(9) by (auto simp: l'_def destruct_def copy_block_def write_slot_def)
  have "ausing l' = live bs" by (simp add: ausing_def l' live_def cap_def)
  then have u': "ausing l' = ausing l - {i}" using B by simp
  have "numbered n ((aIndex l)(e := aIndex l n)) ((nData (aSparse l))(aIndex l n := e)) (ausing l - {i})"
    using numbered_swap_pop [of n "aIndex l" "nData (aSparse l)" "ausing l" i] K(5) iu e
    by (simp add: n(1) e_def)
  then have "numbered (aCount l') (aIndex l') (nData (aSparse l')) (ausing l')"
    unfolding u' l' by (rule numbered_cong) (auto simp: B c_def)
  moreover have "\<exists>s. pool_rep (aSparse l') s" using B by (auto simp: l' simp del: split_paired_Ex)
  moreover have "aData l' x \<noteq> None" if "x < n" for x
    using dt [of x] K(7) [of x] K(7) [of n] that n by (auto split: if_splits)
  moreover have "aData l' x = None" if "\<not> trivially_destructible (aTraits l)" "n \<le> x" for x
    using dt [of x] that K(8) [of x] en n by auto
  ultimately show "sarray_ok l'"
    unfolding sarray_ok_def using K(2-6,9) B n u' by (auto simp: l')
  show "amap l' = (amap l)(i := None)"
  proof
    fix x
    show "amap l' x = ((amap l)(i := None)) x"
    proof (cases "x \<in> ausing l - {i}")
      case True
      have "nData (aSparse l) x = n \<longleftrightarrow> x = c" using num(4) [of x] c True by (auto simp: c_def)
      then show ?thesis
        using True sl [of x] c dt [of e] dt [of "nData (aSparse l) x"] e B
        by (auto simp: amap_def u' l' e_def)
    qed (auto simp: amap_def u')
  qed
qed

lemma sarray_erase_ok:
  fixes l :: "'d sarray"
  assumes ok: "sarray_ok l" and i: "amap l i \<noteq> None"
  obtains l' where "sarray_erase l i = Inr l'" "sarray_ok l'" "amap l' = (amap l)(i := None)"
proof -
  note K = sarray_okD [OF ok]
  let ?e = "nData (aSparse l) i"
  have iu: "i \<in> ausing l" using i by (simp add: amap_def split: if_splits)
  obtain n where n: "aCount l = Suc n" using sarray_slots(1) [OF ok iu iu] by (cases "aCount l") auto
  obtain bs where bs: "slots_without i l bs" and run: "sarray_erase l i = (if ?e = n then Inr (shrunk ?e n bs l) else
      bindR (adense_block (shrunk ?e n bs l) n) (\<lambda>b. bindR (get bs (aIndex l b)) (\<lambda>q. case q of
        None \<Rightarrow> Inl ScrashAborted
      | Some c \<Rightarrow> Inr (destruct b (copy_block ?e b (write_slot c ?e (shrunk ?e n bs l)))))))"
    by (rule sarray_erase_run [OF ok i n])
  show thesis
  proof (cases "?e = n")
    case True
    then show thesis using that run sarray_erase_last [OF ok iu n True bs] by simp
  next
    case False
    have "aIndex l n \<in> live bs" "0 < NodesPerPage bs"
      using numberedD(1,2) [OF K(5), of n] n False bs K(2) by (auto simp: slots_without_def)
    then have "get bs (aIndex l n) = Inr (Some (aIndex l n))" using ps.lookup_law [of bs] by simp
    moreover have "adense_block (shrunk ?e n bs l) n = Inr n" using K(3,6) n by (intro adense_block_eq) auto
    ultimately show thesis using that run False sarray_erase_swap [OF ok iu n bs False] by simp
  qed
qed

section \<open>Properties\<close>

text \<open>
  C32.  A sparse array is a partial map whose keys the array chooses.  The invariant holds after the
  constructor, where the map is empty; while the 32-bit index space has room for one more page,
  \<open>Emplace\<close> returns an unused index and adds that entry alone; \<open>EraseBySparseIndex\<close> removes one
  entry and aborts on an absent index, although it moves the last datum; \<open>Get\<close> returns the entry
  of an index, wherever the datum has moved; and the iteration visits each entry once.
\<close>

theorem sarray_is_a_map:
  assumes "sarray_ok l"
  shows "(cap (aSparse l) + NodesPerPage (aSparse l) \<le> 2 ^ 32 \<longrightarrow>
      (\<exists>i l'. sarray_emplace l d = Inr (i, l') \<and> i < 2 ^ 32 \<and> amap l i = None \<and>
        amap l' = (amap l)(i \<mapsto> d) \<and> sarray_ok l')) \<and>
    (if amap l j = None then sarray_erase l j = Inl Aborted
     else \<exists>l'. sarray_erase l j = Inr l' \<and> amap l' = (amap l)(j := None) \<and> sarray_ok l') \<and>
    sarray_get l j = Inr (if amap l j = None then None else Some (amap l j)) \<and>
    (\<exists>ys. sarray_iterate_from l 0 = Inr ys \<and> distinct (map fst ys) \<and>
       set (map fst ys) = dom (amap l) \<and> (\<forall>(i, x) \<in> set ys. amap l i = x))"
proof (intro conjI)
  show "cap (aSparse l) + NodesPerPage (aSparse l) \<le> 2 ^ 32 \<longrightarrow>
      (\<exists>i l'. sarray_emplace l d = Inr (i, l') \<and> i < 2 ^ 32 \<and> amap l i = None \<and>
        amap l' = (amap l)(i \<mapsto> d) \<and> sarray_ok l')"
    using sarray_emplace_ok [OF assms] by metis
  show "if amap l j = None then sarray_erase l j = Inl Aborted
     else \<exists>l'. sarray_erase l j = Inr l' \<and> amap l' = (amap l)(j := None) \<and> sarray_ok l'"
    using sarray_erase_absent [OF assms] sarray_erase_ok [OF assms] by metis
  show "sarray_get l j = Inr (if amap l j = None then None else Some (amap l j))"
    by (rule sarray_get_eq [OF assms])
  show "\<exists>ys. sarray_iterate_from l 0 = Inr ys \<and> distinct (map fst ys) \<and>
       set (map fst ys) = dom (amap l) \<and> (\<forall>(i, x) \<in> set ys. amap l i = x)"
    using sarray_iterate_from_ok [OF assms, of 0] numbered_listing [OF sarray_okD(5) [OF assms]]
      amap_numbered [OF assms] dom_amap [OF assms]
    by (auto simp: comp_def image_image)
qed

theorem sarray_is_a_map_witness:
  "\<exists>i l'. sarray_emplace (new_sarray \<lparr>trivially_destructible = False, trivially_copyable = False,
        moved_from = (\<lambda>d. 0)\<rparr> 65536 4 16384 (\<lambda>i. 0) (zero_memory 0)) (7::nat) = Inr (i, l') \<and>
      amap l' = [i \<mapsto> 7] \<and> sarray_ok l'"
proof -
  let ?tr = "\<lparr>trivially_destructible = False, trivially_copyable = False, moved_from = (\<lambda>d. 0::nat)\<rparr>"
  let ?l = "new_sarray ?tr 65536 4 16384 (\<lambda>i. 0) (zero_memory 0)"
  have ok: "sarray_ok ?l" "amap ?l = Map.empty"
    by (rule sarray_ok_new; simp add: NodeMetadataSize_def)+
  have "cap (aSparse ?l) + NodesPerPage (aSparse ?l) \<le> 2 ^ 32"
    by (simp add: new_sarray_def NodeMetadataSize_def)
  then show ?thesis using sarray_is_a_map [OF ok(1), of 7 0] ok(2) by auto
qed

text \<open>
  The destructor does not stop at the count: for a type with a destructor it destroys every
  block of every dense page, so unless the pages are exactly full it runs \<open>~TData\<close> on storage in
  which no object lives; the living objects it destroys once each.
\<close>

theorem sarray_destroys_raw_storage:
  assumes "sarray_ok l" and "\<not> trivially_destructible (aTraits l)"
  shows "sarray_destroyed l = [0..<aPages l * aBlocksPerPage l] \<and>
    {b \<in> set (sarray_destroyed l). aData l b \<noteq> None} = {..<aCount l} \<and>
    card {b \<in> set (sarray_destroyed l). aData l b = None} = aPages l * aBlocksPerPage l - aCount l"
proof -
  note K = sarray_okD [OF assms(1)]
  have pages: "concat (map (\<lambda>page. map (\<lambda>b. page * m + b) [0..<m]) [0..<k]) = [0..<k * m]"
    for k m :: nat
  proof (induction k)
    case (Suc k)
    have "map (\<lambda>b. k * m + b) [0..<m] = [k * m..<k * m + m]"
      using map_add_upt [of "k * m" m] by (simp add: add.commute)
    then show ?case using Suc upt_add_eq_append [of 0 "k * m" m] by (simp add: add.commute)
  qed simp
  have all: "sarray_destroyed l = [0..<aPages l * aBlocksPerPage l]"
    using pages assms(2) by (simp add: sarray_destroyed_def)
  have lives: "aData l b = None \<longleftrightarrow> aCount l \<le> b" for b
    using K(7) [of b] K(8) [OF assms(2), of b] by (cases "b < aCount l") auto
  have "{b \<in> set (sarray_destroyed l). aData l b \<noteq> None} = {..<aCount l}"
    using K(6) by (auto simp: all lives)
  moreover have "{b \<in> set (sarray_destroyed l). aData l b = None} =
      {aCount l..<aPages l * aBlocksPerPage l}"
    by (auto simp: all lives)
  ultimately show ?thesis using all by simp
qed

theorem sarray_destroys_raw_storage_witness:
  "\<exists>l :: nat sarray. sarray_ok l \<and> aCount l = 1 \<and> aPages l = 1 \<and>
     sarray_destroyed l = [0..<2] \<and> card {b \<in> set (sarray_destroyed l). aData l b = None} = 1"
proof -
  let ?tr = "\<lparr>trivially_destructible = False, trivially_copyable = False, moved_from = (\<lambda>d. 0::nat)\<rparr>"
  let ?n = "new_sarray ?tr 16 4 100 (\<lambda>i. 0) (zero_memory 0)"
  have ok: "sarray_ok ?n" by (rule sarray_ok_new) (simp_all add: NodeMetadataSize_def)
  obtain i l where l: "sarray_emplace ?n 7 = Inr (i, l)" "sarray_ok l"
    by (rule sarray_emplace_ok [OF ok, of 7]) (simp_all add: new_sarray_def NodeMetadataSize_def)
  then have f: "aCount l = 1" "aPages l = 1" "aBlocksPerPage l = 2" "aTraits l = ?tr"
    by (auto simp: sarray_emplace_def new_sarray_def write_slot_def adense_grow_eq Let_def
        adense_block_def bindR_eq_Inr)
  have "\<not> trivially_destructible (aTraits l)" unfolding f by simp
  note D = sarray_destroys_raw_storage [OF l(2) this]
  have "sarray_destroyed l = [0..<2]" using D f by simp
  moreover have "card {b \<in> set (sarray_destroyed l). aData l b = None} =
      aPages l * aBlocksPerPage l - aCount l" using D by (elim conjE)
  then have "card {b \<in> set (sarray_destroyed l). aData l b = None} = 1" unfolding f by simp
  ultimately show ?thesis using f l(2) by blast
qed

end
