(* ===== verification/Free_List_Pool.thy ===== *)
theory Free_List_Pool
  imports Prelude
begin

text \<open>
  \<open>FreeListPool<T>\<close> of Util/MemoryPool/FreeListPool.h: blocks handed out and taken back through a
  singly linked free list; the \<open>Next\<close> link of a block in use is null, which \<open>Release\<close> checks.
  A block is named by its position, page number times \<open>BlocksPerPage\<close> plus block number.
\<close>

section \<open>State and operations\<close>

record flpool =
  BlocksPerPage :: nat
  fPages :: nat
  fNext :: "nat \<Rightarrow> ptr"
  head :: ptr

definition new_flpool :: "nat \<Rightarrow> (nat \<Rightarrow> ptr) \<Rightarrow> flpool" where
  "new_flpool blocksPerPage raw =
     \<lparr>BlocksPerPage = blocksPerPage, fPages = 0, fNext = raw, head = None\<rparr>"

text \<open>The loop over the blocks of a new page, last to first; \<open>p\<close> is \<open>nextNode\<close>.\<close>

fun link_page :: "nat \<Rightarrow> nat \<Rightarrow> ptr \<Rightarrow> (nat \<Rightarrow> ptr) \<Rightarrow> ptr \<times> (nat \<Rightarrow> ptr)" where
  "link_page base 0 p nx = (p, nx)"
| "link_page base (Suc i) p nx = link_page base i (Some (base + i)) (nx(base + i := p))"

definition Acquire :: "flpool \<Rightarrow> (nat \<times> flpool) res" where
  "Acquire l =
     (let l1 = (case head l of
                  None \<Rightarrow> (case link_page (fPages l * BlocksPerPage l) (BlocksPerPage l) None (fNext l) of
                             (p, nx) \<Rightarrow> l\<lparr>fPages := Suc (fPages l), fNext := nx, head := p\<rparr>)
                | Some _ \<Rightarrow> l)
      in case head l1 of
           None \<Rightarrow> Inl NullDeref
         | Some n \<Rightarrow>
             let l2 = l1\<lparr>head := fNext l1 n\<rparr>
             in Inr (n, l2\<lparr>fNext := (fNext l2)(n := None)\<rparr>))"

definition Release :: "flpool \<Rightarrow> nat \<Rightarrow> flpool res" where
  "Release l node =
     (if fNext l node \<noteq> None then Inl ScrashAborted
      else let l1 = l\<lparr>fNext := (fNext l)(node := head l)\<rparr>
           in Inr (l1\<lparr>head := Some node\<rparr>))"

fun acquire_many :: "nat \<Rightarrow> flpool \<Rightarrow> (nat list \<times> flpool) res" where
  "acquire_many 0 l = Inr ([], l)"
| "acquire_many (Suc k) l =
     bindR (Acquire l) (\<lambda>(a, l'). bindR (acquire_many k l') (\<lambda>(as, l''). Inr (a # as, l'')))"

section \<open>The free list\<close>

definition fcap :: "flpool \<Rightarrow> nat" where
  "fcap l = fPages l * BlocksPerPage l"

text \<open>The free blocks, in the order they will be handed out; the others are in use.\<close>

definition free_list :: "flpool \<Rightarrow> nat list \<Rightarrow> bool" where
  "free_list l fs \<longleftrightarrow>
     0 < BlocksPerPage l \<and> chain (fNext l) (head l) fs None \<and> distinct fs \<and> set fs \<subseteq> {..<fcap l} \<and>
     (\<forall>a<fcap l. a \<notin> set fs \<longrightarrow> fNext l a = None)"

definition in_use :: "flpool \<Rightarrow> nat list \<Rightarrow> nat set" where
  "in_use l fs = {..<fcap l} - set fs"

lemma free_listD:
  assumes "free_list l fs"
  shows "0 < BlocksPerPage l" "chain (fNext l) (head l) fs None" "distinct fs" "set fs \<subseteq> {..<fcap l}"
    "\<And>a. a < fcap l \<Longrightarrow> a \<notin> set fs \<Longrightarrow> fNext l a = None"
  using assms by (auto simp: free_list_def)

lemma link_page_fields:
  "snd (link_page base n p nx) a =
     (if base \<le> a \<and> a < base + n then (if Suc a = base + n then p else Some (Suc a)) else nx a)"
  by (induction n arbitrary: p nx) (auto simp: less_Suc_eq)

lemma link_page_head: "fst (link_page base n p nx) = (if n = 0 then p else Some base)"
  by (induction n arbitrary: p nx) auto

lemma link_page_chain:
  assumes "0 < n"
  shows "chain (snd (link_page base n None nx)) (Some base) [base..<base + n] None"
  by (rule chain_upt) (use assms in \<open>auto simp: link_page_fields\<close>)

lemma acquire_pops:
  assumes F: "free_list l (n # fs)"
  obtains l' where "Acquire l = Inr (n, l')" "free_list l' fs" "fcap l' = fcap l"
proof -
  note K = free_listD [OF F]
  have h: "head l = Some n" "chain (fNext l) (fNext l n) fs None" "n \<notin> set fs" using K(2,3) by auto
  define l' where "l' = l\<lparr>head := fNext l n, fNext := (fNext l)(n := None)\<rparr>"
  have "Acquire l = Inr (n, l')" using h by (simp add: Acquire_def l'_def Let_def)
  moreover have "free_list l' fs" using K h by (auto simp: free_list_def l'_def fcap_def)
  ultimately show thesis using that by (simp add: l'_def fcap_def)
qed

lemma acquire_ok:
  assumes F: "free_list l fs"
  obtains a l' fs' where "Acquire l = Inr (a, l')" "free_list l' fs'" "a \<notin> in_use l fs"
    "in_use l' fs' = insert a (in_use l fs)"
proof (cases fs)
  case (Cons n gs)
  then obtain l' where l': "Acquire l = Inr (n, l')" "free_list l' gs" "fcap l' = fcap l"
    using acquire_pops F by metis
  moreover have "n \<notin> set gs" "n < fcap l" using free_listD(3,4) [OF F] Cons by auto
  ultimately show thesis using that [of n l' gs] Cons by (auto simp: in_use_def)
next
  case Nil
  note K = free_listD [OF F]
  let ?n = "BlocksPerPage l" and ?c = "fcap l"
  define l1 where "l1 = l\<lparr>fPages := Suc (fPages l),
    fNext := snd (link_page ?c ?n None (fNext l)), head := Some ?c\<rparr>"
  have h: "head l = None" using K(2) Nil by simp
  have c1: "fcap l1 = ?c + ?n" by (simp add: l1_def fcap_def)
  have "Acquire l = Acquire l1"
    using h K(1) by (simp add: Acquire_def l1_def fcap_def Let_def split_beta link_page_head)
  moreover have "free_list l1 [?c..<?c + ?n]"
    using K Nil link_page_chain [OF K(1), of ?c "fNext l"]
    by (auto simp: free_list_def c1) (auto simp: l1_def link_page_fields)
  then have "free_list l1 (?c # [Suc ?c..<?c + ?n])" using K(1) by (simp add: upt_conv_Cons)
  then obtain l' where "Acquire l1 = Inr (?c, l')" "free_list l' [Suc ?c..<?c + ?n]" "fcap l' = fcap l1"
    by (rule acquire_pops)
  moreover have "{..<?c + ?n} - {Suc ?c..<?c + ?n} = insert ?c {..<?c}" using K(1) by auto
  ultimately show thesis
    using that [of ?c l' "[Suc ?c..<?c + ?n]"] Nil c1 by (simp add: in_use_def)
qed

lemma release_in_use:
  assumes F: "free_list l fs" and a: "a \<in> in_use l fs"
  obtains l' where "Release l a = Inr l'" "free_list l' (a # fs)" "in_use l' (a # fs) = in_use l fs - {a}"
proof -
  note K = free_listD [OF F]
  define l' where "l' = l\<lparr>fNext := (fNext l)(a := head l), head := Some a\<rparr>"
  have "Release l a = Inr l'" using K(5) [of a] a by (simp add: Release_def l'_def in_use_def)
  moreover have "free_list l' (a # fs)" using K a by (auto simp: free_list_def l'_def fcap_def in_use_def)
  ultimately show thesis using that by (auto simp: in_use_def l'_def fcap_def)
qed

lemma acquire_many_free:
  assumes "free_list l (as @ fs)"
  shows "\<exists>l'. acquire_many (length as) l = Inr (as, l') \<and> free_list l' fs"
  using assms
proof (induction as arbitrary: l)
  case (Cons a as)
  then obtain l1 where l1: "Acquire l = Inr (a, l1)" "free_list l1 (as @ fs)"
    using acquire_pops [of l a "as @ fs"] by auto
  with Cons.IH [OF l1(2)] show ?case by auto
qed simp

lemma free_list_new: "0 < n \<Longrightarrow> free_list (new_flpool n raw) [] \<and> in_use (new_flpool n raw) [] = {}"
  by (simp add: free_list_def new_flpool_def fcap_def in_use_def)

section \<open>Properties\<close>

text \<open>
  Used as documented, the pool hands out blocks not in use: \<open>Acquire\<close> always returns such a
  block, extending by a page when none is free; \<open>Release\<close> of a block in use makes it free and the
  next one to be handed out; and a second release of a block is stopped whenever that block is
  not the last one of the free list.
\<close>

theorem pool_acquire_release:
  assumes "free_list l fs"
  shows "(\<exists>a l' fs'. Acquire l = Inr (a, l') \<and> free_list l' fs' \<and> a \<notin> in_use l fs \<and>
      in_use l' fs' = insert a (in_use l fs)) \<and>
    (a \<in> in_use l fs \<longrightarrow> (\<exists>l' l''. Release l a = Inr l' \<and> free_list l' (a # fs) \<and>
      in_use l' (a # fs) = in_use l fs - {a} \<and> Acquire l' = Inr (a, l''))) \<and>
    (a \<in> set (butlast fs) \<longrightarrow> Release l a = Inl ScrashAborted)"
proof (intro conjI impI)
  show "\<exists>a l' fs'. Acquire l = Inr (a, l') \<and> free_list l' fs' \<and> a \<notin> in_use l fs \<and>
      in_use l' fs' = insert a (in_use l fs)"
    using acquire_ok [OF assms] by metis
  show "\<exists>l' l''. Release l a = Inr l' \<and> free_list l' (a # fs) \<and>
      in_use l' (a # fs) = in_use l fs - {a} \<and> Acquire l' = Inr (a, l'')" if "a \<in> in_use l fs"
    using release_in_use [OF assms that] acquire_pops [of _ a fs] by metis
  assume "a \<in> set (butlast fs)"
  then have "fs \<noteq> []" by auto
  obtain xs ys where "butlast fs = xs @ a # ys" using \<open>a \<in> set (butlast fs)\<close> by (meson split_list)
  then have "fs = xs @ a # ys @ [last fs]" using append_butlast_last_id [OF \<open>fs \<noteq> []\<close>] by simp
  then have "chain (fNext l) (head l) (xs @ a # ys @ [last fs]) None" using free_listD(2) [OF assms] by simp
  then have "chain (fNext l) (fNext l a) (ys @ [last fs]) None" by (auto simp: chain_append)
  then have "fNext l a \<noteq> None" by (cases "fNext l a") (simp_all add: Nil_is_append_conv)
  then show "Release l a = Inl ScrashAborted" by (simp add: Release_def)
qed

theorem pool_acquire_release_witness:
  "(\<exists>a l' fs'. Acquire (new_flpool 4 (\<lambda>a. None)) = Inr (a, l') \<and> free_list l' fs' \<and>
     in_use l' fs' = {a})"
  using pool_acquire_release [of "new_flpool 4 (\<lambda>a. None)" "[]"] free_list_new [of 4 "\<lambda>a. None"]
  by auto

text \<open>
  The check of \<open>Release\<close> reads \<open>Next\<close>, which is null for a block in use and for the last block
  of the free list as well.  Releasing that block a second time passes: the pool hands it out,
  is then back in the state in which it is free, and hands it out again after the other free
  blocks.
\<close>

theorem pool_double_release:
  assumes "free_list l (fs @ [a])"
  shows "\<exists>l' l''. Release l a = Inr l' \<and> Acquire l' = Inr (a, l) \<and>
    acquire_many (length fs + 2) l' = Inr (a # fs @ [a], l'')"
proof -
  note K = free_listD [OF assms]
  have a: "fNext l a = None" using K(2) by (auto simp: chain_append)
  define l' where "l' = l\<lparr>fNext := (fNext l)(a := head l), head := Some a\<rparr>"
  have r: "Release l a = Inr l'" using a by (simp add: Release_def l'_def)
  have "(fNext l)(a := None) = fNext l" using a by (rule fun_upd_idem)
  then have q: "Acquire l' = Inr (a, l)" by (cases l) (simp add: Acquire_def l'_def Let_def)
  obtain l'' where "acquire_many (length (fs @ [a])) l = Inr (fs @ [a], l'')"
    using acquire_many_free [of l "fs @ [a]" "[]"] assms by auto
  with q have "acquire_many (length fs + 2) l' = Inr (a # fs @ [a], l'')" by simp
  with r q show ?thesis by blast
qed

theorem pool_double_release_witness:
  "\<exists>l' l''. Release \<lparr>BlocksPerPage = 2, fPages = 1, fNext = [0 \<mapsto> 1], head = Some 0\<rparr> 1 = Inr l' \<and>
     acquire_many (length [0::nat] + 2) l' = Inr ([1, 0, 1], l'')"
proof -
  have "free_list \<lparr>BlocksPerPage = 2, fPages = 1, fNext = [0 \<mapsto> 1], head = Some 0\<rparr> ([0] @ [1])"
    by (auto simp: free_list_def fcap_def)
  from pool_double_release [OF this] show ?thesis unfolding append_Cons append_Nil by blast
qed

end
