(* ===== verification/Entities.thy ===== *)
theory Entities
  imports Sparse_List
begin

text \<open>
  Entity handles (Entity.h) and the entity manager (EntityManager.h): a handle packs a 12-bit
  version above a 20-bit id; the manager keeps the version of each id in the slots of an
  \<open>IndexedUnmanagedList<uint32_t>\<close> and steps it each time the id is given out.
\<close>

unbundle bit_operations_syntax

section \<open>Handles\<close>

definition VersionBitSize :: nat where
  "VersionBitSize = 12"

definition IdBitSize :: nat where
  "IdBitSize = 4 * 8 - VersionBitSize"

definition NullId :: u32 where
  "NullId = push_bit IdBitSize 1 - 1"

datatype entity = EntityData (edata: u32)

text \<open>\<open>Entity(id, version)\<close> and the default constructor.\<close>

definition Entity :: "u32 \<Rightarrow> u32 \<Rightarrow> entity" where
  "Entity ident version =
     EntityData (push_bit IdBitSize version OR (ident AND (push_bit IdBitSize 1 - 1)))"

definition NullEntity :: entity where
  "NullEntity = EntityData (- 1)"

definition GetId :: "entity \<Rightarrow> u32" where
  "GetId e = edata e AND (push_bit IdBitSize 1 - 1)"

definition GetVersion :: "entity \<Rightarrow> u32" where
  "GetVersion e = drop_bit IdBitSize (edata e)"

definition IsNullEntity :: "entity \<Rightarrow> bool" where
  "IsNullEntity e \<longleftrightarrow> e = NullEntity"

lemma id_mask: "push_bit IdBitSize 1 - 1 = (mask 20 :: u32)"
  by (simp add: IdBitSize_def VersionBitSize_def mask_eq_exp_minus_1)

lemma GetId_eq: "GetId e = take_bit 20 (edata e)"
  by (simp only: GetId_def id_mask take_bit_eq_mask)

lemma GetVersion_eq: "GetVersion e = drop_bit 20 (edata e)"
  by (simp add: GetVersion_def IdBitSize_def VersionBitSize_def)

lemma Entity_eq: "Entity i v = EntityData (push_bit 20 v OR take_bit 20 i)"
  unfolding Entity_def id_mask take_bit_eq_mask by (simp add: IdBitSize_def VersionBitSize_def)

lemma GetId_Entity: "GetId (Entity i v) = take_bit 20 i"
  unfolding GetId_eq Entity_eq entity.sel by (rule bit_word_eqI) (auto simp: bit_simps)

lemma GetVersion_Entity: "GetVersion (Entity i v) = take_bit 12 v"
  unfolding GetVersion_eq Entity_eq entity.sel by (rule bit_word_eqI) (auto simp: bit_simps)

lemma Entity_Get: "Entity (GetId e) (GetVersion e) = e"
proof (cases e)
  case (EntityData w)
  have "push_bit 20 (drop_bit 20 w) OR take_bit 20 (take_bit 20 w) = w"
    by (rule bit_word_eqI) (auto simp: bit_simps)
  then show ?thesis by (simp add: EntityData Entity_eq GetId_eq GetVersion_eq)
qed

lemma entity_eq_iff: "e = e' \<longleftrightarrow> GetId e = GetId e' \<and> GetVersion e = GetVersion e'"
  by (metis Entity_Get)

lemma take_bit_small: "unat (w::u32) < 2 ^ n \<Longrightarrow> take_bit n w = w"
  by (metis take_bit_nat_eq_self unsigned_take_bit_eq unsigned_word_eqI)

lemma unat_eq: "(w::u32) = v \<longleftrightarrow> unat w = unat v"
  by (auto intro: unsigned_word_eqI)

section \<open>The entity manager\<close>

text \<open>\<open>VersionBlockInitializer\<close> clears the version of a new slot.\<close>

definition VersionBlockInitializer :: "nat \<Rightarrow> u32 \<Rightarrow> u32" where
  "VersionBlockInitializer index block = 0"

definition new_emanager :: "nat \<Rightarrow> u32 plist \<Rightarrow> u32 plist" where
  "new_emanager pageSize raw = new_plist pageSize 4 VersionBlockInitializer raw"

definition GetIncrementVersion :: "u32 \<Rightarrow> u32" where
  "GetIncrementVersion version = (version + 1) AND (push_bit VersionBitSize 1 - 1)"

definition em_create :: "u32 plist \<Rightarrow> (entity \<times> u32 plist) res" where
  "em_create l =
     bindR (create l) (\<lambda>(index, a, l1).
       let version = GetIncrementVersion (nData l1 a)
       in Inr (Entity (word_of_nat index) version, l1\<lparr>nData := (nData l1)(a := version)\<rparr>))"

definition em_createWithSpecificId :: "u32 plist \<Rightarrow> u32 \<Rightarrow> (entity \<times> u32 plist) res" where
  "em_createWithSpecificId l entityId =
     (if entityId = NullId then Inr (NullEntity, l)
      else bindR (createAt l (unat entityId)) (\<lambda>(p, l1). case p of
             None \<Rightarrow> Inr (NullEntity, l1)
           | Some a \<Rightarrow>
               let l2 = l1\<lparr>nData := (nData l1)(a := GetIncrementVersion (nData l1 a))\<rparr>
               in Inr (Entity entityId (nData l2 a), l2)))"

definition em_destroy :: "u32 plist \<Rightarrow> entity \<Rightarrow> u32 plist res" where
  "em_destroy l e =
     bindR (get l (unat (GetId e))) (\<lambda>version. case version of
       None \<Rightarrow> Inr l
     | Some a \<Rightarrow> if nData l a \<noteq> GetVersion e then Inr l else erase l (unat (GetId e)))"

definition em_get :: "u32 plist \<Rightarrow> u32 \<Rightarrow> entity res" where
  "em_get l entityId =
     bindR (get l (unat entityId)) (\<lambda>version. case version of
       None \<Rightarrow> Inr NullEntity | Some a \<Rightarrow> Inr (Entity entityId (nData l a)))"

text \<open>Iteration over the entities, through the iterator of the list.\<close>

definition em_iterate :: "u32 plist \<Rightarrow> entity list option" where
  "em_iterate l = map_option (map (\<lambda>(i, v). Entity (word_of_nat i) v)) (iterate l)"

section \<open>Valid handles\<close>

text \<open>A handle is held when its id is in use with its version.\<close>

definition held :: "u32 plist \<Rightarrow> entity \<Rightarrow> bool" where
  "held l e \<longleftrightarrow> unat (GetId e) \<in> live l \<and> nData l (unat (GetId e)) = GetVersion e"

definition em_ok :: "u32 plist \<Rightarrow> bool" where
  "em_ok l \<longleftrightarrow> 0 < NodesPerPage l \<and> (\<forall>a\<in>live l. take_bit 12 (nData l a) = nData l a)"

lemma increment_masked: "take_bit 12 (GetIncrementVersion v) = GetIncrementVersion v"
proof -
  have "push_bit VersionBitSize 1 - 1 = (mask 12 :: u32)"
    by (simp add: VersionBitSize_def mask_eq_exp_minus_1)
  then show ?thesis unfolding GetIncrementVersion_def take_bit_eq_mask by (simp only: and.assoc and.idem)
qed

lemma increment_eq: "GetIncrementVersion v = take_bit 12 (v + 1)"
  unfolding GetIncrementVersion_def take_bit_eq_mask
  by (simp add: VersionBitSize_def mask_eq_exp_minus_1)

lemma increment_many:
  "(GetIncrementVersion ^^ k) v = (if k = 0 then v else take_bit 12 (v + word_of_nat k))"
proof (induction k)
  case (Suc k)
  have int: "take_bit 12 (take_bit 12 x + 1) = take_bit 12 (x + 1)" for x :: int
    using take_bit_add [of 12 "take_bit 12 x" 1] take_bit_add [of 12 x 1]
    by (simp only: take_bit_take_bit min.idem)
  have "take_bit 12 (take_bit 12 x + 1) = take_bit 12 (x + 1)" for x :: u32
    by transfer (simp add: int)
  then have "take_bit 12 (take_bit 12 (v + word_of_nat k) + 1) = take_bit 12 (v + word_of_nat (Suc k))"
    by (simp add: ac_simps)
  with Suc show ?case by (cases "k = 0") (simp_all add: increment_eq)
qed simp

lemma unat_GetId: "unat (GetId e) < 2 ^ 20"
proof -
  have "unat (GetId e) = take_bit 20 (unat (edata e))" by (simp add: GetId_eq unsigned_take_bit_eq)
  then show ?thesis by (simp add: take_bit_eq_mod)
qed

lemma unat_GetId_Entity: "unat (GetId (Entity i v)) = unat i mod 2 ^ 20"
  unfolding GetId_Entity unsigned_take_bit_eq by (rule take_bit_eq_mod)

lemma held_id: "held l e \<Longrightarrow> held l e' \<Longrightarrow> GetId e = GetId e' \<Longrightarrow> e = e'"
  by (simp add: held_def entity_eq_iff)

lemma em_ok_new:
  assumes "NodeMetadataSize + 4 \<le> ps"
  shows "em_ok (new_emanager ps raw)" and "\<not> held (new_emanager ps raw) e"
  using assms
  by (simp_all add: em_ok_def new_emanager_def held_def NodeMetadataSize_def div_greater_zero_iff)

lemma em_get_eq:
  assumes "em_ok l"
  shows "em_get l i =
    Inr (if unat i \<in> live l then Entity i (nData l (unat i)) else NullEntity)"
  using assms ps.lookup_law [of l "unat i"] by (simp add: em_get_def em_ok_def)

lemma em_get_held:
  assumes ok: "em_ok l" and i: "unat i < 2 ^ 20"
  shows "\<exists>e. em_get l i = Inr e \<and> (if unat i \<in> live l then held l e \<and> GetId e = i else e = NullEntity)"
proof (cases "unat i \<in> live l")
  case True
  have "GetId (Entity i (nData l (unat i))) = i" using i by (simp add: GetId_Entity take_bit_small)
  moreover have "GetVersion (Entity i (nData l (unat i))) = nData l (unat i)"
    using ok True by (simp add: GetVersion_Entity em_ok_def)
  ultimately show ?thesis using True em_get_eq [OF ok, of i] by (simp add: held_def)
next
  case False
  then show ?thesis using em_get_eq [OF ok, of i] by simp
qed

lemma em_destroy_held:
  assumes ok: "em_ok l" and e: "held l e"
  obtains l' where "em_destroy l e = Inr l'" "em_ok l'" "live l' = live l - {unat (GetId e)}"
    "nData l' = nData l" "erase l (unat (GetId e)) = Inr l'"
proof -
  have n: "0 < NodesPerPage l" and i: "unat (GetId e) \<in> live l" using ok e by (simp_all add: em_ok_def held_def)
  obtain l' where l': "erase l (unat (GetId e)) = Inr l'" "NodesPerPage l' = NodesPerPage l"
    "nData l' = nData l" "live l' = live l - {unat (GetId e)}" by (rule erase_live [OF n i]) blast
  then show thesis
    using that [of l'] ok e ps.lookup_law [OF n] by (auto simp: em_destroy_def em_ok_def held_def)
qed

lemma em_destroy_stale: "em_ok l \<Longrightarrow> \<not> held l e \<Longrightarrow> em_destroy l e = Inr l"
  using ps.lookup_law [of l "unat (GetId e)"] by (auto simp: em_destroy_def em_ok_def held_def)

text \<open>A handle for a newly claimed slot, its version stepped.\<close>

lemma held_claimed:
  assumes ok: "em_ok l" and n: "0 < NodesPerPage l1" and L: "live l1 = insert (unat i) (live l)"
    and old: "\<And>a. a \<in> live l \<Longrightarrow> nData l1 a = nData l a"
    and i: "unat i \<notin> live l" "unat i < 2 ^ 20"
    and v: "v = GetIncrementVersion (nData l1 (unat i))"
    and l2: "l2 = l1\<lparr>nData := (nData l1)(unat i := v)\<rparr>"
  shows "em_ok l2" and "\<not> held l (Entity i v)" and "GetId (Entity i v) = i"
    and "held l2 x \<longleftrightarrow> held l x \<or> x = Entity i v"
proof -
  have lv: "live l2 = insert (unat i) (live l)" using L by (simp add: l2 live_def cap_def)
  have vm: "take_bit 12 v = v" by (simp add: v increment_masked)
  show g: "GetId (Entity i v) = i" using i(2) by (simp add: GetId_Entity take_bit_small)
  show "em_ok l2" using ok n old vm by (auto simp: em_ok_def lv) (simp_all add: l2)
  show "\<not> held l (Entity i v)" using i(1) g by (simp add: held_def)
  have "x = Entity i v \<longleftrightarrow> GetId x = i \<and> GetVersion x = v"
    using entity_eq_iff [of x "Entity i v"] g vm by (simp add: GetVersion_Entity)
  then show "held l2 x \<longleftrightarrow> held l x \<or> x = Entity i v"
    using old i(1) unfolding held_def lv by (auto simp: l2 unsigned_word_eqI)
qed

lemma em_specific_free:
  assumes ok: "em_ok l" and i: "unat i \<notin> live l" "unat i < 2 ^ 20" "i \<noteq> NullId"
  obtains l' v where "em_createWithSpecificId l i = Inr (Entity i v, l')" "em_ok l'"
    "\<not> held l (Entity i v)" "GetId (Entity i v) = i"
    "\<And>x. held l' x \<longleftrightarrow> held l x \<or> x = Entity i v"
    "unat i < cap l \<Longrightarrow> v = GetIncrementVersion (nData l (unat i))"
proof -
  have n: "0 < NodesPerPage l" using ok by (simp add: em_ok_def)
  obtain l1 where l1: "createAt l (unat i) = Inr (Some (unat i), l1)" "NodesPerPage l1 = NodesPerPage l"
    "live l1 = insert (unat i) (live l)" "\<And>a. a \<in> live l \<Longrightarrow> nData l1 a = nData l a"
    "nData l1 (unat i) = (if unat i < cap l then nData l (unat i)
       else BlockInit l (unat i mod 2 ^ 32) (nData l (unat i)))"
    by (rule createAt_free [OF n i(1)]) blast
  define v where "v = GetIncrementVersion (nData l1 (unat i))"
  define l2 where "l2 = l1\<lparr>nData := (nData l1)(unat i := v)\<rparr>"
  have "em_createWithSpecificId l i = Inr (Entity i v, l2)"
    using i(3) l1(1) by (simp add: em_createWithSpecificId_def Let_def v_def l2_def)
  moreover have "0 < NodesPerPage l1" using n l1(2) by simp
  note H = held_claimed [OF ok this l1(3,4) i(1,2) v_def l2_def]
  moreover have "unat i < cap l \<Longrightarrow> v = GetIncrementVersion (nData l (unat i))"
    using l1(5) by (simp add: v_def)
  ultimately show thesis using that by blast
qed

lemma em_specific_taken:
  assumes "em_ok l" and "unat i \<in> live l \<or> i = NullId"
  shows "em_createWithSpecificId l i = Inr (NullEntity, l)"
  using assms ps.claim_used [of l "unat i"] by (auto simp: em_createWithSpecificId_def em_ok_def)

lemma em_create_pool:
  assumes ok: "em_ok l" and R: "pool_rep l (fs, as)" and room: "cap l + NodesPerPage l \<le> 2 ^ 20"
  obtains e l' s where "em_create l = Inr (e, l')" "em_ok l'" "\<not> held l e"
    "\<And>x. held l' x \<longleftrightarrow> held l x \<or> x = e" "pool_rep l' s"
proof -
  obtain n l1 s where l1: "create l = Inr (n mod 2 ^ 32, n, l1)"
    "s = snd (pool_step (NodesPerPage l) (fs, as) OpCreate)" "pool_rep l1 s"
    "NodesPerPage l1 = NodesPerPage l" "n \<notin> live l" "live l1 = insert n (live l)"
    "\<And>a. a \<in> live l \<Longrightarrow> nData l1 a = nData l a"
    using create_pool [OF R] by metis
  have "cap l1 = length (fst s) + length (snd s)" "cap l = length fs + length as"
    using l1(3) R cap_lists_ok by (auto simp: pool_rep_def split_beta)
  moreover have "length (fst s) + length (snd s) \<le> length fs + length as + NodesPerPage l"
    using ok by (cases fs) (auto simp: l1(2) Let_def em_ok_def)
  moreover have "n < cap l1" using l1(6) live_less [of n l1] by simp
  ultimately have n: "n < 2 ^ 20" using room by simp
  define i :: u32 where "i = word_of_nat n"
  have un: "unat i = n" using n by (simp add: i_def unat_of_nat)
  define v where "v = GetIncrementVersion (nData l1 (unat i))"
  define l2 where "l2 = l1\<lparr>nData := (nData l1)(unat i := v)\<rparr>"
  have "em_create l = Inr (Entity i v, l2)"
    using l1(1) n by (simp add: em_create_def Let_def v_def l2_def un) (simp add: i_def)
  moreover have "0 < NodesPerPage l1" using ok l1(4) by (simp add: em_ok_def)
  note H = held_claimed [OF ok this l1(6)[folded un] l1(7) l1(5)[folded un] n[folded un] v_def l2_def]
  moreover have "pool_rep l2 s" using l1(3) by (simp add: l2_def)
  ultimately show thesis using that by blast
qed

section \<open>Any history\<close>

text \<open>
  What every history of the manager keeps, mixed calls included: the links stay inside the pages, and the nodes know their index.
\<close>

definition indexed :: "u32 plist \<Rightarrow> bool" where
  "indexed l \<longleftrightarrow> (\<forall>a<cap l. nIndex l a = a mod 2 ^ 32)"

definition em_inv :: "u32 plist \<Rightarrow> bool" where
  "em_inv l \<longleftrightarrow> em_ok l \<and> links_ok l \<and> indexed l"

lemma em_invD: "em_inv l \<Longrightarrow> em_ok l" "em_inv l \<Longrightarrow> links_ok l" "em_inv l \<Longrightarrow> indexed l"
  by (simp_all add: em_inv_def)

lemma em_inv_new: "NodeMetadataSize + 4 \<le> ps \<Longrightarrow> em_inv (new_emanager ps raw)"
  using em_ok_new(1) links_ok_new [of 4 ps] by (simp add: em_inv_def indexed_def new_emanager_def)

lemma grown_indexed:
  assumes "grown l l'" and "indexed l"
  shows "indexed l'"
  unfolding indexed_def
proof (intro allI impI)
  fix a
  assume "a < cap l'"
  then show "nIndex l' a = a mod 2 ^ 32"
    using grownD(4,5) [OF assms(1), of a] assms(2) by (cases "a < cap l") (auto simp: indexed_def)
qed

lemma createAt_indexed:
  assumes "0 < NodesPerPage l" and "createAt l i = Inr (p, l')" and "indexed l"
  shows "indexed l'"
proof (cases "i \<in> live l")
  case True
  then show ?thesis using createAt_live [OF assms(1)] assms by simp
next
  case False
  define l1 where l1: "l1 = grow_to (i div NodesPerPage l) l"
  have g: "grown l l1" using assms(1) l1 by (simp add: grow_to_grown)
  have "i < cap l1" using assms(1) l1 by (simp add: cap_grow_to)
  then have free: "\<not> nAllocated l1 i" using False grown_live [OF g] by (auto simp: live_def)
  obtain l2 where "createAt l i = Inr (Some i, l2)" "NodesPerPage l2 = NodesPerPage l1" "pages l2 = pages l1" "nIndex l2 = nIndex l1"
    by (rule createAt_fields [OF assms(1) l1 free])
  then show ?thesis using grown_indexed [OF g assms(3)] assms(2) by (simp add: indexed_def cap_def)
qed

lemma erase_indexed:
  assumes "0 < NodesPerPage l" and "erase l i = Inr l'" and "indexed l"
  shows "indexed l'"
proof (cases "i \<in> live l")
  case False
  then show ?thesis using erase_dead [OF assms(1)] assms by simp
next
  case True
  then have i: "i < cap l" "nAllocated l i" by (auto simp: live_def)
  have "\<exists>l'. erase l i = Inr l' \<and> nIndex l' = nIndex l \<and> NodesPerPage l' = NodesPerPage l \<and> pages l' = pages l"
    using i assms(1) unfolding erase_def Let_def
    by (cases "nPrev l i") (simp_all add: pages_le_iff split: option.split)
  then show ?thesis using assms(2,3) by (auto simp: indexed_def cap_def)
qed

text \<open>\<open>Create\<close> takes the free head, in use or not, or the first slot of a new page.\<close>

lemma create_pop:
  assumes "freeHead l = Some n"
  shows "\<exists>l'. create l = Inr (nIndex l n, n, l') \<and> NodesPerPage l' = NodesPerPage l \<and> pages l' = pages l \<and>
    nIndex l' = nIndex l \<and> nData l' = nData l \<and> nAllocated l' = (nAllocated l)(n := True)"
  using assms unfolding create_def Let_def by (simp split: option.split)

lemma create_slot:
  assumes ok: "links_ok l" and ix: "indexed l"
  obtains n l' where "create l = Inr (n mod 2 ^ 32, n, l')" "links_ok l'" "indexed l'" "n < cap l'"
    "cap l' \<le> cap l + NodesPerPage l" "live l' = insert n (live l)" "\<And>a. a \<in> live l \<Longrightarrow> nData l' a = nData l a"
    "n \<in> live l \<Longrightarrow> freeHead l = Some n"
proof -
  note result = that
  have pop: thesis if l1: "links_ok l1" "indexed l1" "grown l l1" "cap l1 \<le> cap l + NodesPerPage l" "create l = create l1"
    "freeHead l1 = Some n" "n \<in> live l \<Longrightarrow> freeHead l = Some n" for l1 n
  proof -
    obtain l' where l': "create l1 = Inr (nIndex l1 n, n, l')" "NodesPerPage l' = NodesPerPage l1" "pages l' = pages l1"
      "nIndex l' = nIndex l1" "nData l' = nData l1" "nAllocated l' = (nAllocated l1)(n := True)"
      using create_pop [OF l1(6)] by blast
    have c: "cap l' = cap l1" using l'(2,3) by (simp add: cap_def)
    have n: "n < cap l1" using links_okD(2) [OF l1(1)] l1(6) by simp
    have "live l' = insert n (live l)" using l'(6) c n grown_live [OF l1(3)] by (auto simp: live_def)
    moreover have "nData l' a = nData l a" if "a \<in> live l" for a
      using l'(5) grownD(4) [OF l1(3) live_less [OF that]] by simp
    moreover have "links_ok l'" using create_links [OF l1(1)] l'(1) by auto
    moreover have "indexed l'" using l1(2) l'(4) c by (simp add: indexed_def)
    ultimately show ?thesis using result [of n l'] l'(1) l1(2,4,5,7) n c by (simp add: indexed_def)
  qed
  have np: "0 < NodesPerPage l" by (rule links_okD(1) [OF ok])
  show thesis
  proof (cases "freeHead l")
    case (Some n)
    show ?thesis by (rule pop [OF ok ix grown_refl _ refl Some]) (simp_all add: Some)
  next
    case None
    have g: "grown l (add_free_page l)" by (rule grown_add_free_page [OF np])
    have "cap (add_free_page l) = cap l + NodesPerPage l" using grownD(1) [OF g] by (simp add: cap_def)
    moreover have "cap l \<notin> live l" by (auto dest: live_less)
    ultimately show ?thesis
      by (intro pop [OF links_ok_add_free_page [OF ok] grown_indexed [OF g ix] g _ create_extends [OF np None]
            add_free_page_fields(3) [OF np]]) simp_all
  qed
qed

section \<open>Reusing an id\<close>

text \<open>\<open>k\<close> times: destroy the current entity of the id and create it again.\<close>

fun em_recycle :: "nat \<Rightarrow> u32 plist \<Rightarrow> u32 \<Rightarrow> u32 plist res" where
  "em_recycle 0 l i = Inr l"
| "em_recycle (Suc k) l i =
     bindR (em_get l i) (\<lambda>e. bindR (em_destroy l e) (\<lambda>l1.
     bindR (em_createWithSpecificId l1 i) (\<lambda>(_, l2). em_recycle k l2 i)))"

lemma em_recycle_step:
  assumes ok: "em_ok l" and i: "unat i \<in> live l" "unat i < 2 ^ 20" "i \<noteq> NullId"
  obtains e l1 e' l2 where "em_get l i = Inr e" "em_destroy l e = Inr l1"
    "em_createWithSpecificId l1 i = Inr (e', l2)" "em_ok l2" "unat i \<in> live l2"
    "nData l2 (unat i) = GetIncrementVersion (nData l (unat i))"
proof -
  obtain e where e: "em_get l i = Inr e" "held l e" "GetId e = i"
    using em_get_held [OF ok i(2)] i(1) by auto
  obtain l1 where l1: "em_destroy l e = Inr l1" "em_ok l1" "live l1 = live l - {unat i}"
    "nData l1 = nData l" "erase l (unat i) = Inr l1"
    using em_destroy_held [OF ok e(2)] e(3) by metis
  have n: "0 < NodesPerPage l" using ok by (simp add: em_ok_def)
  have "cap l1 = cap l" using erase_live [OF n i(1)] l1(5) by (metis cap_def Inr_inject)
  then have c: "unat i < cap l1" using live_less [OF i(1)] by simp
  have "unat i \<notin> live l1" using l1(3) by simp
  then obtain l2 v where l2: "em_createWithSpecificId l1 i = Inr (Entity i v, l2)" "em_ok l2"
    "GetId (Entity i v) = i" "\<And>x. held l2 x \<longleftrightarrow> held l1 x \<or> x = Entity i v"
    "v = GetIncrementVersion (nData l1 (unat i))"
    using em_specific_free [OF l1(2) _ i(2,3)] c by blast
  have "held l2 (Entity i v)" using l2(4) by simp
  moreover have "take_bit 12 v = v" using l2(5) by (simp add: increment_masked)
  ultimately have "unat i \<in> live l2" "nData l2 (unat i) = v"
    using l2(3) by (simp_all add: held_def GetVersion_Entity)
  with e(1) l1(1,4) l2(1,2,5) show thesis using that by metis
qed

lemma em_recycle_version:
  assumes "em_ok l" and "unat i \<in> live l" "unat i < 2 ^ 20" "i \<noteq> NullId"
  shows "\<exists>l'. em_recycle k l i = Inr l' \<and> em_ok l' \<and> unat i \<in> live l' \<and>
    nData l' (unat i) = (GetIncrementVersion ^^ k) (nData l (unat i))"
  using assms
proof (induction k arbitrary: l)
  case (Suc k)
  obtain e l1 e' l2 where s: "em_get l i = Inr e" "em_destroy l e = Inr l1"
    "em_createWithSpecificId l1 i = Inr (e', l2)" "em_ok l2" "unat i \<in> live l2"
    "nData l2 (unat i) = GetIncrementVersion (nData l (unat i))"
    by (rule em_recycle_step [OF Suc.prems])
  with Suc.IH [OF s(4,5) Suc.prems(3,4)] show ?case by (simp add: funpow_swap1)
qed simp

lemma mod_add_same:
  assumes "a < (n::nat)"
  shows "(a + k) mod n = a \<longleftrightarrow> k mod n = 0"
proof -
  have r: "(a + k) mod n = (a + k mod n) mod n" by (simp add: mod_add_right_eq)
  have "k mod n < n" using assms by simp
  show ?thesis
  proof (cases "a + k mod n < n")
    case False
    moreover have "a + k mod n - n < n" using assms \<open>k mod n < n\<close> by linarith
    ultimately have "(a + k mod n) mod n = a + k mod n - n"
      using le_mod_geq [of n "a + k mod n"] by simp
    then show ?thesis unfolding r using assms \<open>k mod n < n\<close> False by linarith
  qed (simp add: r)
qed

lemma version_wraps:
  assumes "take_bit 12 (v::u32) = v"
  shows "(GetIncrementVersion ^^ k) v = v \<longleftrightarrow> k mod 4096 = 0"
proof (cases "k = 0")
  case False
  have v: "unat v < 4096"
  proof -
    have "unat v = take_bit 12 (unat v)" using assms unsigned_take_bit_eq by metis
    also have "\<dots> < 2 ^ 12" by (rule take_bit_nat_less_exp)
    finally show ?thesis by simp
  qed
  have "unat (take_bit 12 (v + word_of_nat k)) = (unat v + k) mod 4096"
    unfolding unsigned_take_bit_eq
    by (simp add: take_bit_eq_mod unat_word_ariths unat_of_nat mod_mod_cancel mod_add_right_eq)
  then have "take_bit 12 (v + word_of_nat k) = v \<longleftrightarrow> (unat v + k) mod 4096 = unat v"
    unfolding unat_eq by simp
  also have "\<dots> \<longleftrightarrow> k mod 4096 = 0" by (rule mod_add_same [OF v])
  finally show ?thesis using False by (simp add: increment_many)
qed simp

section \<open>Creating in any history\<close>

text \<open>A step of the version gives another version, so that the handle of a slot that is claimed again is not the old one.\<close>

lemma increment_differs: "take_bit 12 (v :: u32) = v \<Longrightarrow> GetIncrementVersion v \<noteq> v"
  using version_wraps [of v 1] by simp

lemma data_same:
  "cap (l\<lparr>nData := d\<rparr>) = cap l" "live (l\<lparr>nData := d\<rparr>) = live l" "links_ok (l\<lparr>nData := d\<rparr>) = links_ok l"
  "indexed (l\<lparr>nData := d\<rparr>) = indexed l"
proof -
  show c: "cap (l\<lparr>nData := d\<rparr>) = cap l" by (simp add: cap_def)
  show "live (l\<lparr>nData := d\<rparr>) = live l" "links_ok (l\<lparr>nData := d\<rparr>) = links_ok l" "indexed (l\<lparr>nData := d\<rparr>) = indexed l"
    unfolding live_def links_ok_def indexed_def in_pages_cong [OF c] c by simp_all
qed

lemma em_create_any:
  assumes inv: "em_inv l" and room: "cap l + NodesPerPage l \<le> 2 ^ 20"
  obtains e l' where "em_create l = Inr (e, l')" "em_inv l'" "\<not> held l e"
    "\<And>x. held l' x \<longleftrightarrow> held l x \<and> GetId x \<noteq> GetId e \<or> x = e"
    "unat (GetId e) \<in> live l \<Longrightarrow> freeHead l = Some (unat (GetId e))"
proof -
  note ok = em_invD(1) [OF inv]
  obtain n l1 where l1: "create l = Inr (n mod 2 ^ 32, n, l1)" "links_ok l1" "indexed l1" "n < cap l1"
    "cap l1 \<le> cap l + NodesPerPage l" "live l1 = insert n (live l)" "\<And>a. a \<in> live l \<Longrightarrow> nData l1 a = nData l a"
    "n \<in> live l \<Longrightarrow> freeHead l = Some n"
    by (rule create_slot [OF em_invD(2,3) [OF inv]]) blast
  have n: "n < 2 ^ 20" using l1(4,5) room by simp
  define i :: u32 where "i = word_of_nat n"
  have un: "unat i = n" using n by (simp add: i_def unat_of_nat)
  define v where "v = GetIncrementVersion (nData l1 n)"
  define l2 where "l2 = l1\<lparr>nData := (nData l1)(n := v)\<rparr>"
  let ?e = "Entity i v"
  have c: "em_create l = Inr (?e, l2)"
    using l1(1) n by (simp add: em_create_def Let_def v_def l2_def) (simp add: i_def)
  have g: "GetId ?e = i" using n by (simp add: GetId_Entity take_bit_small un)
  have vm: "take_bit 12 v = v" by (simp add: v_def increment_masked)
  have gv: "GetVersion ?e = v" by (simp add: GetVersion_Entity vm)
  have same: "cap l2 = cap l1" "live l2 = live l1" "links_ok l2 = links_ok l1" "indexed l2 = indexed l1"
    by (simp_all add: l2_def data_same)
  have "em_ok l2" using ok l1(2,6,7) vm links_okD(1) [OF l1(2)] same(2) by (auto simp: em_ok_def l2_def)
  then have "em_inv l2" using l1(2,3) same by (simp add: em_inv_def)
  moreover have "\<not> held l ?e"
  proof
    assume h: "held l ?e"
    then have "n \<in> live l" "nData l n = v" using g gv un by (simp_all add: held_def)
    moreover from this have "take_bit 12 (nData l n) = nData l n" using vm by simp
    ultimately show False using increment_differs [of "nData l n"] l1(7) v_def by metis
  qed
  moreover have "held l2 x \<longleftrightarrow> held l x \<and> GetId x \<noteq> GetId ?e \<or> x = ?e" for x
  proof (cases "GetId x = i")
    case True
    then have "held l2 x \<longleftrightarrow> GetVersion x = v" using l1(6) same(2) un by (auto simp: held_def l2_def)
    then show ?thesis using True g gv entity_eq_iff [of x ?e] by simp
  next
    case False
    then have "unat (GetId x) \<noteq> n" using un unat_eq by metis
    then have "held l2 x \<longleftrightarrow> held l x" using l1(6,7) same(2) by (auto simp: held_def l2_def)
    then show ?thesis using False g by auto
  qed
  ultimately show thesis using that [OF c] l1(8) g un by simp
qed

lemma em_destroy_exact:
  assumes inv: "em_inv l" and e: "held l e"
  shows "\<exists>l'. em_destroy l e = Inr l' \<and> em_inv l' \<and> (\<forall>x. held l' x \<longleftrightarrow> held l x \<and> x \<noteq> e)"
proof -
  note I = em_invD [OF inv]
  obtain l' where l': "em_destroy l e = Inr l'" "em_ok l'" "live l' = live l - {unat (GetId e)}"
    "nData l' = nData l" "erase l (unat (GetId e)) = Inr l'" using em_destroy_held [OF I(1) e] by metis
  have "held l' x \<longleftrightarrow> held l x \<and> x \<noteq> e" for x
  proof -
    have "held l x \<Longrightarrow> unat (GetId x) \<noteq> unat (GetId e) \<longleftrightarrow> x \<noteq> e"
      using held_id [OF _ e, of x] unat_eq by auto
    then show ?thesis using l'(3,4) unfolding held_def by auto
  qed
  moreover have "links_ok l'" using erase_links [OF I(2), of "unat (GetId e)"] l'(5) by auto
  moreover have "indexed l'" by (rule erase_indexed [OF links_okD(1) [OF I(2)] l'(5) I(3)])
  ultimately show ?thesis using l'(1,2) by (auto simp: em_inv_def)
qed

lemma em_specific_inv:
  assumes inv: "em_inv l" and i: "unat i \<notin> live l" "unat i < 2 ^ 20" "i \<noteq> NullId"
  shows "\<exists>h l'. em_createWithSpecificId l i = Inr (h, l') \<and> em_inv l' \<and> GetId h = i \<and> \<not> held l h \<and>
    (\<forall>x. held l' x \<longleftrightarrow> held l x \<or> x = h)"
proof -
  note I = em_invD [OF inv]
  obtain l' v where l': "em_createWithSpecificId l i = Inr (Entity i v, l')" "em_ok l'" "\<not> held l (Entity i v)"
    "GetId (Entity i v) = i" "\<And>x. held l' x \<longleftrightarrow> held l x \<or> x = Entity i v"
    by (rule em_specific_free [OF I(1) i]) blast
  obtain p l1 where c: "createAt l (unat i) = Inr (p, l1)" "links_ok l1" using createAt_links [OF I(2)] by blast
  have "indexed l1" by (rule createAt_indexed [OF links_okD(1) [OF I(2)] c(1) I(3)])
  moreover obtain d where "l' = l1\<lparr>nData := d\<rparr> \<or> l' = l1"
    using l'(1) c(1) i(3) by (auto simp: em_createWithSpecificId_def Let_def split: option.splits)
  ultimately have "links_ok l'" "indexed l'" using c(2) by (auto simp: data_same)
  then show ?thesis using l' by (auto simp: em_inv_def)
qed

lemma em_create_clean:
  assumes inv: "em_inv l" and room: "cap l + NodesPerPage l \<le> 2 ^ 20" and R: "pool_rep l s"
    and c: "em_create l = Inr (e, l')"
  shows "unat (GetId e) \<notin> live l"
proof -
  obtain fs as where s: "s = (fs, as)" by (cases s)
  obtain e2 l2 t where p: "em_create l = Inr (e2, l2)" "\<not> held l e2" "\<And>x. held l2 x \<longleftrightarrow> held l x \<or> x = e2" "pool_rep l2 t"
    using em_create_pool [OF em_invD(1) [OF inv] R [unfolded s] room] by metis
  obtain e3 l3 where q: "em_create l = Inr (e3, l3)" "\<And>x. held l3 x \<longleftrightarrow> held l x \<and> GetId x \<noteq> GetId e3 \<or> x = e3"
    by (rule em_create_any [OF inv room]) blast
  have e: "e2 = e" "l2 = l'" "e3 = e" "l3 = l'" using p(1) q(1) c by simp_all
  show ?thesis
  proof
    assume "unat (GetId e) \<in> live l"
    then obtain x where x: "em_get l (GetId e) = Inr x" "held l x" "GetId x = GetId e"
      using em_get_held [OF em_invD(1) [OF inv] unat_GetId, of e] by auto
    then have "x = e" using p(3) [of x] q(2) [of x] by (simp add: e)
    then show False using x(2) p(2) by (simp add: e)
  qed
qed

section \<open>Properties\<close>

text \<open>
  Packing and unpacking: the constructor keeps the low 20 bits of the id and the low 12 bits
  of the version, a handle is determined by its id and version, and the null handle is the one
  with id \<open>NullId\<close> and version 4095.
\<close>

theorem entity_packing:
  "unat (GetId (Entity i v)) = unat i mod 2 ^ 20 \<and>
   unat (GetVersion (Entity i v)) = unat v mod 2 ^ 12 \<and>
   Entity (GetId e) (GetVersion e) = e \<and>
   (IsNullEntity e \<longleftrightarrow> GetId e = NullId \<and> GetVersion e = 4095)"
proof (intro conjI)
  show "unat (GetId (Entity i v)) = unat i mod 2 ^ 20" by (rule unat_GetId_Entity)
  show "unat (GetVersion (Entity i v)) = unat v mod 2 ^ 12"
    unfolding GetVersion_Entity unsigned_take_bit_eq by (rule take_bit_eq_mod)
  show "Entity (GetId e) (GetVersion e) = e" by (rule Entity_Get)
  have "GetId NullEntity = NullId" by (simp add: GetId_def NullEntity_def NullId_def)
  moreover have "GetVersion NullEntity = 4095"
    by (simp add: GetVersion_eq NullEntity_def drop_bit_minus_one mask_eq_exp_minus_1)
  ultimately show "IsNullEntity e \<longleftrightarrow> GetId e = NullId \<and> GetVersion e = 4095"
    using entity_eq_iff [of e NullEntity] by (simp add: IsNullEntity_def)
qed

text \<open>
  C30.  The manager as a set of valid handles, at most one per id, in every history of the four operations (the invariant
  holds at the start and each operation keeps it), for ids that fit in 20 bits.  \<open>Get\<close> returns the valid handle of an id.  \<open>Destroy\<close>
  removes exactly the given handle, and ignores one that is not valid.  \<open>CreateWithSpecificId\<close> adds exactly one new handle,
  with this id, or returns the null handle when the id is in use or \<open>NullId\<close>.  \<open>Create\<close>, when a page more stays below
  $2^{20}$ slots, returns a handle that was not valid, and all other handles stay valid, except that of the same id: an id in use is
  taken when it is the stale head of the free list, and its old handle is lost.  In a history without \<open>CreateAt\<close> (a
  \<open>pool_rep\<close>) this does not happen, and no handle is lost.
\<close>

theorem entity_manager_handles:
  assumes "em_inv l" and "unat i < 2 ^ 20"
  shows "(\<exists>h. em_get l i = Inr h \<and> (if unat i \<in> live l then held l h \<and> GetId h = i else h = NullEntity)) \<and>
    (if held l e then \<exists>l'. em_destroy l e = Inr l' \<and> em_inv l' \<and> (\<forall>x. held l' x \<longleftrightarrow> held l x \<and> x \<noteq> e)
     else em_destroy l e = Inr l) \<and>
    (if unat i \<in> live l \<or> i = NullId then em_createWithSpecificId l i = Inr (NullEntity, l)
     else \<exists>h l'. em_createWithSpecificId l i = Inr (h, l') \<and> em_inv l' \<and> GetId h = i \<and> \<not> held l h \<and>
       (\<forall>x. held l' x \<longleftrightarrow> held l x \<or> x = h)) \<and>
    (cap l + NodesPerPage l \<le> 2 ^ 20 \<longrightarrow>
       (\<exists>h l'. em_create l = Inr (h, l') \<and> em_inv l' \<and> \<not> held l h \<and>
          (\<forall>x. held l' x \<longleftrightarrow> held l x \<and> GetId x \<noteq> GetId h \<or> x = h) \<and>
          (unat (GetId h) \<in> live l \<longrightarrow> freeHead l = Some (unat (GetId h)) \<and> (\<nexists>s. pool_rep l s)))) \<and>
    (NodeMetadataSize + 4 \<le> ps \<longrightarrow> em_inv (new_emanager ps raw) \<and> \<not> held (new_emanager ps raw) e)"
proof (intro conjI impI)
  note ok = em_invD(1) [OF assms(1)]
  show "\<exists>h. em_get l i = Inr h \<and> (if unat i \<in> live l then held l h \<and> GetId h = i else h = NullEntity)"
    by (rule em_get_held [OF ok assms(2)])
  show "if held l e then \<exists>l'. em_destroy l e = Inr l' \<and> em_inv l' \<and> (\<forall>x. held l' x \<longleftrightarrow> held l x \<and> x \<noteq> e)
     else em_destroy l e = Inr l"
    using em_destroy_exact [OF assms(1)] em_destroy_stale [OF ok] by simp
  show "if unat i \<in> live l \<or> i = NullId then em_createWithSpecificId l i = Inr (NullEntity, l)
     else \<exists>h l'. em_createWithSpecificId l i = Inr (h, l') \<and> em_inv l' \<and> GetId h = i \<and> \<not> held l h \<and>
       (\<forall>x. held l' x \<longleftrightarrow> held l x \<or> x = h)"
    using em_specific_taken [OF ok, of i] em_specific_inv [OF assms(1) _ assms(2)] by simp
  show "\<exists>h l'. em_create l = Inr (h, l') \<and> em_inv l' \<and> \<not> held l h \<and>
      (\<forall>x. held l' x \<longleftrightarrow> held l x \<and> GetId x \<noteq> GetId h \<or> x = h) \<and>
      (unat (GetId h) \<in> live l \<longrightarrow> freeHead l = Some (unat (GetId h)) \<and> (\<nexists>s. pool_rep l s))"
    if room: "cap l + NodesPerPage l \<le> 2 ^ 20"
  proof -
    obtain h l' where "em_create l = Inr (h, l')" "em_inv l'" "\<not> held l h"
      "\<And>x. held l' x \<longleftrightarrow> held l x \<and> GetId x \<noteq> GetId h \<or> x = h"
      "unat (GetId h) \<in> live l \<Longrightarrow> freeHead l = Some (unat (GetId h))"
      by (rule em_create_any [OF assms(1) room]) blast
    then show ?thesis using em_create_clean [OF assms(1) room] by blast
  qed
  show "em_inv (new_emanager ps raw)" "\<not> held (new_emanager ps raw) e" if "NodeMetadataSize + 4 \<le> ps"
    using em_inv_new em_ok_new(2) that by blast+
qed

theorem entity_manager_handles_witness:
  "\<exists>h l'. em_createWithSpecificId (new_emanager 16384 (zero_memory 0)) 5 = Inr (h, l') \<and>
     GetId h = 5 \<and> em_inv l' \<and> (\<forall>x. held l' x \<longleftrightarrow> x = h)"
proof -
  have inv: "em_inv (new_emanager 16384 (zero_memory 0))" "\<And>e. \<not> held (new_emanager 16384 (zero_memory 0)) e"
    by (rule em_inv_new em_ok_new(2); simp add: NodeMetadataSize_def)+
  have "live (new_emanager 16384 (zero_memory 0)) = {}" by (simp add: new_emanager_def)
  moreover have "(5::u32) \<noteq> NullId" by (simp add: NullId_def IdBitSize_def VersionBitSize_def)
  ultimately show ?thesis using entity_manager_handles [OF inv(1), of 5 NullEntity 16384 "zero_memory 0"] inv(2) by auto
qed

text \<open>
  C15.  Stale handles: after the entity of an id has been destroyed and created again \<open>k\<close> times, a
  handle from before is valid again only when \<open>k\<close> is a multiple of 4096; otherwise destroying it
  does nothing.
\<close>

theorem stale_handle_rejected:
  assumes "em_ok l" and "held l e" and "GetId e \<noteq> NullId"
  shows "\<exists>l'. em_recycle k l (GetId e) = Inr l' \<and> (held l' e \<longleftrightarrow> k mod 4096 = 0) \<and>
    (if k mod 4096 = 0 then em_get l' (GetId e) = Inr e else em_destroy l' e = Inr l')"
proof -
  let ?i = "GetId e"
  have lv: "unat ?i \<in> live l" and ver: "nData l (unat ?i) = GetVersion e"
    using assms(2) by (simp_all add: held_def)
  obtain l' where l': "em_recycle k l ?i = Inr l'" "em_ok l'" "unat ?i \<in> live l'"
    "nData l' (unat ?i) = (GetIncrementVersion ^^ k) (GetVersion e)"
    using em_recycle_version [OF assms(1) lv unat_GetId assms(3), of k] ver by auto
  have "take_bit 12 (GetVersion e) = GetVersion e"
    using assms(1) lv ver unfolding em_ok_def by metis
  then have h: "held l' e \<longleftrightarrow> k mod 4096 = 0" using l'(3,4) version_wraps by (simp add: held_def)
  moreover have "held l' e \<Longrightarrow> em_get l' ?i = Inr e"
    using em_get_held [OF l'(2) unat_GetId, of e] l'(3) held_id by metis
  moreover have "\<not> held l' e \<Longrightarrow> em_destroy l' e = Inr l'" by (rule em_destroy_stale [OF l'(2)])
  ultimately show ?thesis using l'(1) by auto
qed

theorem stale_handle_rejected_witness:
  "\<exists>l e l'. em_ok l \<and> held l e \<and> em_recycle 4095 l (GetId e) = Inr l' \<and> \<not> held l' e \<and>
     em_destroy l' e = Inr l'"
proof -
  have ok: "em_ok (new_emanager 16384 (zero_memory 0))"
    by (rule em_ok_new) (simp add: NodeMetadataSize_def)
  have "unat (5::u32) \<notin> live (new_emanager 16384 (zero_memory 0))" by (simp add: new_emanager_def)
  then obtain l v where l: "em_ok l" "GetId (Entity 5 v) = 5" "held l (Entity 5 v)"
    by (rule em_specific_free [OF ok]) (auto simp: NullId_def IdBitSize_def VersionBitSize_def)
  have "GetId (Entity 5 v) \<noteq> NullId"
    using l(2) by (simp add: NullId_def IdBitSize_def VersionBitSize_def)
  from stale_handle_rejected [OF l(1,3) this, of 4095] l(1,3) show ?thesis by auto
qed

text \<open>
  \<open>CreateWithSpecificId\<close> refuses \<open>NullId\<close> and nothing else that does not fit: for an unused id of
  more than 20 bits it claims the slot and returns a handle with a different id, so that
  destroying the returned handle cannot free the slot.
\<close>

theorem large_id_aliases:
  assumes "em_ok l" and "2 ^ 20 \<le> unat i" and "unat i \<notin> live l"
  shows "\<exists>h l'. em_createWithSpecificId l i = Inr (h, l') \<and> unat (GetId h) = unat i mod 2 ^ 20 \<and>
    (\<exists>l''. em_destroy l' h = Inr l'' \<and> unat i \<in> live l'')"
proof -
  have n: "0 < NodesPerPage l" using assms(1) by (simp add: em_ok_def)
  have "unat NullId < 2 ^ 20" by (simp add: NullId_def IdBitSize_def VersionBitSize_def)
  then have ni: "i \<noteq> NullId" using assms(2) by auto
  obtain l1 where l1: "createAt l (unat i) = Inr (Some (unat i), l1)" "NodesPerPage l1 = NodesPerPage l"
    "live l1 = insert (unat i) (live l)" by (rule createAt_free [OF n assms(3)]) blast
  define v where "v = GetIncrementVersion (nData l1 (unat i))"
  define l2 where "l2 = l1\<lparr>nData := (nData l1)(unat i := v)\<rparr>"
  let ?g = "unat (GetId (Entity i v))"
  have c: "em_createWithSpecificId l i = Inr (Entity i v, l2)"
    using ni l1(1) by (simp add: em_createWithSpecificId_def Let_def v_def l2_def)
  have g: "?g = unat i mod 2 ^ 20" by (rule unat_GetId_Entity)
  then have "?g \<noteq> unat i" using assms(2) by (metis mod_less_divisor not_le zero_less_numeral zero_less_power)
  have n2: "0 < NodesPerPage l2" and lv2: "unat i \<in> live l2"
    using n l1 by (simp_all add: l2_def live_def cap_def)
  have "\<exists>l''. em_destroy l2 (Entity i v) = Inr l'' \<and> unat i \<in> live l''"
  proof (cases "?g \<in> live l2")
    case True
    then obtain l'' where "erase l2 ?g = Inr l''" "live l'' = live l2 - {?g}"
      using ps.release_law [OF n2] by blast
    then show ?thesis using ps.lookup_law [OF n2, of ?g] True lv2 \<open>?g \<noteq> unat i\<close>
      by (auto simp: em_destroy_def)
  qed (use ps.lookup_law [OF n2, of ?g] lv2 in \<open>auto simp: em_destroy_def\<close>)
  with c g show ?thesis by blast
qed

theorem large_id_aliases_witness:
  "\<exists>h l' l''. em_createWithSpecificId (new_emanager 16384 (zero_memory 0)) 1048581 = Inr (h, l') \<and>
     unat (GetId h) = 5 \<and> em_destroy l' h = Inr l'' \<and> 1048581 \<in> live l''"
proof -
  have "em_ok (new_emanager 16384 (zero_memory 0))" by (rule em_ok_new) (simp add: NodeMetadataSize_def)
  moreover have "unat (1048581::u32) \<notin> live (new_emanager 16384 (zero_memory 0))"
    by (simp add: new_emanager_def)
  ultimately show ?thesis using large_id_aliases [of _ "1048581"] by fastforce
qed

end
