(* ===== verification/Registries.thy ===== *)
theory Registries
  imports Entities
begin

text \<open>
  The managers that keep objects per type: \<open>GlobalObjectManager\<close>, \<open>EventManager\<close> with its queues,
  \<open>ComponentManager\<close> and \<open>SystemManager\<close>, with the registrars that fill them.  A type is a value of
  a HOL type; the static member \<open>RuntimeOrder\<close> of each class is a function from types.
\<close>

section \<open>Types registered in order\<close>

definition UnregisteredRuntimeOrder :: u32 where
  "UnregisteredRuntimeOrder = - 1"

text \<open>
  The static orders of the classes and the vector of a manager.  Both \<open>GlobalObjectManager\<close> (a
  vector of objects) and \<open>EventManager\<close> (a vector of queues) have this shape.
\<close>

record ('t, 'o) registry =
  RuntimeOrder :: "'t \<Rightarrow> u32"
  objects :: "'o list"

definition new_registry :: "('t, 'o) registry" where
  "new_registry = \<lparr>RuntimeOrder = (\<lambda>t. UnregisteredRuntimeOrder), objects = []\<rparr>"

definition SetRuntimeOrder :: "('t, 'o) registry \<Rightarrow> 't \<Rightarrow> u32 \<Rightarrow> ('t, 'o) registry res" where
  "SetRuntimeOrder r t runtimeOrder =
     bindR (crash_cond (RuntimeOrder r t \<noteq> UnregisteredRuntimeOrder)) (\<lambda>_.
     Inr (r\<lparr>RuntimeOrder := (RuntimeOrder r)(t := runtimeOrder)\<rparr>))"

definition GetRuntimeOrder :: "('t, 'o) registry \<Rightarrow> 't \<Rightarrow> u32 res" where
  "GetRuntimeOrder r t =
     bindR (crash_cond (RuntimeOrder r t = UnregisteredRuntimeOrder)) (\<lambda>_. Inr (RuntimeOrder r t))"

text \<open>\<open>Register<T>()\<close>, \<open>x\<close> being the object \<open>make_unique\<close> constructs.\<close>

definition register_object :: "('t, 'o) registry \<Rightarrow> 't \<Rightarrow> 'o \<Rightarrow> ('t, 'o) registry res" where
  "register_object r t x =
     bindR (SetRuntimeOrder r t (word_of_nat (length (objects r)))) (\<lambda>r'.
     Inr (r'\<lparr>objects := objects r' @ [x]\<rparr>))"

text \<open>\<open>Get<T>()\<close>: the object at the order of the type.\<close>

definition object_of :: "('t, 'o) registry \<Rightarrow> 't \<Rightarrow> 'o res" where
  "object_of r t =
     bindR (GetRuntimeOrder r t) (\<lambda>k.
       if unat k < length (objects r) then Inr (objects r ! unat k) else Inl OutOfBounds)"

text \<open>Writing through the reference that \<open>Get<T>()\<close> returns.\<close>

definition set_object :: "('t, 'o) registry \<Rightarrow> 't \<Rightarrow> 'o \<Rightarrow> ('t, 'o) registry res" where
  "set_object r t x =
     bindR (object_of r t) (\<lambda>_. Inr (r\<lparr>objects := (objects r)[unat (RuntimeOrder r t) := x]\<rparr>))"

fun register_all :: "('t, 'o) registry \<Rightarrow> ('t \<times> 'o) list \<Rightarrow> ('t, 'o) registry res" where
  "register_all r [] = Inr r"
| "register_all r ((t, x) # xs) = bindR (register_object r t x) (\<lambda>r'. register_all r' xs)"

text \<open>The types registered and their objects, as an abstract map.\<close>

definition registered :: "('t, 'o) registry \<Rightarrow> 't \<Rightarrow> 'o option" where
  "registered r t =
     (if RuntimeOrder r t = UnregisteredRuntimeOrder then None
      else Some (objects r ! unat (RuntimeOrder r t)))"

definition registry_ok :: "('t, 'o) registry \<Rightarrow> bool" where
  "registry_ok r \<longleftrightarrow> length (objects r) < 2 ^ 32 \<and>
     (\<forall>t. RuntimeOrder r t \<noteq> UnregisteredRuntimeOrder \<longrightarrow> unat (RuntimeOrder r t) < length (objects r)) \<and>
     (\<forall>t u. RuntimeOrder r t \<noteq> UnregisteredRuntimeOrder \<longrightarrow> RuntimeOrder r t = RuntimeOrder r u \<longrightarrow> t = u)"

lemma registry_okD:
  assumes "registry_ok r"
  shows "length (objects r) < 2 ^ 32"
    "RuntimeOrder r t \<noteq> UnregisteredRuntimeOrder \<Longrightarrow> unat (RuntimeOrder r t) < length (objects r)"
    "RuntimeOrder r t \<noteq> UnregisteredRuntimeOrder \<Longrightarrow> RuntimeOrder r t = RuntimeOrder r u \<Longrightarrow> t = u"
  using assms by (auto simp: registry_ok_def)

lemma registry_ok_new: "registry_ok new_registry" "registered new_registry = Map.empty"
  by (auto simp: registry_ok_def new_registry_def registered_def)

lemma object_of_eq:
  assumes "registry_ok r"
  shows "object_of r t = (case registered r t of None \<Rightarrow> Inl Aborted | Some x \<Rightarrow> Inr x)"
  using registry_okD(2) [OF assms, of t]
  by (simp add: object_of_def GetRuntimeOrder_def registered_def)

lemma register_object_ok:
  assumes ok: "registry_ok r" and room: "length (objects r) < 2 ^ 32 - 1"
  shows "if registered r t = None
    then \<exists>r'. register_object r t x = Inr r' \<and> registry_ok r' \<and>
      registered r' = (registered r)(t \<mapsto> x) \<and> length (objects r') = Suc (length (objects r))
    else register_object r t x = Inl Aborted"
proof (cases "RuntimeOrder r t = UnregisteredRuntimeOrder")
  case False
  then show ?thesis by (simp add: registered_def register_object_def SetRuntimeOrder_def)
next
  case True
  note K = registry_okD [OF ok]
  let ?n = "length (objects r)"
  let ?k = "word_of_nat ?n :: u32"
  define r' where "r' = r\<lparr>RuntimeOrder := (RuntimeOrder r)(t := ?k), objects := objects r @ [x]\<rparr>"
  have un: "unat ?k = ?n" using room by (simp add: unat_of_nat)
  have uk: "?k \<noteq> UnregisteredRuntimeOrder"
  proof
    assume "?k = UnregisteredRuntimeOrder"
    then have "unat ?k = unat (- 1 :: u32)" by (simp add: UnregisteredRuntimeOrder_def)
    moreover have "unat (- 1 :: u32) = 2 ^ 32 - 1"
      by (simp add: unsigned_minus_1_eq_mask mask_eq_exp_minus_1)
    ultimately show False using un room by simp
  qed
  have old: "RuntimeOrder r u \<noteq> ?k" if "RuntimeOrder r u \<noteq> UnregisteredRuntimeOrder" for u
    using K(2) [OF that] un by auto
  have "register_object r t x = Inr r'"
    using True by (simp add: register_object_def SetRuntimeOrder_def r'_def)
  moreover have "registry_ok r'"
    unfolding registry_ok_def
  proof (intro conjI allI impI)
    show "length (objects r') < 2 ^ 32" using room by (simp add: r'_def)
    fix u v
    assume u: "RuntimeOrder r' u \<noteq> UnregisteredRuntimeOrder"
    show "unat (RuntimeOrder r' u) < length (objects r')"
      using u K(2) [of u] un by (auto simp: r'_def less_Suc_eq split: if_splits)
    assume "RuntimeOrder r' u = RuntimeOrder r' v"
    then show "u = v" using u K(3) [of u v] old [of u] old [of v] uk by (auto simp: r'_def split: if_splits)
  qed
  moreover have "registered r' = (registered r)(t \<mapsto> x)"
  proof
    fix u
    show "registered r' u = ((registered r)(t \<mapsto> x)) u"
      using un uk K(2) [of u] by (auto simp: registered_def r'_def nth_append)
  qed
  ultimately show ?thesis using True by (simp add: registered_def r'_def)
qed

lemma set_object_ok:
  assumes ok: "registry_ok r" and t: "registered r t \<noteq> None"
  shows "\<exists>r'. set_object r t x = Inr r' \<and> registry_ok r' \<and> registered r' = (registered r)(t \<mapsto> x)"
proof -
  note K = registry_okD [OF ok]
  have rt: "RuntimeOrder r t \<noteq> UnregisteredRuntimeOrder" using t by (simp add: registered_def split: if_splits)
  define r' where "r' = r\<lparr>objects := (objects r)[unat (RuntimeOrder r t) := x]\<rparr>"
  have "set_object r t x = Inr r'"
    using rt object_of_eq [OF ok, of t] by (simp add: set_object_def r'_def registered_def)
  moreover have "registry_ok r'" using ok by (simp add: registry_ok_def r'_def)
  moreover have "registered r' u = ((registered r)(t \<mapsto> x)) u" for u
  proof -
    have "unat (RuntimeOrder r t) = unat (RuntimeOrder r u) \<longleftrightarrow> t = u"
      using K(3) [OF rt, of u] unat_eq by auto
    then show ?thesis using K(2) [OF rt] K(2) [of u] rt by (auto simp: registered_def r'_def nth_list_update)
  qed
  ultimately show ?thesis by blast
qed

section \<open>Event queues\<close>

definition event_clear :: "('t, 'e list) registry \<Rightarrow> ('t, 'e list) registry" where
  "event_clear r = r\<lparr>objects := map (\<lambda>q. []) (objects r)\<rparr>"

definition event_push :: "('t, 'e list) registry \<Rightarrow> 't \<Rightarrow> 'e \<Rightarrow> ('t, 'e list) registry res" where
  "event_push r t e = bindR (object_of r t) (\<lambda>q. set_object r t (q @ [e]))"

definition events :: "('t, 'e list) registry \<Rightarrow> 't \<Rightarrow> 'e list res" where
  "events r t = object_of r t"

lemma event_push_ok:
  assumes "registry_ok r" and "registered r t = Some q"
  shows "\<exists>r'. event_push r t e = Inr r' \<and> registry_ok r' \<and> registered r' = (registered r)(t \<mapsto> q @ [e])"
  using set_object_ok [OF assms(1), of t "q @ [e]"] assms object_of_eq [OF assms(1), of t]
  by (simp add: event_push_def)

lemma event_clear_ok:
  assumes "registry_ok r"
  shows "registry_ok (event_clear r)"
    and "registered (event_clear r) = (\<lambda>t. map_option (\<lambda>q. []) (registered r t))"
  using assms registry_okD(2) [OF assms]
  by (auto simp: registry_ok_def event_clear_def registered_def fun_eq_iff)

text \<open>The events of the program and \<open>RegisterEvents\<close>.\<close>

datatype event_type = Event_SessionErased

definition RegisterEvents :: "(event_type, u32 list) registry \<Rightarrow> (event_type, u32 list) registry res" where
  "RegisterEvents r = register_object r Event_SessionErased []"

section \<open>Components\<close>

text \<open>
  The component classes and their members.  \<open>ord\<close>, the generated enumeration \<open>ComponentOrder\<close>, is
  a parameter.
\<close>

datatype component_type = HumanLikeBody | NameTag

datatype component = C_HumanLikeBody | C_NameTag (Name: string)

fun default_component :: "component_type \<Rightarrow> component" where
  "default_component HumanLikeBody = C_HumanLikeBody"
| "default_component NameTag = C_NameTag ''''"

text \<open>\<open>SparseSet<T>::Data\<close>, in a vector of owning pointers.\<close>

type_synonym sparse_set = "(entity \<times> component) list"

type_synonym component_manager = "sparse_set option list"

definition resize :: "nat \<Rightarrow> component_manager \<Rightarrow> component_manager" where
  "resize n v = take n v @ replicate (n - length v) None"

definition RegisterComponent ::
    "(component_type \<Rightarrow> u32) \<Rightarrow> component_manager \<Rightarrow> component_type \<Rightarrow> component_manager res" where
  "RegisterComponent ord v k =
     (let v1 = (if length v \<le> unat (ord k) then resize (unat (ord k + 1)) v else v)
      in if length v1 \<le> unat (ord k) then Inl OutOfBounds
         else bindR (crash_cond (v1 ! unat (ord k) \<noteq> None)) (\<lambda>_.
              Inr (v1[unat (ord k) := Some []])))"

text \<open>\<open>*sparseSets_[GetRuntimeOrder()]\<close>\<close>

definition sparse_set_of ::
    "(component_type \<Rightarrow> u32) \<Rightarrow> component_manager \<Rightarrow> component_type \<Rightarrow> sparse_set res" where
  "sparse_set_of ord v k =
     (if length v \<le> unat (ord k) then Inl OutOfBounds
      else case v ! unat (ord k) of None \<Rightarrow> Inl NullDeref | Some s \<Rightarrow> Inr s)"

text \<open>\<open>AttachComponentTo\<close> returns the position of the new component in the set.\<close>

definition AttachComponentTo ::
    "(component_type \<Rightarrow> u32) \<Rightarrow> component_manager \<Rightarrow> component_type \<Rightarrow> entity \<Rightarrow>
     (nat \<times> component_manager) res" where
  "AttachComponentTo ord v k e =
     bindR (sparse_set_of ord v k) (\<lambda>s.
     Inr (length s, v[unat (ord k) := Some (s @ [(e, default_component k)])]))"

definition Components ::
    "(component_type \<Rightarrow> u32) \<Rightarrow> component_manager \<Rightarrow> component_type \<Rightarrow> sparse_set res" where
  "Components ord v k = sparse_set_of ord v k"

text \<open>The loop of \<open>GetComponentOf\<close>: the position of the first component of the entity.\<close>

fun first_of :: "entity \<Rightarrow> nat \<Rightarrow> sparse_set \<Rightarrow> nat option" where
  "first_of e i [] = None"
| "first_of e i ((owner, c) # s) = (if e = owner then Some i else first_of e (Suc i) s)"

definition GetComponentOf ::
    "(component_type \<Rightarrow> u32) \<Rightarrow> component_manager \<Rightarrow> component_type \<Rightarrow> entity \<Rightarrow> nat option res" where
  "GetComponentOf ord v k e = bindR (sparse_set_of ord v k) (\<lambda>s. Inr (first_of e 0 s))"

definition RegisterComponents ::
    "(component_type \<Rightarrow> u32) \<Rightarrow> component_manager \<Rightarrow> component_manager res" where
  "RegisterComponents ord v =
     bindR (RegisterComponent ord v HumanLikeBody) (\<lambda>v1. RegisterComponent ord v1 NameTag)"

lemma first_of_append:
  "first_of e i (s @ [(e', c)]) =
     (case first_of e i s of Some j \<Rightarrow> Some j
      | None \<Rightarrow> if e = e' then Some (i + length s) else None)"
  by (induction e i s rule: first_of.induct) (auto split: option.splits)

lemma RegisterComponent_ok:
  assumes o: "unat (ord k) < 2 ^ 32 - 1" and new: "\<And>s. sparse_set_of ord v k \<noteq> Inr s"
  obtains v' where "RegisterComponent ord v k = Inr v'" "sparse_set_of ord v' k = Inr []"
    "\<And>j s. unat (ord j) \<noteq> unat (ord k) \<Longrightarrow> sparse_set_of ord v' j = Inr s \<longleftrightarrow> sparse_set_of ord v j = Inr s"
proof -
  let ?n = "unat (ord k)"
  have un: "unat (ord k + 1) = Suc ?n" using o by (simp add: unat_word_ariths)
  have s: "sparse_set_of ord w i = Inr s \<longleftrightarrow> unat (ord i) < length w \<and> w ! unat (ord i) = Some s" for w i s
    by (auto simp: sparse_set_of_def split: option.splits)
  define v1 where "v1 = (if length v \<le> ?n then resize (Suc ?n) v else v)"
  have l: "?n < length v1" by (auto simp: v1_def resize_def)
  have j: "m < length v1 \<and> v1 ! m = Some x \<longleftrightarrow> m < length v \<and> v ! m = Some x" for m x
    by (auto simp: v1_def resize_def nth_append)
  have n: "v1 ! ?n = None" using new j [of ?n] l unfolding s by (cases "v1 ! ?n") auto
  have "RegisterComponent ord v k = Inr (v1[?n := Some []])"
    using l n unfolding RegisterComponent_def un v1_def [symmetric] by simp
  then show thesis
  proof (rule that)
    show "sparse_set_of ord (v1[?n := Some []]) k = Inr []" unfolding s using l by simp
    show "sparse_set_of ord (v1[?n := Some []]) i = Inr x \<longleftrightarrow> sparse_set_of ord v i = Inr x"
      if "unat (ord i) \<noteq> ?n" for i x
      using that j [of "unat (ord i)" x] unfolding s by (auto simp: nth_list_update)
  qed
qed

section \<open>Systems\<close>

text \<open>A system is a function on the state \<open>'w\<close> of the world.\<close>

record 'w system_manager =
  initializerSystems :: "('w \<Rightarrow> 'w res) list"
  systems :: "('w \<Rightarrow> 'w res) list"

definition RegisterSystem :: "('w \<Rightarrow> 'w res) \<Rightarrow> 'w system_manager \<Rightarrow> 'w system_manager" where
  "RegisterSystem f m = m\<lparr>systems := systems m @ [f]\<rparr>"

definition RegisterInitializerSystem :: "('w \<Rightarrow> 'w res) \<Rightarrow> 'w system_manager \<Rightarrow> 'w system_manager" where
  "RegisterInitializerSystem f m = m\<lparr>initializerSystems := initializerSystems m @ [f]\<rparr>"

section \<open>Properties\<close>

lemma register_all_ok:
  assumes "registry_ok r" and "length (objects r) + length xs < 2 ^ 32"
  shows "if distinct (map fst xs) \<and> (\<forall>t\<in>set (map fst xs). registered r t = None)
    then \<exists>r'. register_all r xs = Inr r' \<and> registry_ok r' \<and> registered r' = registered r ++ map_of xs
    else register_all r xs = Inl Aborted"
  using assms
proof (induction xs arbitrary: r)
  case Nil
  then show ?case by simp
next
  case (Cons x xs)
  obtain t o' where x: "x = (t, o')" by (cases x)
  have "length (objects r) < 2 ^ 32 - 1" using Cons.prems(2) by simp
  note R = register_object_ok [OF Cons.prems(1) this, of t o']
  show ?case
  proof (cases "registered r t = None")
    case False
    then show ?thesis using R x by auto
  next
    case True
    then obtain r1 where r1: "register_object r t o' = Inr r1" "registry_ok r1"
      "registered r1 = (registered r)(t \<mapsto> o')" "length (objects r1) = Suc (length (objects r))"
      using R by auto
    let ?P = "distinct (map fst xs) \<and> (\<forall>u\<in>set (map fst xs). registered r1 u = None)"
    have IH: "if ?P then \<exists>r'. register_all r1 xs = Inr r' \<and> registry_ok r' \<and>
        registered r' = registered r1 ++ map_of xs else register_all r1 xs = Inl Aborted"
      using Cons.prems(2) r1 by (intro Cons.IH) simp_all
    have c: "?P \<longleftrightarrow> distinct (map fst (x # xs)) \<and>
        (\<forall>u\<in>set (map fst (x # xs)). registered r u = None)"
      using x True r1(3) by (auto split: if_splits)
    have s: "register_all r (x # xs) = register_all r1 xs" using x r1(1) by simp
    show ?thesis
    proof (cases ?P)
      case True
      then obtain r' where r': "register_all r1 xs = Inr r'" "registry_ok r'"
        "registered r' = registered r1 ++ map_of xs" using IH by auto
      have "t \<notin> set (map fst xs)" using True r1(3) by auto
      then have "map_of xs t = None" by (simp add: map_of_eq_None_iff)
      then have "registered r1 ++ map_of xs = registered r ++ map_of (x # xs)"
        using x r1(3) by (auto simp: fun_eq_iff map_add_def split: option.splits)
      then show ?thesis using r' True c s by auto
    qed (use IH c s in auto)
  qed
qed

text \<open>
  Registration by type: registering a list of objects in a new manager succeeds exactly when no
  type occurs twice and aborts otherwise; afterwards looking up a type yields the object
  registered for it, and aborts for a type that was not registered.
\<close>

theorem registration_by_type:
  assumes "length xs < 2 ^ 32"
  shows "if distinct (map fst xs)
    then \<exists>r. register_all new_registry xs = Inr r \<and>
      (\<forall>t. object_of r t = (case map_of xs t of None \<Rightarrow> Inl Aborted | Some x \<Rightarrow> Inr x))
    else register_all new_registry xs = Inl Aborted"
proof -
  have "length (objects new_registry) + length xs < 2 ^ 32" using assms by (simp add: new_registry_def)
  from register_all_ok [OF registry_ok_new(1) this] show ?thesis
    using object_of_eq unfolding registry_ok_new(2) by fastforce
qed

theorem registration_by_type_witness:
  "\<exists>r. register_all new_registry [(True, ''a''), (False, ''b'')] = Inr r \<and>
     object_of r False = Inr ''b''"
  using registration_by_type [of "[(True, ''a''), (False, ''b'')]"] by auto

text \<open>
  Component lookup: with distinct component orders below the largest 32-bit value,
  \<open>RegisterComponents\<close> succeeds on an empty manager and leaves every component set empty.  After
  \<open>AttachComponentTo\<close>, \<open>GetComponentOf\<close> finds a component of the entity: the new one when the
  entity had none of the type, and still the old one when it had, so that a second component of
  the same type is never found again.  Other entities and other types are not affected.
\<close>

theorem component_lookup:
  assumes "inj ord" and "\<And>k. unat (ord k) < 2 ^ 32 - 1" and "sparse_set_of ord v k = Inr s"
  shows "(\<exists>v0. RegisterComponents ord [] = Inr v0 \<and> (\<forall>j. Components ord v0 j = Inr [])) \<and>
    (\<exists>v'. AttachComponentTo ord v k e = Inr (length s, v') \<and>
      Components ord v' k = Inr (s @ [(e, default_component k)]) \<and>
      GetComponentOf ord v' k e = Inr (Some (case first_of e 0 s of Some i \<Rightarrow> i | None \<Rightarrow> length s)) \<and>
      (\<forall>e'. e' \<noteq> e \<longrightarrow> GetComponentOf ord v' k e' = GetComponentOf ord v k e') \<and>
      (\<forall>j. j \<noteq> k \<longrightarrow> Components ord v' j = Components ord v j))"
proof (intro conjI)
  have ne: "unat (ord NameTag) \<noteq> unat (ord HumanLikeBody)"
    using assms(1) by (metis component_type.distinct(1) injD unat_eq)
  have n0: "sparse_set_of ord [] j \<noteq> Inr x" for j x by (simp add: sparse_set_of_def)
  obtain v1 where v1: "RegisterComponent ord [] HumanLikeBody = Inr v1"
    "sparse_set_of ord v1 HumanLikeBody = Inr []" "\<And>x. sparse_set_of ord v1 NameTag \<noteq> Inr x"
    using RegisterComponent_ok [OF assms(2) n0, of HumanLikeBody] n0 ne by metis
  obtain v2 where v2: "RegisterComponent ord v1 NameTag = Inr v2" "sparse_set_of ord v2 NameTag = Inr []"
    "sparse_set_of ord v2 HumanLikeBody = Inr []"
    using RegisterComponent_ok [OF assms(2) v1(3)] v1(2) ne by metis
  then have "Components ord v2 j = Inr []" for j by (cases j) (simp_all add: Components_def)
  then show "\<exists>v0. RegisterComponents ord [] = Inr v0 \<and> (\<forall>j. Components ord v0 j = Inr [])"
    using v1(1) v2(1) by (auto simp: RegisterComponents_def)
  define v' where "v' = v[unat (ord k) := Some (s @ [(e, default_component k)])]"
  have l: "unat (ord k) < length v" using assms(3) by (auto simp: sparse_set_of_def split: if_splits)
  have "AttachComponentTo ord v k e = Inr (length s, v')"
    using assms(3) by (simp add: AttachComponentTo_def v'_def)
  moreover have "sparse_set_of ord v' k = Inr (s @ [(e, default_component k)])"
    using l by (simp add: sparse_set_of_def v'_def)
  moreover have "sparse_set_of ord v' j = sparse_set_of ord v j" if "j \<noteq> k" for j
  proof -
    have "unat (ord k) \<noteq> unat (ord j)" using that assms(1) by (metis injD unat_eq)
    then show ?thesis by (simp add: sparse_set_of_def v'_def)
  qed
  ultimately show "\<exists>v'. AttachComponentTo ord v k e = Inr (length s, v') \<and>
      Components ord v' k = Inr (s @ [(e, default_component k)]) \<and>
      GetComponentOf ord v' k e = Inr (Some (case first_of e 0 s of Some i \<Rightarrow> i | None \<Rightarrow> length s)) \<and>
      (\<forall>e'. e' \<noteq> e \<longrightarrow> GetComponentOf ord v' k e' = GetComponentOf ord v k e') \<and>
      (\<forall>j. j \<noteq> k \<longrightarrow> Components ord v' j = Components ord v j)"
    using assms(3)
    by (intro exI [of _ v'])
      (auto simp: Components_def GetComponentOf_def first_of_append split: option.splits)
qed

theorem component_lookup_witness:
  "\<exists>v'. AttachComponentTo (case_component_type 0 1) [Some [], None] HumanLikeBody NullEntity
      = Inr (0, v') \<and>
    GetComponentOf (case_component_type 0 1) v' HumanLikeBody NullEntity = Inr (Some 0)"
proof -
  let ?o = "case_component_type 0 1 :: component_type \<Rightarrow> u32"
  have i: "inj ?o" by (rule injI) (simp split: component_type.splits)
  have b: "unat (?o k) < 2 ^ 32 - 1" for k by (cases k) simp_all
  have s: "sparse_set_of ?o [Some [], None] HumanLikeBody = Inr []" by (simp add: sparse_set_of_def)
  from component_lookup [OF i b s, of NullEntity] show ?thesis by auto
qed

end
