(* ===== verification/Possession.thy ===== *)
theory Possession
  imports Registries
begin

text \<open>
  The global objects over sparse lists, \<open>G_Possession\<close> (which player context controls which entity)
  and \<open>G_PlayerCharacters\<close> (which player owns which character), the registrars, and the system that
  ends the possessions of disconnected sessions.
\<close>

section \<open>Possession\<close>

record possession =
  contextEntityMap :: "entity slist"
  entityContextMap :: "(u32 \<times> u32) slist"

text \<open>Default-constructed maps: an \<open>Entity\<close> has four bytes, a pair of integers eight.\<close>

definition new_possession :: "(nat \<Rightarrow> nat) \<Rightarrow> entity sblock plist \<Rightarrow> (u32 \<times> u32) sblock plist \<Rightarrow> possession" where
  "new_possession rd r1 r2 =
     \<lparr>contextEntityMap = new_slist 65536 4 16384 rd r1, entityContextMap = new_slist 65536 8 16384 rd r2\<rparr>"

datatype PosessionResult = Success | DuplicateContext | EntityAlreadyPossessed

definition TryPossess :: "possession \<Rightarrow> u32 \<Rightarrow> entity \<Rightarrow> (PosessionResult \<times> possession) res" where
  "TryPossess p ctxt e =
     bindR (slist_get (contextEntityMap p) (unat ctxt)) (\<lambda>x.
     if x \<noteq> None then Inr (DuplicateContext, p) else
     bindR (slist_get (entityContextMap p) (unat (GetId e))) (\<lambda>y.
     if y \<noteq> None then Inr (EntityAlreadyPossessed, p) else
     bindR (emplaceAt (contextEntityMap p) (unat ctxt) e) (\<lambda>cem.
     bindR (emplaceAt (entityContextMap p) (unat (GetId e)) (GetVersion e, ctxt)) (\<lambda>ecm.
     Inr (Success, \<lparr>contextEntityMap = cem, entityContextMap = ecm\<rparr>)))))"

definition UnpossessByContext :: "possession \<Rightarrow> u32 \<Rightarrow> possession res" where
  "UnpossessByContext p ctxt =
     bindR (slist_get (contextEntityMap p) (unat ctxt)) (\<lambda>x. case x of
       None \<Rightarrow> Inr p
     | Some e \<Rightarrow>
         bindR (eraseBySparseIndex (entityContextMap p) (unat (GetId e))) (\<lambda>ecm.
         bindR (eraseBySparseIndex (contextEntityMap p) (unat ctxt)) (\<lambda>cem.
         Inr \<lparr>contextEntityMap = cem, entityContextMap = ecm\<rparr>)))"

definition UnpossessByEntity :: "possession \<Rightarrow> entity \<Rightarrow> possession res" where
  "UnpossessByEntity p e =
     bindR (slist_get (entityContextMap p) (unat (GetId e))) (\<lambda>y. case y of
       None \<Rightarrow> Inr p
     | Some (version, ctxt) \<Rightarrow>
         if version \<noteq> GetVersion e then Inr p else
         bindR (eraseBySparseIndex (contextEntityMap p) (unat ctxt)) (\<lambda>cem.
         bindR (eraseBySparseIndex (entityContextMap p) (unat (GetId e))) (\<lambda>ecm.
         Inr \<lparr>contextEntityMap = cem, entityContextMap = ecm\<rparr>)))"

text \<open>The two sparse lists are a map and its inverse.\<close>

interpretation pm: two_way_map slist_ok smap slist_get emplaceAt eraseBySparseIndex
  slist_ok smap slist_get emplaceAt eraseBySparseIndex
  "\<lambda>e. unat (GetId e)" "\<lambda>y :: u32 \<times> u32. unat (snd y)"
  by unfold_locales

definition possession_ok :: "possession \<Rightarrow> bool" where
  "possession_ok p \<longleftrightarrow> pm.inverse (contextEntityMap p) (entityContextMap p) \<and>
     (\<forall>c e y. smap (contextEntityMap p) c = Some e \<longrightarrow>
        smap (entityContextMap p) (unat (GetId e)) = Some y \<longrightarrow> fst y = GetVersion e)"

text \<open>The relation the object stores.\<close>

definition possessed :: "possession \<Rightarrow> u32 \<Rightarrow> entity option" where
  "possessed p c = smap (contextEntityMap p) (unat c)"

lemma unat_32: "unat (w :: u32) < 2 ^ 32"
  using unsigned_less [of w] by simp

lemma id_32: "unat (GetId e) < 2 ^ 32"
  by (rule unat_32)

lemma inverseD:
  assumes "pm.inverse s t"
  shows "slist_ok s" "slist_ok t"
    "smap s i = Some e \<Longrightarrow> \<exists>v. smap t (unat (GetId e)) = Some (v, word_of_nat i) \<and> unat (word_of_nat i :: u32) = i"
    "smap t j = Some y \<Longrightarrow> \<exists>e. smap s (unat (snd y)) = Some e \<and> unat (GetId e) = j"
proof -
  show "slist_ok s" "slist_ok t" using assms by (simp_all add: pm.inverse_def)
  show "\<exists>v. smap t (unat (GetId e)) = Some (v, word_of_nat i) \<and> unat (word_of_nat i :: u32) = i"
    if si: "smap s i = Some e"
  proof -
    obtain y where y: "smap t (unat (GetId e)) = Some y" "unat (snd y) = i"
      using assms si unfolding pm.inverse_def by blast
    then have "snd y = word_of_nat i" by (metis of_nat_unat ucast_id)
    with y show ?thesis by (cases y) auto
  qed
  show "\<exists>e. smap s (unat (snd y)) = Some e \<and> unat (GetId e) = j" if "smap t j = Some y"
    using assms that unfolding pm.inverse_def by blast
qed

lemma new_possession_ok:
  "possession_ok (new_possession rd r1 r2)" "possessed (new_possession rd r1 r2) = Map.empty"
  using slist_ok_new [of 4 65536 16384 rd r1] slist_ok_new [of 8 65536 16384 rd r2]
  by (auto simp: possession_ok_def new_possession_def possessed_def pm.inverse_def NodeMetadataSize_def)

lemma possessed_entity_iff:
  assumes "possession_ok p"
  shows "smap (entityContextMap p) (unat (GetId e)) = None \<longleftrightarrow>
    (\<forall>c x. possessed p c = Some x \<longrightarrow> GetId x \<noteq> GetId e)"
proof -
  have I: "pm.inverse (contextEntityMap p) (entityContextMap p)" using assms by (simp add: possession_ok_def)
  show ?thesis
  proof
    assume "smap (entityContextMap p) (unat (GetId e)) = None"
    then show "\<forall>c x. possessed p c = Some x \<longrightarrow> GetId x \<noteq> GetId e"
      using inverseD(3) [OF I] unfolding possessed_def by fastforce
  next
    assume R: "\<forall>c x. possessed p c = Some x \<longrightarrow> GetId x \<noteq> GetId e"
    show "smap (entityContextMap p) (unat (GetId e)) = None"
    proof (rule ccontr)
      assume "smap (entityContextMap p) (unat (GetId e)) \<noteq> None"
      then obtain y where "smap (entityContextMap p) (unat (GetId e)) = Some y" by blast
      from inverseD(4) [OF I this] obtain x
        where "smap (contextEntityMap p) (unat (snd y)) = Some x" "unat (GetId x) = unat (GetId e)" by blast
      then show False using R unfolding possessed_def unat_eq by blast
    qed
  qed
qed

lemma TryPossess_ok:
  assumes ok: "possession_ok p" and c: "possessed p c = None"
    and e: "\<And>c' x. possessed p c' = Some x \<Longrightarrow> GetId x \<noteq> GetId e"
  obtains p' where "TryPossess p c e = Inr (Success, p')" "possession_ok p'"
    "possessed p' = (possessed p)(c \<mapsto> e)"
proof -
  have I: "pm.inverse (contextEntityMap p) (entityContextMap p)" using ok by (simp add: possession_ok_def)
  have c': "smap (contextEntityMap p) (unat c) = None" using c by (simp add: possessed_def)
  have e': "smap (entityContextMap p) (unat (GetId e)) = None" using possessed_entity_iff [OF ok] e by blast
  have yk: "unat (snd (GetVersion e, c)) = unat c" by simp
  obtain s t where st: "emplaceAt (contextEntityMap p) (unat c) e = Inr s"
    "emplaceAt (entityContextMap p) (unat (GetId e)) (GetVersion e, c) = Inr t" "pm.inverse s t"
    "smap s = (smap (contextEntityMap p))(unat c \<mapsto> e)"
    "smap t = (smap (entityContextMap p))(unat (GetId e) \<mapsto> (GetVersion e, c))"
    using pm.inverse_add [OF I unat_32 c' id_32 e' yk] by blast
  define p' where "p' = \<lparr>contextEntityMap = s, entityContextMap = t\<rparr>"
  have "TryPossess p c e = Inr (Success, p')"
    using c' e' st(1,2) inverseD(1,2) [OF I] by (simp add: TryPossess_def slist_get_eq p'_def)
  moreover have "possession_ok p'"
  proof -
    have "fst y = GetVersion x" if a: "smap s i = Some x" "smap t (unat (GetId x)) = Some y" for i x y
    proof (cases "i = unat c")
      case True
      then show ?thesis using a st(4,5) by auto
    next
      case False
      then have "smap (contextEntityMap p) i = Some x" using a st(4) by simp
      moreover from this have "unat (GetId x) \<noteq> unat (GetId e)" using inverseD(3) [OF I] e' by force
      then have "smap (entityContextMap p) (unat (GetId x)) = Some y" using a st(5) by simp
      ultimately show ?thesis using ok unfolding possession_ok_def by blast
    qed
    then show ?thesis using st(3) unfolding possession_ok_def p'_def by auto
  qed
  moreover have "possessed p' = (possessed p)(c \<mapsto> e)"
    using st(4) by (auto simp: possessed_def p'_def fun_eq_iff unat_eq)
  ultimately show thesis using that by blast
qed

lemma unpossess_ok:
  assumes ok: "possession_ok p" and c: "possessed p c = Some e"
  obtains s t where "eraseBySparseIndex (contextEntityMap p) (unat c) = Inr s"
    "eraseBySparseIndex (entityContextMap p) (unat (GetId e)) = Inr t"
    "possession_ok \<lparr>contextEntityMap = s, entityContextMap = t\<rparr>"
    "possessed \<lparr>contextEntityMap = s, entityContextMap = t\<rparr> = (possessed p)(c := None)"
proof -
  have I: "pm.inverse (contextEntityMap p) (entityContextMap p)" using ok by (simp add: possession_ok_def)
  have c': "smap (contextEntityMap p) (unat c) = Some e" using c by (simp add: possessed_def)
  obtain s t where st: "eraseBySparseIndex (contextEntityMap p) (unat c) = Inr s"
    "eraseBySparseIndex (entityContextMap p) (unat (GetId e)) = Inr t" "pm.inverse s t"
    "smap s = (smap (contextEntityMap p))(unat c := None)"
    "smap t = (smap (entityContextMap p))(unat (GetId e) := None)"
    using pm.inverse_del [OF I c'] by blast
  moreover have "possession_ok \<lparr>contextEntityMap = s, entityContextMap = t\<rparr>"
  proof -
    have "fst y = GetVersion x" if "smap s i = Some x" "smap t (unat (GetId x)) = Some y" for i x y
    proof -
      have "smap (contextEntityMap p) i = Some x" "smap (entityContextMap p) (unat (GetId x)) = Some y"
        using that st(4,5) by (auto split: if_splits)
      then show ?thesis using ok unfolding possession_ok_def by blast
    qed
    then show ?thesis using st(3) unfolding possession_ok_def by auto
  qed
  moreover have "possessed \<lparr>contextEntityMap = s, entityContextMap = t\<rparr> = (possessed p)(c := None)"
    using st(4) by (auto simp: possessed_def fun_eq_iff unat_eq)
  ultimately show thesis using that by blast
qed

lemma UnpossessByContext_ok:
  assumes ok: "possession_ok p"
  shows "\<exists>p'. UnpossessByContext p c = Inr p' \<and> possession_ok p' \<and> possessed p' = (possessed p)(c := None)"
proof -
  have I: "pm.inverse (contextEntityMap p) (entityContextMap p)" using ok by (simp add: possession_ok_def)
  show ?thesis
  proof (cases "possessed p c")
    case None
    then show ?thesis using ok inverseD(1) [OF I]
      by (auto simp: UnpossessByContext_def slist_get_eq possessed_def fun_eq_iff)
  next
    case (Some e)
    obtain s t where "eraseBySparseIndex (contextEntityMap p) (unat c) = Inr s"
      "eraseBySparseIndex (entityContextMap p) (unat (GetId e)) = Inr t"
      "possession_ok \<lparr>contextEntityMap = s, entityContextMap = t\<rparr>"
      "possessed \<lparr>contextEntityMap = s, entityContextMap = t\<rparr> = (possessed p)(c := None)"
      by (rule unpossess_ok [OF ok Some])
    then show ?thesis using Some inverseD(1) [OF I]
      by (simp add: UnpossessByContext_def slist_get_eq possessed_def)
  qed
qed

section \<open>Player characters\<close>

record player_characters =
  characterEntityMap :: "entity slist"
  entityPlayerMap :: "(u32 \<times> u32) slist"
  entityCharacterMap :: "(u32 \<times> u32) slist"

definition new_player_characters ::
    "(nat \<Rightarrow> nat) \<Rightarrow> entity sblock plist \<Rightarrow> (u32 \<times> u32) sblock plist \<Rightarrow> player_characters" where
  "new_player_characters rd r1 r2 =
     \<lparr>characterEntityMap = new_slist 65536 4 16384 rd r1,
      entityPlayerMap = new_slist 65536 8 16384 rd r2,
      entityCharacterMap = new_slist 65536 8 16384 rd r2\<rparr>"

definition AddOwnership :: "player_characters \<Rightarrow> u32 \<Rightarrow> u32 \<Rightarrow> entity \<Rightarrow> player_characters res" where
  "AddOwnership g playerId characterId e =
     bindR (slist_get (characterEntityMap g) (unat characterId)) (\<lambda>x.
     bindR (slist_get (entityPlayerMap g) (unat (GetId e))) (\<lambda>y.
     bindR (slist_get (entityCharacterMap g) (unat (GetId e))) (\<lambda>z.
     bindR (crash_cond (x \<noteq> None \<or> y \<noteq> None \<or> z \<noteq> None)) (\<lambda>_.
     bindR (emplaceAt (characterEntityMap g) (unat characterId) e) (\<lambda>cem.
     bindR (emplaceAt (entityPlayerMap g) (unat (GetId e)) (GetVersion e, playerId)) (\<lambda>epm.
     bindR (emplaceAt (entityCharacterMap g) (unat (GetId e)) (GetVersion e, characterId)) (\<lambda>ecm.
     Inr \<lparr>characterEntityMap = cem, entityPlayerMap = epm, entityCharacterMap = ecm\<rparr>)))))))"

definition GetEntityOf :: "player_characters \<Rightarrow> u32 \<Rightarrow> u32 \<Rightarrow> entity res" where
  "GetEntityOf g playerId characterId =
     bindR (slist_get (characterEntityMap g) (unat characterId)) (\<lambda>x. case x of
       None \<Rightarrow> Inr NullEntity
     | Some e \<Rightarrow>
         bindR (slist_get (entityCharacterMap g) (unat (GetId e))) (\<lambda>entityCharacter.
         bindR (slist_get (entityPlayerMap g) (unat (GetId e))) (\<lambda>entityPlayer.
         bindR (crash_cond (entityCharacter = None \<or> entityPlayer = None)) (\<lambda>_.
         if snd (the entityPlayer) \<noteq> playerId then Inr NullEntity else Inr e))))"

text \<open>The player who owns the entity of a character, and that entity.\<close>

definition owner_of :: "player_characters \<Rightarrow> u32 \<Rightarrow> (u32 \<times> entity) option" where
  "owner_of g characterId =
     (case smap (characterEntityMap g) (unat characterId) of None \<Rightarrow> None
      | Some e \<Rightarrow> map_option (\<lambda>y. (snd y, e)) (smap (entityPlayerMap g) (unat (GetId e))))"

definition ids_of :: "player_characters \<Rightarrow> nat set" where
  "ids_of g = (\<lambda>e. unat (GetId e)) ` ran (smap (characterEntityMap g))"

definition player_characters_ok :: "player_characters \<Rightarrow> bool" where
  "player_characters_ok g \<longleftrightarrow>
     slist_ok (characterEntityMap g) \<and> slist_ok (entityPlayerMap g) \<and> slist_ok (entityCharacterMap g) \<and>
     dom (smap (entityPlayerMap g)) = ids_of g \<and> dom (smap (entityCharacterMap g)) = ids_of g"

lemma new_player_characters_ok:
  "player_characters_ok (new_player_characters rd r1 r2)"
  "owner_of (new_player_characters rd r1 r2) = Map.empty"
  using slist_ok_new [of 4 65536 16384 rd r1] slist_ok_new [of 8 65536 16384 rd r2]
  by (auto simp: player_characters_ok_def new_player_characters_def owner_of_def ids_of_def
      NodeMetadataSize_def)

lemma AddOwnership_ok:
  assumes ok: "player_characters_ok g" and ch: "owner_of g ch = None" and e: "unat (GetId e) \<notin> ids_of g"
  obtains g' where "AddOwnership g pl ch e = Inr g'" "player_characters_ok g'"
    "owner_of g' = (owner_of g)(ch \<mapsto> (pl, e))" "ids_of g' = insert (unat (GetId e)) (ids_of g)"
proof -
  let ?c = "characterEntityMap g" and ?p = "entityPlayerMap g" and ?x = "entityCharacterMap g"
  let ?i = "unat (GetId e)"
  have K: "slist_ok ?c" "slist_ok ?p" "slist_ok ?x" "dom (smap ?p) = ids_of g" "dom (smap ?x) = ids_of g"
    using ok by (simp_all add: player_characters_ok_def)
  have in_ids: "unat (GetId x) \<in> ids_of g" if "smap ?c i = Some x" for i x
    using that by (auto simp: ids_of_def ran_def)
  have c0: "smap ?c (unat ch) = None"
  proof (rule ccontr)
    assume "smap ?c (unat ch) \<noteq> None"
    then obtain x where x: "smap ?c (unat ch) = Some x" by auto
    then have "unat (GetId x) \<in> dom (smap ?p)" using in_ids K(4) by auto
    then show False using ch x by (auto simp: owner_of_def)
  qed
  have p0: "smap ?p ?i = None" "smap ?x ?i = None" using e K(4,5) by (auto simp: domIff [symmetric])
  obtain c1 where c1: "emplaceAt ?c (unat ch) e = Inr c1" "slist_ok c1" "smap c1 = (smap ?c)(unat ch \<mapsto> e)"
    using sl.add_law [OF K(1) unat_32 c0] by blast
  obtain p1 where p1: "emplaceAt ?p ?i (GetVersion e, pl) = Inr p1" "slist_ok p1"
    "smap p1 = (smap ?p)(?i \<mapsto> (GetVersion e, pl))" using sl.add_law [OF K(2) id_32 p0(1)] by blast
  obtain x1 where x1: "emplaceAt ?x ?i (GetVersion e, ch) = Inr x1" "slist_ok x1"
    "smap x1 = (smap ?x)(?i \<mapsto> (GetVersion e, ch))" using sl.add_law [OF K(3) id_32 p0(2)] by blast
  define g' where "g' = \<lparr>characterEntityMap = c1, entityPlayerMap = p1, entityCharacterMap = x1\<rparr>"
  have "AddOwnership g pl ch e = Inr g'"
    using K(1-3) c0 p0 c1(1) p1(1) x1(1) by (simp add: AddOwnership_def slist_get_eq g'_def)
  moreover have ids: "ids_of g' = insert ?i (ids_of g)"
    using c0 by (simp add: ids_of_def g'_def c1(3))
  moreover have "player_characters_ok g'"
    using ids K(4,5) c1(2) p1(2,3) x1(2,3) by (simp add: player_characters_ok_def g'_def)
  moreover have "owner_of g' = (owner_of g)(ch \<mapsto> (pl, e))"
  proof
    fix u
    show "owner_of g' u = ((owner_of g)(ch \<mapsto> (pl, e))) u"
    proof (cases "u = ch")
      case True
      then show ?thesis by (simp add: owner_of_def g'_def c1(3) p1(3))
    next
      case False
      then have "smap c1 (unat u) = smap ?c (unat u)" by (simp add: c1(3) unat_eq)
      moreover have "unat (GetId x) \<noteq> ?i" if "smap ?c (unat u) = Some x" for x
        using in_ids [OF that] e by auto
      ultimately show ?thesis using False
        by (auto simp: owner_of_def g'_def p1(3) split: option.splits)
    qed
  qed
  ultimately show thesis using that by blast
qed

lemma ids_of_iff:
  assumes "player_characters_ok g"
  shows "i \<in> ids_of g \<longleftrightarrow> smap (entityPlayerMap g) i \<noteq> None"
    and "i \<in> ids_of g \<longleftrightarrow> smap (entityCharacterMap g) i \<noteq> None"
  using assms unfolding player_characters_ok_def domIff [symmetric] by simp_all

lemma GetEntityOf_eq:
  assumes "player_characters_ok g"
  shows "GetEntityOf g pl ch = Inr (case owner_of g ch of None \<Rightarrow> NullEntity
    | Some (pl', e) \<Rightarrow> if pl' = pl then e else NullEntity)"
proof (cases "smap (characterEntityMap g) (unat ch)")
  case None
  then show ?thesis using assms
    by (simp add: GetEntityOf_def owner_of_def slist_get_eq player_characters_ok_def)
next
  case (Some e)
  then have "unat (GetId e) \<in> ids_of g" by (auto simp: ids_of_def ran_def)
  then have "smap (entityPlayerMap g) (unat (GetId e)) \<noteq> None" "smap (entityCharacterMap g) (unat (GetId e)) \<noteq> None"
    using ids_of_iff [OF assms] by blast+
  then show ?thesis using assms Some
    by (auto simp: GetEntityOf_def owner_of_def slist_get_eq player_characters_ok_def)
qed

section \<open>Registration and the disconnection system\<close>

datatype object_type = G_PlayerCharacters | G_Possession | G_PersistenceTimer

datatype global_object = PlayerCharactersObject player_characters | PossessionObject possession

text \<open>\<open>GetGlobalObjectName\<close>: what the macro \<open>GLOBALOBJECT\<close> of each class spells out.\<close>

fun GetGlobalObjectName :: "object_type \<Rightarrow> string" where
  "GetGlobalObjectName G_PlayerCharacters = ''G_PlayerCharacters''"
| "GetGlobalObjectName G_Possession = ''G_PlayerCharacters''"
| "GetGlobalObjectName G_PersistenceTimer = ''G_PersistenceTimer''"

definition RegisterGlobalObjects ::
    "player_characters \<Rightarrow> possession \<Rightarrow> (object_type, global_object) registry \<Rightarrow>
     (object_type, global_object) registry res" where
  "RegisterGlobalObjects g p r =
     bindR (register_object r G_PlayerCharacters (PlayerCharactersObject g)) (\<lambda>r'.
     register_object r' G_Possession (PossessionObject p))"

text \<open>The parts of \<open>MutableEnvironment\<close> that the systems of the repository use.\<close>

record world =
  GlobalObjectManager :: "(object_type, global_object) registry"
  EventManager :: "(event_type, u32 list) registry"

definition unpossess_in_world :: "world \<Rightarrow> u32 \<Rightarrow> world res" where
  "unpossess_in_world w ctxt =
     bindR (object_of (GlobalObjectManager w) G_Possession) (\<lambda>x. case x of
       PlayerCharactersObject g \<Rightarrow> Inl BadCast
     | PossessionObject p \<Rightarrow>
         bindR (UnpossessByContext p ctxt) (\<lambda>p'.
         bindR (set_object (GlobalObjectManager w) G_Possession (PossessionObject p')) (\<lambda>r.
         Inr (w\<lparr>GlobalObjectManager := r\<rparr>))))"

fun for_events :: "world \<Rightarrow> u32 list \<Rightarrow> world res" where
  "for_events w [] = Inr w"
| "for_events w (c # cs) = bindR (unpossess_in_world w c) (\<lambda>w'. for_events w' cs)"

definition S_PlayerCharacters_UnpossessOnDisconnected :: "world \<Rightarrow> world res" where
  "S_PlayerCharacters_UnpossessOnDisconnected w =
     bindR (events (EventManager w) Event_SessionErased) (\<lambda>es. for_events w es)"

definition S_Initializer_PlayerCharacters :: "world \<Rightarrow> world res" where
  "S_Initializer_PlayerCharacters w = Inr w"

definition RegisterInitializerSystems :: "world system_manager \<Rightarrow> world system_manager" where
  "RegisterInitializerSystems m = RegisterInitializerSystem S_Initializer_PlayerCharacters m"

definition RegisterSystems :: "world system_manager \<Rightarrow> world system_manager" where
  "RegisterSystems m =
     RegisterSystem S_PlayerCharacters_UnpossessOnDisconnected (RegisterInitializerSystems m)"

definition world_possession :: "world \<Rightarrow> possession \<Rightarrow> bool" where
  "world_possession w p \<longleftrightarrow> registry_ok (GlobalObjectManager w) \<and>
     registered (GlobalObjectManager w) G_Possession = Some (PossessionObject p) \<and> possession_ok p"

lemma RegisterGlobalObjects_ok:
  assumes "possession_ok p"
  obtains r where "RegisterGlobalObjects g p new_registry = Inr r"
    "world_possession \<lparr>GlobalObjectManager = r, EventManager = em\<rparr> p"
proof -
  have "length (objects (new_registry :: (object_type, global_object) registry)) < 2 ^ 32 - 1"
    by (simp add: new_registry_def)
  from register_object_ok [OF registry_ok_new(1) this, of G_PlayerCharacters "PlayerCharactersObject g"]
  obtain r1 where r1: "register_object new_registry G_PlayerCharacters (PlayerCharactersObject g) = Inr r1"
    "registry_ok r1" "registered r1 = [G_PlayerCharacters \<mapsto> PlayerCharactersObject g]"
    "length (objects r1) = 1"
    unfolding registry_ok_new(2) by (auto simp: new_registry_def)
  then have "registered r1 G_Possession = None" "length (objects r1) < 2 ^ 32 - 1" by simp_all
  from register_object_ok [OF r1(2) this(2), of G_Possession "PossessionObject p"] this(1)
  obtain r where "register_object r1 G_Possession (PossessionObject p) = Inr r" "registry_ok r"
    "registered r G_Possession = Some (PossessionObject p)" by auto
  with r1(1) assms show thesis
    by (intro that [of r]) (simp_all add: RegisterGlobalObjects_def world_possession_def)
qed

lemma for_events_ok:
  assumes "world_possession w p"
  shows "\<exists>w' p'. for_events w cs = Inr w' \<and> world_possession w' p' \<and>
    EventManager w' = EventManager w \<and>
    (\<forall>t. t \<noteq> G_Possession \<longrightarrow> registered (GlobalObjectManager w') t = registered (GlobalObjectManager w) t) \<and>
    possessed p' = (\<lambda>c. if c \<in> set cs then None else possessed p c)"
  using assms
proof (induction cs arbitrary: w p)
  case Nil
  then show ?case by auto
next
  case (Cons c cs)
  let ?r = "GlobalObjectManager w"
  have r: "registry_ok ?r" "registered ?r G_Possession = Some (PossessionObject p)" "possession_ok p"
    using Cons.prems by (simp_all add: world_possession_def)
  obtain p1 where p1: "UnpossessByContext p c = Inr p1" "possession_ok p1" "possessed p1 = (possessed p)(c := None)"
    using UnpossessByContext_ok [OF r(3)] by blast
  obtain r1 where r1: "set_object ?r G_Possession (PossessionObject p1) = Inr r1" "registry_ok r1"
    "registered r1 = (registered ?r)(G_Possession \<mapsto> PossessionObject p1)"
    using set_object_ok [OF r(1), of G_Possession] r(2) by blast
  let ?w = "w\<lparr>GlobalObjectManager := r1\<rparr>"
  have "unpossess_in_world w c = Inr ?w"
    using r p1(1) r1(1) object_of_eq [OF r(1), of G_Possession] by (simp add: unpossess_in_world_def)
  moreover have "world_possession ?w p1" using r1 p1(2) by (simp add: world_possession_def)
  from Cons.IH [OF this] obtain w' p' where "for_events ?w cs = Inr w'" "world_possession w' p'"
    "EventManager w' = EventManager ?w"
    "\<forall>t. t \<noteq> G_Possession \<longrightarrow> registered (GlobalObjectManager w') t = registered (GlobalObjectManager ?w) t"
    "possessed p' = (\<lambda>c. if c \<in> set cs then None else possessed p1 c)" by blast
  ultimately show ?case using r1(3) p1(3)
    by (intro exI [of _ w'] exI [of _ p']) (auto simp: fun_eq_iff)
qed

lemma TryPossess_eq:
  assumes ok: "possession_ok p"
  shows "if possessed p c \<noteq> None then TryPossess p c e = Inr (DuplicateContext, p)
    else if \<exists>c' x. possessed p c' = Some x \<and> GetId x = GetId e
      then TryPossess p c e = Inr (EntityAlreadyPossessed, p)
    else \<exists>p'. TryPossess p c e = Inr (Success, p') \<and> possession_ok p' \<and> possessed p' = (possessed p)(c \<mapsto> e)"
proof -
  have I: "pm.inverse (contextEntityMap p) (entityContextMap p)" using ok by (simp add: possession_ok_def)
  note sok = inverseD(1,2) [OF I]
  have "TryPossess p c e = Inr (DuplicateContext, p)" if "possessed p c \<noteq> None"
    using that sok by (auto simp: TryPossess_def slist_get_eq possessed_def)
  moreover have "TryPossess p c e = Inr (EntityAlreadyPossessed, p)"
    if "possessed p c = None" "\<exists>c' x. possessed p c' = Some x \<and> GetId x = GetId e"
    using that sok possessed_entity_iff [OF ok, of e]
    by (auto simp: TryPossess_def slist_get_eq possessed_def)
  moreover have "\<exists>p'. TryPossess p c e = Inr (Success, p') \<and> possession_ok p' \<and> possessed p' = (possessed p)(c \<mapsto> e)"
    if "possessed p c = None" "\<nexists>c' x. possessed p c' = Some x \<and> GetId x = GetId e"
    using TryPossess_ok [OF ok that(1), of e] that(2) by metis
  ultimately show ?thesis by presburger
qed

lemma UnpossessByEntity_owned:
  assumes ok: "possession_ok p" and c': "possessed p c' = Some e"
  shows "\<exists>p'. UnpossessByEntity p e = Inr p' \<and> possession_ok p' \<and>
    possessed p' = (\<lambda>c. if possessed p c = Some e then None else possessed p c)"
proof -
  have I: "pm.inverse (contextEntityMap p) (entityContextMap p)" using ok by (simp add: possession_ok_def)
  obtain v where "smap (entityContextMap p) (unat (GetId e)) = Some (v, c')"
    using c' inverseD(3) [OF I] unfolding possessed_def by (metis of_nat_unat ucast_id)
  moreover from this have "v = GetVersion e"
    using ok c' unfolding possession_ok_def possessed_def by fastforce
  ultimately have y: "smap (entityContextMap p) (unat (GetId e)) = Some (GetVersion e, c')" by simp
  have "possessed p c'' = Some e \<longleftrightarrow> c'' = c'" for c''
    using pm.inverse_unique [OF I, of "unat c''" e "unat c'" e] c' unfolding possessed_def unat_eq by auto
  then have "(possessed p)(c' := None) = (\<lambda>c. if possessed p c = Some e then None else possessed p c)"
    by (auto simp: fun_eq_iff)
  moreover obtain s t where "eraseBySparseIndex (contextEntityMap p) (unat c') = Inr s"
    "eraseBySparseIndex (entityContextMap p) (unat (GetId e)) = Inr t"
    "possession_ok \<lparr>contextEntityMap = s, entityContextMap = t\<rparr>"
    "possessed \<lparr>contextEntityMap = s, entityContextMap = t\<rparr> = (possessed p)(c' := None)"
    by (rule unpossess_ok [OF ok c'])
  ultimately show ?thesis using y inverseD(1,2) [OF I] by (simp add: UnpossessByEntity_def slist_get_eq)
qed

text \<open>An entity that nobody possesses, though perhaps another version of it.\<close>

lemma UnpossessByEntity_free:
  assumes ok: "possession_ok p" and free: "\<nexists>c'. possessed p c' = Some e"
  shows "UnpossessByEntity p e = Inr p"
proof (cases "smap (entityContextMap p) (unat (GetId e))")
  case None
  then show ?thesis using ok inverseD(2) by (auto simp: UnpossessByEntity_def slist_get_eq possession_ok_def)
next
  case (Some y)
  have I: "pm.inverse (contextEntityMap p) (entityContextMap p)" using ok by (simp add: possession_ok_def)
  obtain x where x: "possessed p (snd y) = Some x" "GetId x = GetId e"
    using inverseD(4) [OF I Some] unfolding possessed_def unat_eq by blast
  then have "fst y = GetVersion x"
    using ok Some unfolding possession_ok_def possessed_def by metis
  moreover have "x \<noteq> e" using x(1) free by blast
  ultimately have "fst y \<noteq> GetVersion e" using x(2) entity_eq_iff by auto
  then show ?thesis using Some inverseD(1,2) [OF I]
    by (cases y) (simp add: UnpossessByEntity_def slist_get_eq)
qed

lemma UnpossessByEntity_ok:
  assumes ok: "possession_ok p"
  shows "\<exists>p'. UnpossessByEntity p e = Inr p' \<and> possession_ok p' \<and>
    possessed p' = (\<lambda>c. if possessed p c = Some e then None else possessed p c)"
proof (cases "\<exists>c'. possessed p c' = Some e")
  case False
  then show ?thesis using ok UnpossessByEntity_free [OF ok False] by (auto simp: fun_eq_iff)
qed (use UnpossessByEntity_owned [OF ok] in blast)

section \<open>Properties\<close>

text \<open>
  C31.  \<open>G_Possession\<close> stores a partial injection from contexts to entities in two sparse lists that
  stay inverse to each other.  \<open>TryPossess\<close> refuses a context that possesses, then an entity whose
  id is possessed, and otherwise adds the pair; \<open>UnpossessByContext\<close> removes the pair of the
  context; \<open>UnpossessByEntity\<close> removes the pair of exactly this entity and ignores one of another
  version.  None of the three aborts.
\<close>

theorem possession_operations:
  assumes "possession_ok p"
  shows "(if possessed p c \<noteq> None then TryPossess p c e = Inr (DuplicateContext, p)
      else if \<exists>c' x. possessed p c' = Some x \<and> GetId x = GetId e
        then TryPossess p c e = Inr (EntityAlreadyPossessed, p)
      else \<exists>p'. TryPossess p c e = Inr (Success, p') \<and> possession_ok p' \<and>
        possessed p' = (possessed p)(c \<mapsto> e)) \<and>
    (\<exists>p'. UnpossessByContext p c = Inr p' \<and> possession_ok p' \<and> possessed p' = (possessed p)(c := None)) \<and>
    (\<exists>p'. UnpossessByEntity p e = Inr p' \<and> possession_ok p' \<and>
        possessed p' = (\<lambda>c. if possessed p c = Some e then None else possessed p c))"
  by (intro conjI TryPossess_eq [OF assms] UnpossessByContext_ok [OF assms] UnpossessByEntity_ok [OF assms])

theorem possession_operations_witness:
  "\<exists>p' p''. TryPossess (new_possession (\<lambda>i. 0) (zero_memory \<lparr>DenseIndex = 0, SData = NullEntity\<rparr>)
        (zero_memory \<lparr>DenseIndex = 0, SData = (0, 0)\<rparr>)) 7 (Entity 5 1) = Inr (Success, p') \<and>
     TryPossess p' 7 (Entity 6 1) = Inr (DuplicateContext, p') \<and>
     TryPossess p' 8 (Entity 5 1) = Inr (EntityAlreadyPossessed, p') \<and>
     UnpossessByEntity p' (Entity 5 1) = Inr p'' \<and> possessed p'' = Map.empty"
proof -
  let ?p = "new_possession (\<lambda>i. 0) (zero_memory \<lparr>DenseIndex = 0, SData = NullEntity\<rparr>)
        (zero_memory \<lparr>DenseIndex = 0, SData = (0, 0)\<rparr>)"
  have "possession_ok ?p" "possessed ?p = Map.empty" by (rule new_possession_ok)+
  with possession_operations [of ?p 7 "Entity 5 1"] obtain p' where
    p': "TryPossess ?p 7 (Entity 5 1) = Inr (Success, p')" "possession_ok p'" "possessed p' = [7 \<mapsto> Entity 5 1]"
    by auto
  have "TryPossess p' 7 (Entity 6 1) = Inr (DuplicateContext, p')"
    using possession_operations [OF p'(2), of 7 "Entity 6 1"] p'(3) by simp
  moreover have "TryPossess p' 8 (Entity 5 1) = Inr (EntityAlreadyPossessed, p')"
    using possession_operations [OF p'(2), of 8 "Entity 5 1"] p'(3) by auto
  moreover obtain p'' where "UnpossessByEntity p' (Entity 5 1) = Inr p''"
      "possessed p'' = (\<lambda>c. if possessed p' c = Some (Entity 5 1) then None else possessed p' c)"
    using possession_operations [OF p'(2), of 8 "Entity 5 1"] by blast
  moreover from this(2) have "possessed p'' = Map.empty" by (simp add: p'(3) fun_eq_iff)
  ultimately show ?thesis using p'(1) by blast
qed

text \<open>
  The system \<open>S_PlayerCharacters_UnpossessOnDisconnected\<close> ends the possession of every context
  for which a session-erased event is queued, keeps all other possessions and global objects,
  and leaves the event queue to whoever clears it.
\<close>

theorem unpossess_on_disconnected:
  assumes "world_possession w p" and "events (EventManager w) Event_SessionErased = Inr cs"
  shows "\<exists>w' p'. S_PlayerCharacters_UnpossessOnDisconnected w = Inr w' \<and> world_possession w' p' \<and>
    EventManager w' = EventManager w \<and>
    (\<forall>t. t \<noteq> G_Possession \<longrightarrow> registered (GlobalObjectManager w') t = registered (GlobalObjectManager w) t) \<and>
    possessed p' = (\<lambda>c. if c \<in> set cs then None else possessed p c)"
  using for_events_ok [OF assms(1), of cs] assms(2)
  by (simp add: S_PlayerCharacters_UnpossessOnDisconnected_def)

theorem unpossess_on_disconnected_witness:
  "\<exists>w w' p p'. world_possession w p \<and> possessed p 7 = Some (Entity 5 1) \<and>
     S_PlayerCharacters_UnpossessOnDisconnected w = Inr w' \<and> world_possession w' p' \<and> possessed p' 7 = None"
proof -
  have "possession_ok (new_possession (\<lambda>i. 0) (zero_memory \<lparr>DenseIndex = 0, SData = NullEntity\<rparr>)
        (zero_memory \<lparr>DenseIndex = 0, SData = (0, 0)\<rparr>))" (is "possession_ok ?n") by (rule new_possession_ok)
  then obtain p where "possession_ok p" "possessed p = (possessed ?n)(7 \<mapsto> Entity 5 1)"
    by (rule TryPossess_ok [of ?n 7 "Entity 5 1"]) (simp_all add: new_possession_ok(2))
  then have p: "possession_ok p" "possessed p 7 = Some (Entity 5 1)" by simp_all
  define ev :: "(event_type, u32 list) registry" where "ev = \<lparr>RuntimeOrder = (\<lambda>t. 0), objects = [[7]]\<rparr>"
  obtain g r where "RegisterGlobalObjects g p new_registry = Inr r" and
    w: "world_possession \<lparr>GlobalObjectManager = r, EventManager = ev\<rparr> p"
    using RegisterGlobalObjects_ok [OF p(1)] by metis
  have "events ev Event_SessionErased = Inr [7]"
    by (simp add: ev_def events_def object_of_def GetRuntimeOrder_def UnregisteredRuntimeOrder_def)
  then obtain w' p' where "S_PlayerCharacters_UnpossessOnDisconnected \<lparr>GlobalObjectManager = r, EventManager = ev\<rparr>
      = Inr w'" "world_possession w' p'" "possessed p' = (\<lambda>c. if c \<in> set [7] then None else possessed p c)"
    using unpossess_on_disconnected [OF w, of "[7]"] by auto
  moreover from this(3) have "possessed p' 7 = None" by simp
  ultimately show ?thesis using w p(2) by blast
qed

text \<open>
  \<open>G_PlayerCharacters\<close> keeps an owner and an entity per character, entities being owned once.
  \<open>AddOwnership\<close> adds an entry for a new character and a new entity id and aborts otherwise;
  \<open>GetEntityOf\<close> returns the entity to the owner of the character and the null handle to any other
  player or for an unknown character, and its integrity check never aborts.
\<close>

theorem player_characters_ownership:
  assumes "player_characters_ok g"
  shows "(if owner_of g ch = None \<and> unat (GetId e) \<notin> ids_of g
      then \<exists>g'. AddOwnership g pl ch e = Inr g' \<and> player_characters_ok g' \<and>
        owner_of g' = (owner_of g)(ch \<mapsto> (pl, e)) \<and> ids_of g' = insert (unat (GetId e)) (ids_of g)
      else AddOwnership g pl ch e = Inl Aborted) \<and>
    GetEntityOf g pl ch = Inr (case owner_of g ch of None \<Rightarrow> NullEntity
      | Some (pl', x) \<Rightarrow> if pl' = pl then x else NullEntity)"
proof (rule conjI)
  show "GetEntityOf g pl ch = Inr (case owner_of g ch of None \<Rightarrow> NullEntity
      | Some (pl', x) \<Rightarrow> if pl' = pl then x else NullEntity)"
    by (rule GetEntityOf_eq [OF assms])
  have "AddOwnership g pl ch e = Inl Aborted" if "owner_of g ch \<noteq> None \<or> unat (GetId e) \<in> ids_of g"
  proof -
    have "smap (characterEntityMap g) (unat ch) \<noteq> None \<or>
        smap (entityPlayerMap g) (unat (GetId e)) \<noteq> None"
      using that ids_of_iff(1) [OF assms] by (auto simp: owner_of_def split: option.splits)
    then show ?thesis using assms
      by (auto simp: AddOwnership_def slist_get_eq player_characters_ok_def)
  qed
  moreover have "\<exists>g'. AddOwnership g pl ch e = Inr g' \<and> player_characters_ok g' \<and>
        owner_of g' = (owner_of g)(ch \<mapsto> (pl, e)) \<and> ids_of g' = insert (unat (GetId e)) (ids_of g)"
    if "owner_of g ch = None" "unat (GetId e) \<notin> ids_of g"
    using AddOwnership_ok [OF assms that] by metis
  ultimately show "if owner_of g ch = None \<and> unat (GetId e) \<notin> ids_of g
      then \<exists>g'. AddOwnership g pl ch e = Inr g' \<and> player_characters_ok g' \<and>
        owner_of g' = (owner_of g)(ch \<mapsto> (pl, e)) \<and> ids_of g' = insert (unat (GetId e)) (ids_of g)
      else AddOwnership g pl ch e = Inl Aborted" by presburger
qed

theorem player_characters_ownership_witness:
  "\<exists>g'. AddOwnership (new_player_characters (\<lambda>i. 0) (zero_memory \<lparr>DenseIndex = 0, SData = NullEntity\<rparr>)
        (zero_memory \<lparr>DenseIndex = 0, SData = (0, 0)\<rparr>)) 1 2 (Entity 5 1) = Inr g' \<and>
     GetEntityOf g' 1 2 = Inr (Entity 5 1) \<and> GetEntityOf g' 3 2 = Inr NullEntity"
proof -
  let ?g = "new_player_characters (\<lambda>i. 0) (zero_memory \<lparr>DenseIndex = 0, SData = NullEntity\<rparr>)
        (zero_memory \<lparr>DenseIndex = 0, SData = (0, 0)\<rparr>)"
  have ok: "player_characters_ok ?g" "owner_of ?g = Map.empty" by (rule new_player_characters_ok)+
  have "ids_of ?g = {}"
    by (simp add: ids_of_def new_player_characters_def slist_ok_new(2) NodeMetadataSize_def)
  with player_characters_ownership [OF ok(1), of 2 "Entity 5 1" 1] ok(2)
  obtain g' where g': "AddOwnership ?g 1 2 (Entity 5 1) = Inr g'" "player_characters_ok g'"
    "owner_of g' = [2 \<mapsto> (1, Entity 5 1)]" by auto
  with player_characters_ownership [OF g'(2), of 2 NullEntity 1]
    player_characters_ownership [OF g'(2), of 2 NullEntity 3] show ?thesis by auto
qed

end
