(* ===== verification/Ring.thy ===== *)
theory Ring
  imports Interfaces
begin

text \<open>
  Bytes in memory and in ring buffers, shared by \<open>SpscRingBuffer\<close> and \<open>Session\<close>: copies that must
  stay inside of their buffer, 64-bit size arithmetic, and the bytes a ring buffer holds between
  its head and its tail.
\<close>

section \<open>Buffers and sizes\<close>

type_synonym buffer = "u8 list"

text \<open>\<open>memcpy(dst + pos, xs, |xs|)\<close> and the bytes \<open>memcpy(_, src + pos, n)\<close> reads.\<close>

definition store_bytes :: "buffer \<Rightarrow> nat \<Rightarrow> u8 list \<Rightarrow> buffer res" where
  "store_bytes dst pos xs =
     (if pos + length xs \<le> length dst
      then Inr (take pos dst @ xs @ drop (pos + length xs) dst) else Inl OutOfBounds)"

definition load_bytes :: "buffer \<Rightarrow> nat \<Rightarrow> nat \<Rightarrow> u8 list res" where
  "load_bytes src pos n =
     (if pos + n \<le> length src then Inr (take n (drop pos src)) else Inl OutOfBounds)"

text \<open>Arithmetic of \<open>size_t\<close>.\<close>

definition add64 :: "nat \<Rightarrow> nat \<Rightarrow> nat" where
  "add64 a b = (a + b) mod 2 ^ 64"

definition sub64 :: "nat \<Rightarrow> nat \<Rightarrow> nat" where
  "sub64 a b = (a + 2 ^ 64 - b) mod 2 ^ 64"

lemma add64_eq: "a + b < 2 ^ 64 \<Longrightarrow> add64 a b = a + b"
  by (simp add: add64_def)

lemma sub64_eq: "b \<le> a \<Longrightarrow> a < 2 ^ 64 \<Longrightarrow> sub64 a b = a - b"
proof -
  assume a: "b \<le> a" "a < 2 ^ 64"
  then have "a + 2 ^ 64 - b = (a - b) + 2 ^ 64" by simp
  then show ?thesis using a by (simp only: sub64_def mod_add_self2) simp
qed

section \<open>Ring positions\<close>

text \<open>The number of bytes between head and tail, and the bytes, in order.\<close>

definition ring_size :: "nat \<Rightarrow> nat \<Rightarrow> nat \<Rightarrow> nat" where
  "ring_size cap h t = (if h \<le> t then t - h else cap - h + t)"

definition ring_bytes :: "buffer \<Rightarrow> nat \<Rightarrow> nat \<Rightarrow> u8 list" where
  "ring_bytes buf h n = map (\<lambda>i. buf ! ((h + i) mod length buf)) [0..<n]"

definition ring_content :: "buffer \<Rightarrow> nat \<Rightarrow> nat \<Rightarrow> u8 list" where
  "ring_content buf h t = ring_bytes buf h (ring_size (length buf) h t)"

lemma mod_shift: "m \<le> i \<Longrightarrow> ((h + m) mod c + (i - m)) mod c = (h + i) mod (c::nat)"
  using mod_add_left_eq [of "h + m" c "i - m"] by simp

lemma ring_size_less: "h < cap \<Longrightarrow> t < cap \<Longrightarrow> ring_size cap h t < cap"
  by (auto simp: ring_size_def)

lemma ring_size_tail:
  assumes "h < cap" and "n < cap"
  shows "ring_size cap h ((h + n) mod cap) = n"
proof (cases "h + n < cap")
  case True
  then show ?thesis by (simp add: ring_size_def)
next
  case False
  then have "(h + n) mod cap = h + n - cap" using assms by (simp add: le_mod_geq)
  then show ?thesis using assms False by (auto simp: ring_size_def)
qed

lemma ring_tail_eq:
  assumes "h < cap" and "t < cap"
  shows "t = (h + ring_size cap h t) mod cap"
  using assms by (auto simp: ring_size_def le_mod_geq)

text \<open>Every pair of positions is a head and a number of bytes; this is the form proofs use.\<close>

lemma ring_cases:
  assumes "h < cap" and "t < cap"
  obtains n where "n < cap" "t = (h + n) mod cap" "ring_size cap h t = n"
  using ring_tail_eq [OF assms] ring_size_less [OF assms] that by metis

lemma length_ring_bytes [simp]: "length (ring_bytes buf h n) = n"
  by (simp add: ring_bytes_def)

lemma length_ring_content [simp]: "length (ring_content buf h t) = ring_size (length buf) h t"
  by (simp add: ring_content_def)

lemma nth_ring_bytes [simp]: "i < n \<Longrightarrow> ring_bytes buf h n ! i = buf ! ((h + i) mod length buf)"
  by (simp add: ring_bytes_def)

lemma ring_bytes_add:
  assumes "0 < length buf"
  shows "ring_bytes buf h (m + n) = ring_bytes buf h m @ ring_bytes buf ((h + m) mod length buf) n"
proof (rule nth_equalityI)
  fix i assume i: "i < length (ring_bytes buf h (m + n))"
  have "((h + m) mod length buf + (i - m)) mod length buf = (h + i) mod length buf" if "m \<le> i"
    using that by (rule mod_shift)
  then show "ring_bytes buf h (m + n) ! i =
      (ring_bytes buf h m @ ring_bytes buf ((h + m) mod length buf) n) ! i"
    using i by (auto simp: nth_append)
qed simp

lemma ring_bytes_take: "m \<le> n \<Longrightarrow> take m (ring_bytes buf h n) = ring_bytes buf h m"
  by (rule nth_equalityI) auto

lemma ring_bytes_drop:
  assumes "m \<le> n" and "0 < length buf"
  shows "drop m (ring_bytes buf h n) = ring_bytes buf ((h + m) mod length buf) (n - m)"
  using ring_bytes_add [OF assms(2), of h m "n - m"] assms(1) by simp

text \<open>Advancing the head drops bytes.\<close>

lemma ring_content_pop:
  assumes "h < length buf" and "t < length buf" and "n \<le> ring_size (length buf) h t"
  shows "ring_content buf ((h + n) mod length buf) t = drop n (ring_content buf h t)"
    and "ring_size (length buf) ((h + n) mod length buf) t = ring_size (length buf) h t - n"
proof -
  let ?c = "length buf"
  obtain k where k: "k < ?c" "t = (h + k) mod ?c" "ring_size ?c h t = k"
    by (rule ring_cases [OF assms(1,2)])
  have c: "0 < ?c" using assms(1) by linarith
  have "t = ((h + n) mod ?c + (k - n)) mod ?c"
    using k assms(3) mod_shift [of n k h ?c] by simp
  then show s: "ring_size ?c ((h + n) mod ?c) t = ring_size ?c h t - n"
    using ring_size_tail [of "(h + n) mod ?c" ?c "k - n"] k c by simp
  then show "ring_content buf ((h + n) mod ?c) t = drop n (ring_content buf h t)"
    using ring_bytes_drop [OF _ c] assms(3) by (simp add: ring_content_def)
qed

section \<open>Copies in and out\<close>

lemma length_store_bytes: "store_bytes dst pos xs = Inr dst' \<Longrightarrow> length dst' = length dst"
  by (auto simp: store_bytes_def split: if_splits)

lemma nth_store_bytes:
  assumes "store_bytes dst pos xs = Inr dst'" and "i < length dst"
  shows "dst' ! i = (if pos \<le> i \<and> i < pos + length xs then xs ! (i - pos) else dst ! i)"
  using assms by (auto simp: store_bytes_def nth_append split: if_splits)

text \<open>
  The two copies every writer of a ring buffer makes: from the tail to the end of the buffer, and
  the rest from the start of the buffer.
\<close>

definition ring_store :: "buffer \<Rightarrow> nat \<Rightarrow> u8 list \<Rightarrow> buffer res" where
  "ring_store buf t xs =
     (let primarySize = min (length xs) (length buf - t)
      in bindR (store_bytes buf t (take primarySize xs)) (\<lambda>buf'.
         store_bytes buf' 0 (drop primarySize xs)))"

lemma ring_store_ok:
  assumes "t < length buf" and "length xs \<le> length buf"
  obtains buf' where "ring_store buf t xs = Inr buf'" "length buf' = length buf"
    "\<And>i. i < length xs \<Longrightarrow> buf' ! ((t + i) mod length buf) = xs ! i"
    "\<And>j. j < length buf \<Longrightarrow> (\<And>i. i < length xs \<Longrightarrow> j \<noteq> (t + i) mod length buf) \<Longrightarrow> buf' ! j = buf ! j"
proof -
  let ?c = "length buf" and ?p = "min (length xs) (length buf - t)"
  have "\<exists>b1. store_bytes buf t (take ?p xs) = Inr b1" using assms by (simp add: store_bytes_def)
  then obtain b1 where b1: "store_bytes buf t (take ?p xs) = Inr b1" ..
  have l1: "length b1 = ?c" by (rule length_store_bytes [OF b1])
  have "\<exists>b2. store_bytes b1 0 (drop ?p xs) = Inr b2" using assms l1 by (simp add: store_bytes_def)
  then obtain b2 where b2: "store_bytes b1 0 (drop ?p xs) = Inr b2" ..
  have l2: "length b2 = ?c" using length_store_bytes [OF b2] l1 by simp
  have n2: "b2 ! j = (if j < length xs - ?p then xs ! (?p + j)
      else if t \<le> j \<and> j < t + ?p then xs ! (j - t) else buf ! j)" if "j < ?c" for j
  proof -
    have lp: "length (take ?p xs) = ?p" by simp
    have "take ?p xs ! (j - t) = xs ! (j - t)" if "t \<le> j \<and> j < t + ?p"
      by (rule nth_take) (use that in linarith)
    then have "b1 ! j = (if t \<le> j \<and> j < t + ?p then xs ! (j - t) else buf ! j)"
      using nth_store_bytes [OF b1 that] unfolding lp by presburger
    moreover have "b2 ! j = (if j < length xs - ?p then xs ! (?p + j) else b1 ! j)"
      using nth_store_bytes [OF b2, of j] that l1 by auto
    ultimately show ?thesis by presburger
  qed
  show thesis
  proof (rule that [of b2])
    show "ring_store buf t xs = Inr b2" using b1 b2 by (simp add: ring_store_def Let_def)
    show "length b2 = ?c" by (rule l2)
    show "b2 ! ((t + i) mod ?c) = xs ! i" if i: "i < length xs" for i
    proof (cases "t + i < ?c")
      case True
      have "\<not> t + i < length xs - ?p" using i assms True by (auto simp: min_def)
      moreover have "i < ?p" using i True by auto
      ultimately show ?thesis using n2 [of "t + i"] True by simp
    next
      case False
      then have "(t + i) mod ?c = t + i - ?c" using i assms by (simp add: le_mod_geq)
      moreover have "?p = ?c - t" using False i by auto
      ultimately show ?thesis using n2 [of "t + i - ?c"] False i assms by auto
    qed
    show "b2 ! j = buf ! j" if j: "j < ?c" and no: "\<And>i. i < length xs \<Longrightarrow> j \<noteq> (t + i) mod ?c" for j
    proof -
      have "\<not> j < length xs - ?p"
      proof
        assume a: "j < length xs - ?p"
        then have p: "?p = ?c - t" by (auto simp: min_def split: if_splits)
        have "(t + (?c - t + j)) mod ?c = j" using j assms by simp
        moreover have "?c - t + j < length xs" using a p by linarith
        ultimately show False using no [of "?c - t + j"] by simp
      qed
      moreover have "\<not> (t \<le> j \<and> j < t + ?p)"
      proof
        assume a: "t \<le> j \<and> j < t + ?p"
        then have "j - t < length xs" by linarith
        then show False using no [of "j - t"] a j by simp
      qed
      ultimately show ?thesis using n2 [OF j] by (simp only: if_False)
    qed
  qed
qed

text \<open>Storing at the tail appends to the content; the bytes already there do not change.\<close>

lemma ring_store_content:
  assumes "h < length buf" and "t < length buf"
    and "ring_size (length buf) h t + length xs < length buf"
  obtains buf' where "ring_store buf t xs = Inr buf'" "length buf' = length buf"
    "ring_content buf' h t = ring_content buf h t"
    "ring_content buf' h ((t + length xs) mod length buf) = ring_content buf h t @ xs"
    "ring_size (length buf) h ((t + length xs) mod length buf) = ring_size (length buf) h t + length xs"
proof -
  let ?c = "length buf"
  obtain k where k: "k < ?c" "t = (h + k) mod ?c" "ring_size ?c h t = k"
    by (rule ring_cases [OF assms(1,2)])
  have le: "length xs \<le> ?c" using assms(3) by simp
  obtain buf' where b: "ring_store buf t xs = Inr buf'" "length buf' = ?c"
    "\<And>i. i < length xs \<Longrightarrow> buf' ! ((t + i) mod ?c) = xs ! i"
    "\<And>j. j < ?c \<Longrightarrow> (\<And>i. i < length xs \<Longrightarrow> j \<noteq> (t + i) mod ?c) \<Longrightarrow> buf' ! j = buf ! j"
    by (rule ring_store_ok [OF assms(2) le]) blast
  have kn: "k + length xs < ?c" using assms(3) k(3) by simp
  have tn: "(t + length xs) mod ?c = (h + (k + length xs)) mod ?c"
    using k(2) by (simp add: mod_add_left_eq add.assoc)
  have old: "buf' ! ((h + i) mod ?c) = buf ! ((h + i) mod ?c)" if "i < k" for i
  proof (rule b(4))
    show "(h + i) mod ?c < ?c" by (rule mod_less_divisor) (use assms(1) in linarith)
    fix j assume j: "j < length xs"
    have "(t + j) mod ?c = (h + (k + j)) mod ?c" using k(2) by (simp add: mod_add_left_eq add.assoc)
    moreover have "ring_size ?c h ((h + i) mod ?c) = i" "ring_size ?c h ((h + (k + j)) mod ?c) = k + j"
      using ring_size_tail [OF assms(1), of i] ring_size_tail [OF assms(1), of "k + j"] that j kn by simp_all
    ultimately show "(h + i) mod ?c \<noteq> (t + j) mod ?c" using that by auto
  qed
  have o1: "ring_bytes buf' h k = ring_bytes buf h k"
    by (rule nth_equalityI) (simp_all add: old b(2))
  have "ring_bytes buf' t (length xs) = xs"
    by (rule nth_equalityI) (simp_all add: b(2,3))
  moreover have "ring_bytes buf' h (k + length xs) = ring_bytes buf' h k @ ring_bytes buf' t (length xs)"
    using ring_bytes_add [of buf' h k "length xs"] b(2) k(1,2) by (cases "buf = []") simp_all
  ultimately have o2: "ring_bytes buf' h (k + length xs) = ring_bytes buf h k @ xs" using o1 by simp
  have s: "ring_size ?c h ((t + length xs) mod ?c) = k + length xs"
    unfolding tn using ring_size_tail [OF assms(1) kn] .
  show thesis
    by (rule that [OF b(1,2)]) (simp_all add: ring_content_def b(2) s o1 o2 k(3))
qed

text \<open>Reading from the head in two copies.\<close>

lemma load_contiguous:
  assumes "h + n \<le> length buf"
  shows "load_bytes buf h n = Inr (ring_bytes buf h n)"
proof -
  have "take n (drop h buf) = ring_bytes buf h n"
    by (rule nth_equalityI) (use assms in auto)
  then show ?thesis using assms by (simp add: load_bytes_def)
qed

lemma load_wrapped:
  assumes "h < length buf" and "length buf - h \<le> n" and "n \<le> length buf"
  shows "\<exists>xs ys. load_bytes buf h (length buf - h) = Inr xs \<and> load_bytes buf 0 (n - (length buf - h)) = Inr ys \<and>
    xs @ ys = ring_bytes buf h n"
proof -
  let ?c = "length buf" and ?p = "length buf - h"
  have "ring_bytes buf h (?p + (n - ?p)) = ring_bytes buf h ?p @ ring_bytes buf ((h + ?p) mod ?c) (n - ?p)"
    using assms by (intro ring_bytes_add) auto
  then have "ring_bytes buf h n = ring_bytes buf h ?p @ ring_bytes buf 0 (n - ?p)" using assms by simp
  moreover have "load_bytes buf h ?p = Inr (ring_bytes buf h ?p)"
    "load_bytes buf 0 (n - ?p) = Inr (ring_bytes buf 0 (n - ?p))"
    using assms by (intro load_contiguous; simp)+
  ultimately show ?thesis by simp
qed

end
