(* ===== verification/Spsc_Ring.thy ===== *)
theory Spsc_Ring
  imports Ring
begin

text \<open>
  \<open>SpscRingBuffer\<close> of SpscRingBuffer.h and .cpp: a byte queue for one producer and one consumer
  thread.  First the operations one after the other, then the two threads interleaved, with the
  loads of the indices, the copies and the stores of the indices as separate steps.
\<close>

section \<open>State and operations\<close>

record spsc =
  Capacity :: nat
  MaxBlockSize :: nat
  ringBuffer :: buffer
  tempDequeueBuffer :: buffer
  tempEnqueueBuffer :: "buffer option"
  sHead :: nat
  sTail :: nat

record status =
  LoadedHead :: nat
  LoadedTail :: nat
  Size :: nat
  AvailableSize :: nat

text \<open>The constructor; \<open>make_unique<char[]>\<close> clears the memory, \<open>tempEnqueueBuffer_\<close> stays null.\<close>

definition new_spsc :: "nat \<Rightarrow> nat \<Rightarrow> spsc" where
  "new_spsc capacity maxBlockSize =
     \<lparr>Capacity = capacity, MaxBlockSize = maxBlockSize, ringBuffer = replicate capacity 0,
      tempDequeueBuffer = replicate maxBlockSize 0, tempEnqueueBuffer = None, sHead = 0, sTail = 0\<rparr>"

definition GetBufferStatus :: "spsc \<Rightarrow> status" where
  "GetBufferStatus r =
     (let h = sHead r; t = sTail r;
          sz = (if h \<le> t then sub64 t h else sub64 (add64 t (Capacity r)) h)
      in \<lparr>LoadedHead = h, LoadedTail = t, Size = sz,
          AvailableSize = sub64 (sub64 (Capacity r) sz) 1\<rparr>)"

text \<open>
  What is enqueued: the bytes behind a \<open>const char*\<close>, or a protobuf message, given by the bytes that
  \<open>SerializeToArray(_, size)\<close> writes for a size.
\<close>

datatype payload = Raw "u8 list" | Proto "nat \<Rightarrow> u8 list"

text \<open>The copies of \<open>TryEnqueue\<close>.\<close>

definition write_block :: "spsc \<Rightarrow> status \<Rightarrow> payload \<Rightarrow> nat \<Rightarrow> spsc res" where
  "write_block r st d sz =
     (let primarySize = min sz (sub64 (Capacity r) (LoadedTail st));
          secondarySize = sub64 sz primarySize
      in case d of
        Raw bytes \<Rightarrow>
          bindR (load_bytes bytes 0 primarySize) (\<lambda>xs.
          bindR (store_bytes (ringBuffer r) (LoadedTail st) xs) (\<lambda>buf.
          bindR (load_bytes bytes primarySize secondarySize) (\<lambda>ys.
          bindR (store_bytes buf 0 ys) (\<lambda>buf'. Inr (r\<lparr>ringBuffer := buf'\<rparr>)))))
      | Proto serialize \<Rightarrow>
          if secondarySize = 0 then
            bindR (store_bytes (ringBuffer r) (LoadedTail st) (serialize sz)) (\<lambda>buf.
            Inr (r\<lparr>ringBuffer := buf\<rparr>))
          else (case tempEnqueueBuffer r of
            None \<Rightarrow> Inl NullDeref
          | Some temp \<Rightarrow>
              bindR (store_bytes temp 0 (serialize sz)) (\<lambda>temp'.
              bindR (load_bytes temp' 0 primarySize) (\<lambda>xs.
              bindR (store_bytes (ringBuffer r) (LoadedTail st) xs) (\<lambda>buf.
              bindR (load_bytes temp' primarySize secondarySize) (\<lambda>ys.
              bindR (store_bytes buf 0 ys) (\<lambda>buf'.
              Inr (r\<lparr>ringBuffer := buf', tempEnqueueBuffer := Some temp'\<rparr>))))))))"

definition store_tail :: "spsc \<Rightarrow> status \<Rightarrow> nat \<Rightarrow> spsc res" where
  "store_tail r st sz =
     (if Capacity r = 0 then Inl DivByZero
      else Inr (r\<lparr>sTail := add64 (LoadedTail st) sz mod Capacity r\<rparr>))"

definition TryEnqueue :: "spsc \<Rightarrow> payload \<Rightarrow> nat \<Rightarrow> (bool \<times> spsc) res" where
  "TryEnqueue r d sz =
     (let st = GetBufferStatus r
      in if AvailableSize st < sz then Inr (False, r)
         else bindR (write_block r st d sz) (\<lambda>r'.
              bindR (store_tail r' st sz) (\<lambda>r''. Inr (True, r''))))"

definition Dequeue :: "spsc \<Rightarrow> nat \<Rightarrow> spsc res" where
  "Dequeue r sz =
     (if Capacity r = 0 then Inl DivByZero
      else Inr (r\<lparr>sHead := add64 (sHead r) sz mod Capacity r\<rparr>))"

text \<open>\<open>TryPeek\<close> with the status loaded before: the bytes behind the pointer it returns.\<close>

definition peek_with :: "spsc \<Rightarrow> status \<Rightarrow> nat \<Rightarrow> (u8 list option \<times> spsc) res" where
  "peek_with r st sz =
     (if Size st < sz then Inr (None, r)
      else if sz \<le> sub64 (Capacity r) (LoadedHead st) then
        bindR (load_bytes (ringBuffer r) (LoadedHead st) sz) (\<lambda>xs. Inr (Some xs, r))
      else
        let primarySize = sub64 (Capacity r) (LoadedHead st);
            secondarySize = sub64 sz primarySize
        in bindR (load_bytes (ringBuffer r) (LoadedHead st) primarySize) (\<lambda>xs.
           bindR (store_bytes (tempDequeueBuffer r) 0 xs) (\<lambda>temp.
           bindR (load_bytes (ringBuffer r) 0 secondarySize) (\<lambda>ys.
           bindR (store_bytes temp primarySize ys) (\<lambda>temp'.
           bindR (load_bytes temp' 0 sz) (\<lambda>zs.
           Inr (Some zs, r\<lparr>tempDequeueBuffer := temp'\<rparr>)))))))"

definition TryPeek :: "spsc \<Rightarrow> nat \<Rightarrow> (u8 list option \<times> spsc) res" where
  "TryPeek r sz = peek_with r (GetBufferStatus r) sz"

definition GetAvailableSize :: "spsc \<Rightarrow> nat" where
  "GetAvailableSize r = AvailableSize (GetBufferStatus r)"

definition GetSize :: "spsc \<Rightarrow> nat" where
  "GetSize r = Size (GetBufferStatus r)"

section \<open>The queue\<close>

definition spsc_ok :: "spsc \<Rightarrow> bool" where
  "spsc_ok r \<longleftrightarrow> Capacity r < 2 ^ 63 \<and> length (ringBuffer r) = Capacity r \<and>
     length (tempDequeueBuffer r) = MaxBlockSize r \<and> sHead r < Capacity r \<and> sTail r < Capacity r"

definition spsc_size :: "spsc \<Rightarrow> nat" where
  "spsc_size r = ring_size (Capacity r) (sHead r) (sTail r)"

definition spsc_content :: "spsc \<Rightarrow> u8 list" where
  "spsc_content r = ring_content (ringBuffer r) (sHead r) (sTail r)"

lemma spsc_okD:
  assumes "spsc_ok r"
  shows "Capacity r < 2 ^ 63" "length (ringBuffer r) = Capacity r"
    "length (tempDequeueBuffer r) = MaxBlockSize r" "sHead r < Capacity r" "sTail r < Capacity r"
  using assms by (simp_all add: spsc_ok_def)

lemma length_spsc_content: "spsc_ok r \<Longrightarrow> length (spsc_content r) = spsc_size r"
  by (simp add: spsc_content_def spsc_size_def spsc_ok_def)

lemma status_eq:
  assumes "spsc_ok r"
  shows "GetBufferStatus r = \<lparr>LoadedHead = sHead r, LoadedTail = sTail r, Size = spsc_size r,
    AvailableSize = Capacity r - spsc_size r - 1\<rparr>" and "spsc_size r < Capacity r"
proof -
  note K = spsc_okD [OF assms]
  show l: "spsc_size r < Capacity r" using K(4,5) by (simp add: spsc_size_def ring_size_less)
  have "(if sHead r \<le> sTail r then sub64 (sTail r) (sHead r)
      else sub64 (add64 (sTail r) (Capacity r)) (sHead r)) = spsc_size r"
    using K(1,4,5) by (auto simp: spsc_size_def ring_size_def sub64_eq add64_eq)
  moreover have "sub64 (sub64 (Capacity r) (spsc_size r)) 1 = Capacity r - spsc_size r - 1"
    using K(1) l by (simp add: sub64_eq)
  ultimately show "GetBufferStatus r = \<lparr>LoadedHead = sHead r, LoadedTail = sTail r, Size = spsc_size r,
    AvailableSize = Capacity r - spsc_size r - 1\<rparr>" by (simp add: GetBufferStatus_def Let_def)
qed

lemma write_block_raw:
  assumes ok: "spsc_ok r" and t: "LoadedTail st = sTail r" and room: "spsc_size r + length xs < Capacity r"
  obtains buf where "write_block r st (Raw xs) (length xs) = Inr (r\<lparr>ringBuffer := buf\<rparr>)"
    "spsc_ok (r\<lparr>ringBuffer := buf\<rparr>)" "spsc_content (r\<lparr>ringBuffer := buf\<rparr>) = spsc_content r"
    "ring_content buf (sHead r) ((sTail r + length xs) mod Capacity r) = spsc_content r @ xs"
    "ring_size (Capacity r) (sHead r) ((sTail r + length xs) mod Capacity r) = spsc_size r + length xs"
proof -
  note K = spsc_okD [OF ok]
  let ?p = "min (length xs) (Capacity r - sTail r)"
  obtain buf where b: "ring_store (ringBuffer r) (sTail r) xs = Inr buf" "length buf = Capacity r"
    "ring_content buf (sHead r) (sTail r) = spsc_content r"
    "ring_content buf (sHead r) ((sTail r + length xs) mod Capacity r) = spsc_content r @ xs"
    "ring_size (Capacity r) (sHead r) ((sTail r + length xs) mod Capacity r) = spsc_size r + length xs"
    using ring_store_content [of "sHead r" "ringBuffer r" "sTail r" xs] K room
    by (auto simp: spsc_content_def spsc_size_def)
  have s: "sub64 (Capacity r) (sTail r) = Capacity r - sTail r" "sub64 (length xs) ?p = length xs - ?p"
    using K room by (simp_all add: sub64_eq)
  have l: "load_bytes xs 0 ?p = Inr (take ?p xs)" "load_bytes xs ?p (length xs - ?p) = Inr (drop ?p xs)"
    by (simp_all add: load_bytes_def)
  obtain b1 where "store_bytes (ringBuffer r) (sTail r) (take ?p xs) = Inr b1"
    "store_bytes b1 0 (drop ?p xs) = Inr buf"
    using b(1) K(2) by (auto simp: ring_store_def Let_def bindR_eq_Inr)
  then have "write_block r st (Raw xs) (length xs) = Inr (r\<lparr>ringBuffer := buf\<rparr>)"
    using l unfolding write_block_def Let_def t s payload.case by simp
  then show thesis using that b K by (simp add: spsc_ok_def spsc_content_def)
qed

lemma peek_with_fits:
  assumes ok: "spsc_ok r" and st: "LoadedHead st = sHead r" "Size st \<le> spsc_size r"
    and fits: "n \<le> MaxBlockSize r \<or> n \<le> Capacity r - sHead r"
  obtains temp where "peek_with r st n =
      Inr (if Size st < n then None else Some (take n (spsc_content r)), r\<lparr>tempDequeueBuffer := temp\<rparr>)"
    "spsc_ok (r\<lparr>tempDequeueBuffer := temp\<rparr>)"
proof -
  note K = spsc_okD [OF ok]
  have s: "sub64 (Capacity r) (sHead r) = Capacity r - sHead r" using K by (simp add: sub64_eq)
  have tk: "take n (spsc_content r) = ring_bytes (ringBuffer r) (sHead r) n" if "\<not> Size st < n"
    using that st(2) K(2) by (simp add: spsc_content_def ring_content_def ring_bytes_take spsc_size_def)
  have same: "r\<lparr>tempDequeueBuffer := tempDequeueBuffer r\<rparr> = r" by simp
  consider "Size st < n" | "\<not> Size st < n" "n \<le> Capacity r - sHead r"
    | "\<not> Size st < n" "Capacity r - sHead r < n" by linarith
  then show thesis
  proof cases
    case 1
    then show ?thesis using that [of "tempDequeueBuffer r"] ok by (simp add: peek_with_def)
  next
    case 2
    then have "load_bytes (ringBuffer r) (sHead r) n = Inr (ring_bytes (ringBuffer r) (sHead r) n)"
      using K by (intro load_contiguous) simp
    then show ?thesis using 2 that [of "tempDequeueBuffer r"] ok tk [OF 2(1)] s
      by (simp add: peek_with_def st(1))
  next
    case 3
    then have n: "n \<le> MaxBlockSize r" using fits by simp
    let ?p = "Capacity r - sHead r"
    have "spsc_size r < Capacity r" by (rule status_eq(2) [OF ok])
    then have nc: "n < Capacity r" using 3(1) st(2) by simp
    have s2: "sub64 n ?p = n - ?p" using 3 nc K(1) by (simp add: sub64_eq)
    obtain xs ys where l: "load_bytes (ringBuffer r) (sHead r) ?p = Inr xs"
      "load_bytes (ringBuffer r) 0 (n - ?p) = Inr ys" "xs @ ys = ring_bytes (ringBuffer r) (sHead r) n"
      using load_wrapped [of "sHead r" "ringBuffer r" n] K 3(2) nc by auto
    have len: "length xs = ?p" "length ys = n - ?p"
      using l K nc by (auto simp: load_bytes_def split: if_splits)
    define t1 where "t1 = xs @ drop ?p (tempDequeueBuffer r)"
    define t2 where "t2 = xs @ ys @ drop n (tempDequeueBuffer r)"
    have "store_bytes (tempDequeueBuffer r) 0 xs = Inr t1"
      using n 3(2) K(3) len by (simp add: store_bytes_def t1_def)
    moreover have "store_bytes t1 ?p ys = Inr t2"
      using n 3(2) K(3) len by (simp add: store_bytes_def t1_def t2_def)
    moreover have "load_bytes t2 0 n = Inr (xs @ ys)"
      using n 3(2) K(3) len by (simp add: load_bytes_def t2_def)
    ultimately have "peek_with r st n = Inr (Some (xs @ ys), r\<lparr>tempDequeueBuffer := t2\<rparr>)"
      using 3 l s s2 by (simp add: peek_with_def st(1) Let_def)
    moreover have "spsc_ok (r\<lparr>tempDequeueBuffer := t2\<rparr>)"
      using K n 3(2) len by (simp add: spsc_ok_def t2_def)
    ultimately show ?thesis using that [of t2] 3(1) tk [OF 3(1)] l(3) by simp
  qed
qed

lemma peek_with_ok:
  assumes "spsc_ok r" and "LoadedHead st = sHead r" "Size st \<le> spsc_size r" and "n \<le> MaxBlockSize r"
  obtains temp where "peek_with r st n =
      Inr (if Size st < n then None else Some (take n (spsc_content r)), r\<lparr>tempDequeueBuffer := temp\<rparr>)"
    "spsc_ok (r\<lparr>tempDequeueBuffer := temp\<rparr>)"
  by (rule peek_with_fits [OF assms(1-3) disjI1 [OF assms(4)]])

text \<open>The copy of more than \<open>MaxBlockSize\<close> bytes leaves \<open>tempDequeueBuffer_\<close>.\<close>

lemma peek_too_long:
  assumes ok: "spsc_ok r" and a: "Capacity r - sHead r < n" "n \<le> spsc_size r" "MaxBlockSize r < n"
  shows "TryPeek r n = Inl OutOfBounds"
proof -
  note K = spsc_okD [OF ok] and S = status_eq [OF ok]
  have n: "n < Capacity r" using a S(2) by simp
  obtain p where p: "p = Capacity r - sHead r" by blast
  have s: "sub64 (Capacity r) (sHead r) = p" "sub64 n p = n - p"
    using K n a p by (simp_all add: sub64_eq)
  have pn: "p < n" "n - p \<le> Capacity r" "\<not> Size (GetBufferStatus r) < n" using a p n S(1) by simp_all
  obtain xs ys where ld: "load_bytes (ringBuffer r) (sHead r) p = Inr xs" "length xs = p"
    "load_bytes (ringBuffer r) 0 (n - p) = Inr ys" "length ys = n - p"
    using K pn p by (simp add: load_bytes_def)
  show ?thesis
    using a K pn s ld by (auto simp: TryPeek_def peek_with_def S(1) Let_def store_bytes_def bindR_def)
qed

lemma Dequeue_ok:
  assumes ok: "spsc_ok r" and n: "n \<le> spsc_size r"
  shows "Dequeue r n = Inr (r\<lparr>sHead := (sHead r + n) mod Capacity r\<rparr>)"
    and "spsc_ok (r\<lparr>sHead := (sHead r + n) mod Capacity r\<rparr>)"
    and "spsc_content (r\<lparr>sHead := (sHead r + n) mod Capacity r\<rparr>) = drop n (spsc_content r)"
    and "spsc_size (r\<lparr>sHead := (sHead r + n) mod Capacity r\<rparr>) = spsc_size r - n"
proof -
  note K = spsc_okD [OF ok]
  have "n < Capacity r" using n status_eq(2) [OF ok] by simp
  then show "Dequeue r n = Inr (r\<lparr>sHead := (sHead r + n) mod Capacity r\<rparr>)"
    using K by (simp add: Dequeue_def add64_eq)
  show "spsc_ok (r\<lparr>sHead := (sHead r + n) mod Capacity r\<rparr>)" using K by (simp add: spsc_ok_def)
  show "spsc_content (r\<lparr>sHead := (sHead r + n) mod Capacity r\<rparr>) = drop n (spsc_content r)"
    "spsc_size (r\<lparr>sHead := (sHead r + n) mod Capacity r\<rparr>) = spsc_size r - n"
    using ring_content_pop [of "sHead r" "ringBuffer r" "sTail r" n] K n
    by (simp_all add: spsc_content_def spsc_size_def)
qed

lemma store_tail_eq:
  assumes ok: "spsc_ok r" and "LoadedTail st = sTail r" and "n < Capacity r"
  shows "store_tail r st n = Inr (r\<lparr>sTail := (sTail r + n) mod Capacity r\<rparr>)"
  using assms spsc_okD [OF ok] by (simp add: store_tail_def add64_eq)

lemma spsc_ok_new: "0 < c \<Longrightarrow> c < 2 ^ 63 \<Longrightarrow> spsc_ok (new_spsc c m) \<and> spsc_content (new_spsc c m) = []"
  by (simp add: spsc_ok_def new_spsc_def spsc_content_def ring_content_def ring_size_def ring_bytes_def)

lemma TryEnqueue_raw:
  assumes ok: "spsc_ok r" and True: "spsc_size r + length xs < Capacity r"
  shows "\<exists>r'. TryEnqueue r (Raw xs) (length xs) = Inr (True, r') \<and> spsc_ok r' \<and> tempEnqueueBuffer r' = tempEnqueueBuffer r \<and>
      spsc_content r' = spsc_content r @ xs \<and> Capacity r' = Capacity r \<and> MaxBlockSize r' = MaxBlockSize r"
proof -
  note K = spsc_okD [OF ok]
  let ?st = "GetBufferStatus r"
  have t: "LoadedTail ?st = sTail r" using status_eq [OF ok] by simp
  obtain buf where b: "write_block r ?st (Raw xs) (length xs) = Inr (r\<lparr>ringBuffer := buf\<rparr>)"
    "spsc_ok (r\<lparr>ringBuffer := buf\<rparr>)"
    "ring_content buf (sHead r) ((sTail r + length xs) mod Capacity r) = spsc_content r @ xs"
    by (rule write_block_raw [OF ok t True])
  let ?r = "r\<lparr>ringBuffer := buf, sTail := (sTail r + length xs) mod Capacity r\<rparr>"
  have "store_tail (r\<lparr>ringBuffer := buf\<rparr>) ?st (length xs) = Inr ?r"
    using store_tail_eq [OF b(2), of ?st "length xs"] t True by simp
  then have "TryEnqueue r (Raw xs) (length xs) = Inr (True, ?r)"
    using b(1) True status_eq [OF ok] by (simp add: TryEnqueue_def Let_def)
  moreover have "spsc_ok ?r" "spsc_content ?r = spsc_content r @ xs"
    using K b(2,3) by (simp_all add: spsc_ok_def spsc_content_def)
  ultimately show ?thesis by auto
qed

text \<open>A protobuf message: as raw bytes when it does not wrap around, else through the null \<open>tempEnqueueBuffer_\<close>.\<close>

lemma TryEnqueue_proto:
  assumes ok: "spsc_ok r" and ser: "ser (length xs) = xs" and room: "spsc_size r + length xs < Capacity r"
  shows "length xs \<le> Capacity r - sTail r \<Longrightarrow> TryEnqueue r (Proto ser) (length xs) = TryEnqueue r (Raw xs) (length xs)"
    and "tempEnqueueBuffer r = None \<Longrightarrow> Capacity r - sTail r < length xs \<Longrightarrow> TryEnqueue r (Proto ser) (length xs) = Inl NullDeref"
proof -
  note K = spsc_okD [OF ok] and S = status_eq [OF ok]
  let ?n = "length xs" and ?st = "GetBufferStatus r"
  have t: "LoadedTail ?st = sTail r" "sub64 (Capacity r) (sTail r) = Capacity r - sTail r" "\<not> AvailableSize ?st < ?n"
    using K S room by (simp_all add: sub64_eq)
  have d: "sub64 ?n (min ?n (Capacity r - sTail r)) = ?n - (Capacity r - sTail r)"
    using K(1) room by (auto simp: sub64_eq min_def)
  show "TryEnqueue r (Proto ser) ?n = TryEnqueue r (Raw xs) ?n" if "?n \<le> Capacity r - sTail r"
  proof -
    have l: "load_bytes xs 0 ?n = Inr xs" "load_bytes xs ?n 0 = Inr []" by (simp_all add: load_bytes_def)
    have "store_bytes buf 0 [] = Inr buf" for buf by (simp add: store_bytes_def)
    moreover have "min ?n (Capacity r - sTail r) = ?n" "sub64 ?n ?n = 0" using that by (simp_all add: sub64_def)
    ultimately have "write_block r ?st (Proto ser) ?n = write_block r ?st (Raw xs) ?n"
      using l ser by (simp add: write_block_def Let_def t(1,2))
    then show ?thesis by (simp add: TryEnqueue_def Let_def)
  qed
  show "TryEnqueue r (Proto ser) ?n = Inl NullDeref" if "tempEnqueueBuffer r = None" "Capacity r - sTail r < ?n"
    using that d t by (simp add: TryEnqueue_def write_block_def Let_def)
qed

section \<open>The two threads\<close>

text \<open>
  The producer loads the indices, copies its bytes and stores the tail; the consumer loads the
  indices, reads at the head and stores the head.  \<open>pStatus\<close> and \<open>cStatus\<close> are the loaded indices,
  \<open>pBytes\<close> what the producer has copied but not published, \<open>cBytes\<close> what the consumer has read but
  not released.  \<open>sent\<close> and \<open>received\<close> record the bytes published and released.
\<close>

record spsc_threads =
  ring :: spsc
  pStatus :: "status option"
  pBytes :: "u8 list option"
  cStatus :: "status option"
  cBytes :: "u8 list option"
  sent :: "u8 list"
  received :: "u8 list"

inductive spsc_step :: "spsc_threads \<Rightarrow> spsc_threads \<Rightarrow> bool" where
  p_load: "pStatus s = None \<Longrightarrow> spsc_step s (s\<lparr>pStatus := Some (GetBufferStatus (ring s))\<rparr>)"
| p_full: "pStatus s = Some st \<Longrightarrow> pBytes s = None \<Longrightarrow> AvailableSize st < n \<Longrightarrow>
    spsc_step s (s\<lparr>pStatus := None\<rparr>)"
| p_write: "pStatus s = Some st \<Longrightarrow> pBytes s = None \<Longrightarrow> length xs \<le> AvailableSize st \<Longrightarrow>
    write_block (ring s) st (Raw xs) (length xs) = Inr r \<Longrightarrow>
    spsc_step s (s\<lparr>ring := r, pBytes := Some xs\<rparr>)"
| p_store: "pStatus s = Some st \<Longrightarrow> pBytes s = Some xs \<Longrightarrow>
    store_tail (ring s) st (length xs) = Inr r \<Longrightarrow>
    spsc_step s (s\<lparr>ring := r, pStatus := None, pBytes := None, sent := sent s @ xs\<rparr>)"
| c_load: "cStatus s = None \<Longrightarrow> spsc_step s (s\<lparr>cStatus := Some (GetBufferStatus (ring s))\<rparr>)"
| c_short: "cStatus s = Some st \<Longrightarrow> cBytes s = None \<Longrightarrow> n \<le> MaxBlockSize (ring s) \<Longrightarrow>
    peek_with (ring s) st n = Inr (None, r) \<Longrightarrow>
    spsc_step s (s\<lparr>ring := r, cStatus := None\<rparr>)"
| c_read: "cStatus s = Some st \<Longrightarrow> cBytes s = None \<Longrightarrow> n \<le> MaxBlockSize (ring s) \<Longrightarrow>
    peek_with (ring s) st n = Inr (Some ys, r) \<Longrightarrow>
    spsc_step s (s\<lparr>ring := r, cBytes := Some ys\<rparr>)"
| c_store: "cStatus s = Some st \<Longrightarrow> cBytes s = Some ys \<Longrightarrow> Dequeue (ring s) (length ys) = Inr r \<Longrightarrow>
    spsc_step s (s\<lparr>ring := r, cStatus := None, cBytes := None, received := received s @ ys\<rparr>)"

definition spsc_start :: "nat \<Rightarrow> nat \<Rightarrow> spsc_threads" where
  "spsc_start capacity maxBlockSize =
     \<lparr>ring = new_spsc capacity maxBlockSize, pStatus = None, pBytes = None, cStatus = None,
      cBytes = None, sent = [], received = []\<rparr>"

text \<open>
  The invariant: loaded indices of the own side are current, and the other side can only have
  made more room or more data since.
\<close>

definition spsc_inv :: "spsc_threads \<Rightarrow> bool" where
  "spsc_inv s \<longleftrightarrow> spsc_ok (ring s) \<and> received s @ spsc_content (ring s) = sent s \<and>
     (\<forall>st. pStatus s = Some st \<longrightarrow> LoadedTail st = sTail (ring s) \<and>
        AvailableSize st + spsc_size (ring s) < Capacity (ring s)) \<and>
     (\<forall>xs. pBytes s = Some xs \<longrightarrow> pStatus s \<noteq> None \<and>
        length xs + spsc_size (ring s) < Capacity (ring s) \<and>
        ring_content (ringBuffer (ring s)) (sHead (ring s))
          ((sTail (ring s) + length xs) mod Capacity (ring s)) = spsc_content (ring s) @ xs \<and>
        ring_size (Capacity (ring s)) (sHead (ring s))
          ((sTail (ring s) + length xs) mod Capacity (ring s)) = spsc_size (ring s) + length xs) \<and>
     (\<forall>st. cStatus s = Some st \<longrightarrow> LoadedHead st = sHead (ring s) \<and> Size st \<le> spsc_size (ring s)) \<and>
     (\<forall>ys. cBytes s = Some ys \<longrightarrow> length ys \<le> spsc_size (ring s) \<and>
        ys = take (length ys) (spsc_content (ring s)))"

lemma spsc_invD:
  assumes "spsc_inv s"
  shows "spsc_ok (ring s)" "received s @ spsc_content (ring s) = sent s"
    "pStatus s = Some st \<Longrightarrow> LoadedTail st = sTail (ring s)"
    "pStatus s = Some st \<Longrightarrow> AvailableSize st + spsc_size (ring s) < Capacity (ring s)"
    "pBytes s = Some xs \<Longrightarrow> length xs + spsc_size (ring s) < Capacity (ring s)"
    "pBytes s = Some xs \<Longrightarrow> ring_content (ringBuffer (ring s)) (sHead (ring s))
          ((sTail (ring s) + length xs) mod Capacity (ring s)) = spsc_content (ring s) @ xs"
    "pBytes s = Some xs \<Longrightarrow> ring_size (Capacity (ring s)) (sHead (ring s))
          ((sTail (ring s) + length xs) mod Capacity (ring s)) = spsc_size (ring s) + length xs"
    "cStatus s = Some ct \<Longrightarrow> LoadedHead ct = sHead (ring s)"
    "cStatus s = Some ct \<Longrightarrow> Size ct \<le> spsc_size (ring s)"
    "cBytes s = Some ys \<Longrightarrow> length ys \<le> spsc_size (ring s)"
    "cBytes s = Some ys \<Longrightarrow> ys = take (length ys) (spsc_content (ring s))"
    "pBytes s = Some xs \<Longrightarrow> pStatus s \<noteq> None"
  using assms unfolding spsc_inv_def by blast+

lemma spsc_inv_start: "0 < c \<Longrightarrow> c < 2 ^ 63 \<Longrightarrow> spsc_inv (spsc_start c m)"
  using spsc_ok_new [of c m] by (simp add: spsc_inv_def spsc_start_def)

lemma spsc_inv_p_load: "spsc_inv s \<Longrightarrow> pStatus s = None \<Longrightarrow>
    spsc_inv (s\<lparr>pStatus := Some (GetBufferStatus (ring s))\<rparr>)"
  using status_eq [OF spsc_invD(1), of s] by (auto simp: spsc_inv_def)

lemma spsc_inv_c_load: "spsc_inv s \<Longrightarrow> spsc_inv (s\<lparr>cStatus := Some (GetBufferStatus (ring s))\<rparr>)"
  using status_eq [OF spsc_invD(1), of s] by (auto simp: spsc_inv_def)

lemma spsc_inv_p_write:
  assumes I: "spsc_inv s" and p: "pStatus s = Some st" "pBytes s = None"
    and n: "length xs \<le> AvailableSize st"
  obtains r where "write_block (ring s) st (Raw xs) (length xs) = Inr r"
    "spsc_inv (s\<lparr>ring := r, pBytes := Some xs\<rparr>)"
proof -
  note D = spsc_invD [OF I]
  have room: "spsc_size (ring s) + length xs < Capacity (ring s)" using D(4) [OF p(1)] n by simp
  obtain buf where b: "write_block (ring s) st (Raw xs) (length xs) = Inr ((ring s)\<lparr>ringBuffer := buf\<rparr>)"
    "spsc_ok ((ring s)\<lparr>ringBuffer := buf\<rparr>)" "spsc_content ((ring s)\<lparr>ringBuffer := buf\<rparr>) = spsc_content (ring s)"
    "ring_content buf (sHead (ring s)) ((sTail (ring s) + length xs) mod Capacity (ring s)) = spsc_content (ring s) @ xs"
    "ring_size (Capacity (ring s)) (sHead (ring s)) ((sTail (ring s) + length xs) mod Capacity (ring s))
       = spsc_size (ring s) + length xs"
    by (rule write_block_raw [OF D(1) D(3) [OF p(1)] room])
  have "spsc_size ((ring s)\<lparr>ringBuffer := buf\<rparr>) = spsc_size (ring s)" by (simp add: spsc_size_def)
  then have "spsc_inv (s\<lparr>ring := (ring s)\<lparr>ringBuffer := buf\<rparr>, pBytes := Some xs\<rparr>)"
    using I p room b(2-5) by (simp add: spsc_inv_def)
  with b(1) show thesis using that by blast
qed

lemma spsc_inv_p_store:
  assumes I: "spsc_inv s" and p: "pStatus s = Some st" "pBytes s = Some xs"
  obtains r where "store_tail (ring s) st (length xs) = Inr r"
    "spsc_inv (s\<lparr>ring := r, pStatus := None, pBytes := None, sent := sent s @ xs\<rparr>)"
proof -
  note D = spsc_invD [OF I]
  note K = spsc_okD [OF D(1)]
  define r where "r = (ring s)\<lparr>sTail := (sTail (ring s) + length xs) mod Capacity (ring s)\<rparr>"
  have "store_tail (ring s) st (length xs) = Inr r"
    using store_tail_eq [OF D(1) D(3) [OF p(1)], of "length xs"] D(5) [OF p(2)] by (simp add: r_def)
  moreover have c: "spsc_content r = spsc_content (ring s) @ xs" "spsc_size r = spsc_size (ring s) + length xs"
    using D(6,7) [OF p(2)] by (simp_all add: spsc_content_def spsc_size_def r_def)
  have "spsc_ok r" using K by (simp add: spsc_ok_def r_def)
  moreover have "ys = take (length ys) (spsc_content r)" if "cBytes s = Some ys" for ys
    using D(10,11) [OF that] length_spsc_content [OF D(1)] by (simp add: c)
  ultimately show thesis
    using I D(2) D(9,10) c that [of r]
    by (force simp: spsc_inv_def r_def)
qed

lemma spsc_inv_read:
  assumes I: "spsc_inv s" and c: "cStatus s = Some st" "cBytes s = None"
    and n: "n \<le> MaxBlockSize (ring s)"
  obtains r where "peek_with (ring s) st n =
      Inr (if Size st < n then None else Some (take n (spsc_content (ring s))), r)"
    "\<And>ys. ys = take n (spsc_content (ring s)) \<Longrightarrow> \<not> Size st < n \<Longrightarrow> spsc_inv (s\<lparr>ring := r, cBytes := Some ys\<rparr>)"
    "spsc_inv (s\<lparr>ring := r, cStatus := None\<rparr>)"
proof -
  note D = spsc_invD [OF I]
  obtain temp where t: "peek_with (ring s) st n =
      Inr (if Size st < n then None else Some (take n (spsc_content (ring s))), (ring s)\<lparr>tempDequeueBuffer := temp\<rparr>)"
    "spsc_ok ((ring s)\<lparr>tempDequeueBuffer := temp\<rparr>)"
    by (rule peek_with_ok [OF D(1) D(8) [OF c(1)] D(9) [OF c(1)] n])
  have same: "spsc_content ((ring s)\<lparr>tempDequeueBuffer := temp\<rparr>) = spsc_content (ring s)"
    "spsc_size ((ring s)\<lparr>tempDequeueBuffer := temp\<rparr>) = spsc_size (ring s)"
    by (simp_all add: spsc_content_def spsc_size_def)
  show thesis
  proof (rule that [OF t(1)])
    show "spsc_inv (s\<lparr>ring := (ring s)\<lparr>tempDequeueBuffer := temp\<rparr>, cStatus := None\<rparr>)"
      using I t(2) c(2) same by (simp add: spsc_inv_def)
    fix ys assume "ys = take n (spsc_content (ring s))" "\<not> Size st < n"
    then show "spsc_inv (s\<lparr>ring := (ring s)\<lparr>tempDequeueBuffer := temp\<rparr>, cBytes := Some ys\<rparr>)"
      using I t(2) same D(9) [OF c(1)] length_spsc_content [OF D(1)] by (simp add: spsc_inv_def)
  qed
qed

lemma spsc_inv_c_store:
  assumes I: "spsc_inv s" and c: "cBytes s = Some ys"
  obtains r where "Dequeue (ring s) (length ys) = Inr r"
    "spsc_inv (s\<lparr>ring := r, cStatus := None, cBytes := None, received := received s @ ys\<rparr>)"
proof -
  note D = spsc_invD [OF I]
  note K = spsc_okD [OF D(1)]
  let ?n = "length ys"
  define r where "r = (ring s)\<lparr>sHead := (sHead (ring s) + ?n) mod Capacity (ring s)\<rparr>"
  note Q = Dequeue_ok [OF D(1) D(10) [OF c], folded r_def]
  have "received s @ ys @ spsc_content r = sent s"
    using D(2) D(11) [OF c] Q(3) append_take_drop_id [of ?n "spsc_content (ring s)"] by metis
  moreover have "ring_content (ringBuffer r) (sHead r) ((sTail r + length xs) mod Capacity r) = spsc_content r @ xs \<and>
      ring_size (Capacity r) (sHead r) ((sTail r + length xs) mod Capacity r) = spsc_size r + length xs"
    if p: "pBytes s = Some xs" for xs
  proof -
    let ?t = "(sTail (ring s) + length xs) mod Capacity (ring s)"
    have "0 < Capacity (ring s)" using K(4) by linarith
    then have "?t < Capacity (ring s)" by simp
    moreover have "?n \<le> ring_size (Capacity (ring s)) (sHead (ring s)) ?t" using D(7) [OF p] D(10) [OF c] by simp
    ultimately show ?thesis
      using ring_content_pop [of "sHead (ring s)" "ringBuffer (ring s)" ?t ?n] K(2,4) D(6,7) [OF p] Q(3,4)
        D(10) [OF c] length_spsc_content [OF D(1)]
      by (simp add: r_def)
  qed
  ultimately have "spsc_inv (s\<lparr>ring := r, cStatus := None, cBytes := None, received := received s @ ys\<rparr>)"
    using I D(4,5) D(12) Q(2,4)
    by (auto simp: spsc_inv_def) (auto simp: r_def)
  with Q(1) show thesis using that by blast
qed

lemma spsc_inv_step: "spsc_step s s' \<Longrightarrow> spsc_inv s \<Longrightarrow> spsc_inv s'"
proof (induction rule: spsc_step.induct)
  case (p_load s)
  then show ?case by (simp add: spsc_inv_p_load)
next
  case (p_full s st n)
  then show ?case by (simp add: spsc_inv_def)
next
  case (p_write s st xs r)
  then show ?case using spsc_inv_p_write [of s st xs] by (metis Inr_inject)
next
  case (p_store s st xs r)
  then show ?case using spsc_inv_p_store [of s st xs] by (metis Inr_inject)
next
  case (c_load s)
  then show ?case by (simp add: spsc_inv_c_load)
next
  case (c_short s st n r)
  obtain r' where "peek_with (ring s) st n =
      Inr (if Size st < n then None else Some (take n (spsc_content (ring s))), r')"
    "spsc_inv (s\<lparr>ring := r', cStatus := None\<rparr>)"
    by (rule spsc_inv_read [OF c_short(5,1,2,3)]) blast
  with c_short(4) show ?case by auto
next
  case (c_read s st n ys r)
  obtain r' where "peek_with (ring s) st n =
      Inr (if Size st < n then None else Some (take n (spsc_content (ring s))), r')"
    "\<And>ys. ys = take n (spsc_content (ring s)) \<Longrightarrow> \<not> Size st < n \<Longrightarrow> spsc_inv (s\<lparr>ring := r', cBytes := Some ys\<rparr>)"
    by (rule spsc_inv_read [OF c_read(5,1,2,3)]) blast
  with c_read(4) show ?case by (auto split: if_splits)
next
  case (c_store s st ys r)
  then show ?case using spsc_inv_c_store [of s ys] by (metis Inr_inject)
qed

interpretation spsc: step_system spsc_step spsc_inv
  by unfold_locales (rule spsc_inv_step)

section \<open>Properties\<close>

text \<open>
  C16.  One call after the other, on every branch.  The ring is a bounded byte queue of \<open>Capacity - 1\<close> bytes.  \<open>TryEnqueue\<close>
  refuses what does not fit and appends the rest, except that a protobuf message that wraps around the end is serialised through
  \<open>tempEnqueueBuffer_\<close>, which is null.  \<open>TryPeek\<close> returns nothing when there are too few bytes and the oldest bytes otherwise, except
  that more than \<open>MaxBlockSize\<close> bytes that wrap around are copied past the end of \<open>tempDequeueBuffer_\<close>.  \<open>Dequeue\<close> of
  bytes that are there drops the oldest.  The queue that is left can be used again in the same way.
\<close>

theorem spsc_is_byte_queue:
  assumes "spsc_ok r" and "tempEnqueueBuffer r = None" and "d = Raw xs \<or> (\<exists>ser. d = Proto ser \<and> ser (length xs) = xs)"
  shows "(if Capacity r \<le> spsc_size r + length xs then TryEnqueue r d (length xs) = Inr (False, r)
      else if d \<noteq> Raw xs \<and> Capacity r - sTail r < length xs then TryEnqueue r d (length xs) = Inl NullDeref
      else \<exists>r'. TryEnqueue r d (length xs) = Inr (True, r') \<and> spsc_ok r' \<and> tempEnqueueBuffer r' = None \<and>
        spsc_content r' = spsc_content r @ xs \<and> Capacity r' = Capacity r \<and> MaxBlockSize r' = MaxBlockSize r) \<and>
    (if spsc_size r < n then TryPeek r n = Inr (None, r)
      else if Capacity r - sHead r < n \<and> MaxBlockSize r < n then TryPeek r n = Inl OutOfBounds
      else \<exists>r'. TryPeek r n = Inr (Some (take n (spsc_content r)), r') \<and> spsc_ok r' \<and> tempEnqueueBuffer r' = None \<and>
        spsc_content r' = spsc_content r) \<and>
    (n \<le> spsc_size r \<longrightarrow> (\<exists>r'. Dequeue r n = Inr r' \<and> spsc_ok r' \<and> tempEnqueueBuffer r' = None \<and>
        spsc_content r' = drop n (spsc_content r))) \<and>
    length (spsc_content r) = spsc_size r"
proof (intro conjI)
  note S = status_eq [OF assms(1)]
  show "length (spsc_content r) = spsc_size r" by (rule length_spsc_content [OF assms(1)])
  show "n \<le> spsc_size r \<longrightarrow> (\<exists>r'. Dequeue r n = Inr r' \<and> spsc_ok r' \<and> tempEnqueueBuffer r' = None \<and>
      spsc_content r' = drop n (spsc_content r))"
    using Dequeue_ok(1-3) [OF assms(1), of n] assms(2) by auto
  show "if Capacity r \<le> spsc_size r + length xs then TryEnqueue r d (length xs) = Inr (False, r)
      else if d \<noteq> Raw xs \<and> Capacity r - sTail r < length xs then TryEnqueue r d (length xs) = Inl NullDeref
      else \<exists>r'. TryEnqueue r d (length xs) = Inr (True, r') \<and> spsc_ok r' \<and> tempEnqueueBuffer r' = None \<and>
        spsc_content r' = spsc_content r @ xs \<and> Capacity r' = Capacity r \<and> MaxBlockSize r' = MaxBlockSize r"
  proof (cases "Capacity r \<le> spsc_size r + length xs")
    case True
    then have "AvailableSize (GetBufferStatus r) < length xs" using S by simp
    then show ?thesis using True by (simp add: TryEnqueue_def Let_def)
  next
    case False
    then have room: "spsc_size r + length xs < Capacity r" by simp
    show ?thesis using False assms(2,3) TryEnqueue_raw [OF assms(1) room] TryEnqueue_proto [OF assms(1) _ room] by auto
  qed
  show "if spsc_size r < n then TryPeek r n = Inr (None, r)
      else if Capacity r - sHead r < n \<and> MaxBlockSize r < n then TryPeek r n = Inl OutOfBounds
      else \<exists>r'. TryPeek r n = Inr (Some (take n (spsc_content r)), r') \<and> spsc_ok r' \<and> tempEnqueueBuffer r' = None \<and>
        spsc_content r' = spsc_content r"
  proof (cases "spsc_size r < n \<or> Capacity r - sHead r < n \<and> MaxBlockSize r < n")
    case True
    then show ?thesis using S peek_too_long [OF assms(1), of n] by (auto simp: TryPeek_def peek_with_def)
  next
    case False
    then have fits: "n \<le> MaxBlockSize r \<or> n \<le> Capacity r - sHead r" by linarith
    obtain temp where "peek_with r (GetBufferStatus r) n =
        Inr (if Size (GetBufferStatus r) < n then None else Some (take n (spsc_content r)), r\<lparr>tempDequeueBuffer := temp\<rparr>)"
      "spsc_ok (r\<lparr>tempDequeueBuffer := temp\<rparr>)"
      by (rule peek_with_fits [OF assms(1) _ _ fits, of "GetBufferStatus r"]) (simp_all add: S(1))
    then show ?thesis using False S(1) assms(2) by (auto simp: TryPeek_def spsc_content_def)
  qed
qed

text \<open>Three bytes fill a ring of four; two of them are dropped.\<close>

theorem spsc_is_byte_queue_witness:
  "\<exists>r r'. TryEnqueue (new_spsc 4 8) (Raw [1, 2, 3]) 3 = Inr (True, r) \<and> spsc_content r = [1, 2, 3] \<and>
     TryEnqueue r (Raw [4]) 1 = Inr (False, r) \<and> Dequeue r 2 = Inr r' \<and> spsc_content r' = [3]"
proof -
  have n: "spsc_ok (new_spsc 4 8)" "spsc_content (new_spsc 4 8) = []" "tempEnqueueBuffer (new_spsc 4 8) = None"
    using spsc_ok_new [of 4 8] by (simp_all add: new_spsc_def)
  have s: "spsc_size (new_spsc 4 8) = 0" "Capacity (new_spsc 4 8) = 4"
    by (simp_all add: spsc_size_def new_spsc_def ring_size_def)
  obtain r where r: "TryEnqueue (new_spsc 4 8) (Raw [1, 2, 3]) 3 = Inr (True, r)" "spsc_ok r" "tempEnqueueBuffer r = None"
    "spsc_content r = [1, 2, 3]" "Capacity r = 4"
    using spsc_is_byte_queue [OF n(1,3), of "Raw [1, 2, 3]" "[1, 2, 3]" 0] n(2) s by (auto simp: numeral_3_eq_3)
  have z: "spsc_size r = 3" using length_spsc_content [OF r(2)] r(4) by simp
  have "TryEnqueue r (Raw [4]) 1 = Inr (False, r)"
    using spsc_is_byte_queue [OF r(2,3), of "Raw [4]" "[4]" 2] z r(5) by simp
  moreover have "\<exists>r'. Dequeue r 2 = Inr r' \<and> spsc_content r' = [3]"
    using spsc_is_byte_queue [OF r(2,3), of "Raw [4]" "[4]" 2] z r(4) by auto
  ultimately show ?thesis using r by blast
qed

text \<open>
  C8.  With one producer and one consumer thread, whose loads, copies and stores interleave in any
  way, the consumer receives exactly the bytes sent, in order: in every reachable state the
  bytes received and the bytes in the ring are the bytes sent, what the consumer has read is
  the next of them, and neither thread can be made to fault by what the other has done since it
  loaded the indices.
\<close>

theorem spsc_fifo:
  assumes "0 < c" and "c < 2 ^ 63" and "spsc_step\<^sup>*\<^sup>* (spsc_start c m) s"
  shows "sent s = received s @ spsc_content (ring s) \<and>
    (\<forall>ys. cBytes s = Some ys \<longrightarrow> (\<exists>zs. sent s = received s @ ys @ zs)) \<and>
    (\<forall>st xs. pStatus s = Some st \<longrightarrow> pBytes s = None \<longrightarrow> length xs \<le> AvailableSize st \<longrightarrow>
       (\<exists>r. write_block (ring s) st (Raw xs) (length xs) = Inr r)) \<and>
    (\<forall>st xs. pStatus s = Some st \<longrightarrow> pBytes s = Some xs \<longrightarrow>
       (\<exists>r. store_tail (ring s) st (length xs) = Inr r)) \<and>
    (\<forall>st n. cStatus s = Some st \<longrightarrow> cBytes s = None \<longrightarrow> n \<le> MaxBlockSize (ring s) \<longrightarrow>
       (\<exists>x. peek_with (ring s) st n = Inr x)) \<and>
    (\<forall>ys. cBytes s = Some ys \<longrightarrow> (\<exists>r. Dequeue (ring s) (length ys) = Inr r))"
proof -
  have I: "spsc_inv s" using spsc.steps_ok [OF assms(3)] spsc_inv_start [OF assms(1,2)] by blast
  note D = spsc_invD [OF I]
  show ?thesis
  proof (intro conjI allI impI)
    show "sent s = received s @ spsc_content (ring s)" using D(2) by simp
    show "\<exists>zs. sent s = received s @ ys @ zs" if "cBytes s = Some ys" for ys
      using D(2) D(11) [OF that] append_take_drop_id [of "length ys" "spsc_content (ring s)"] by metis
    show "\<exists>r. write_block (ring s) st (Raw xs) (length xs) = Inr r"
      if "pStatus s = Some st" "pBytes s = None" "length xs \<le> AvailableSize st" for st xs
      by (rule spsc_inv_p_write [OF I that]) blast
    show "\<exists>r. store_tail (ring s) st (length xs) = Inr r" if "pStatus s = Some st" "pBytes s = Some xs" for st xs
      by (rule spsc_inv_p_store [OF I that]) blast
    show "\<exists>x. peek_with (ring s) st n = Inr x"
      if "cStatus s = Some st" "cBytes s = None" "n \<le> MaxBlockSize (ring s)" for st n
      by (rule spsc_inv_read [OF I that]) blast
    show "\<exists>r. Dequeue (ring s) (length ys) = Inr r" if "cBytes s = Some ys" for ys
      by (rule spsc_inv_c_store [OF I that]) blast
  qed
qed

theorem spsc_fifo_witness:
  "\<exists>s. spsc_step\<^sup>*\<^sup>* (spsc_start 4 8) s \<and> pStatus s \<noteq> None \<and> sent s = received s @ spsc_content (ring s)"
proof -
  have "spsc_step\<^sup>*\<^sup>* (spsc_start 4 8)
      ((spsc_start 4 8)\<lparr>pStatus := Some (GetBufferStatus (ring (spsc_start 4 8)))\<rparr>)" (is "spsc_step\<^sup>*\<^sup>* _ ?s")
    by (rule r_into_rtranclp, rule p_load) (simp add: spsc_start_def)
  with spsc_fifo [of 4 8 ?s] show ?thesis by (intro exI [of _ ?s]) simp
qed

end
