(* ===== verification/Message_Pool.thy ===== *)
theory Message_Pool
  imports Interfaces
begin

text \<open>
  \<open>MpscMessageBodyPool\<close> of MpscMessageBodyPool.h and .cpp: blocks for message bodies in eight
  lock-free lists by size.  First the size classes and the operations one call after the other,
  then the loads and compare-and-swaps of one list as separate steps of several threads.
\<close>

section \<open>Size classes\<close>

text \<open>
  The index of the list for a size and the body size of its blocks.  The largest message
  (\<open>MessageMaxSize\<close>, \<open>MessageHeaderSize\<close> of the generated protocol header) is a parameter.
\<close>

record protocol =
  MessageMaxSize :: nat
  MessageHeaderSize :: nat

definition MaxMessageBodySize :: "protocol \<Rightarrow> nat" where
  "MaxMessageBodySize pr = MessageMaxSize pr - MessageHeaderSize pr"

definition GetMemoryBlockListHeadFor :: "protocol \<Rightarrow> nat \<Rightarrow> (nat \<times> nat) option" where
  "GetMemoryBlockListHeadFor pr sz =
     (if MaxMessageBodySize pr < sz then None
      else if 1024 < sz then Some (7, MaxMessageBodySize pr)
      else if 512 < sz then Some (6, 1024)
      else if 256 < sz then Some (5, 512)
      else if 128 < sz then Some (4, 256)
      else if 64 < sz then Some (3, 128)
      else if 32 < sz then Some (2, 64)
      else if 16 < sz then Some (1, 32)
      else Some (0, 16))"

definition class_size :: "protocol \<Rightarrow> nat \<Rightarrow> nat" where
  "class_size pr i = (if i = 7 then MaxMessageBodySize pr else 16 * 2 ^ i)"

lemma head_for_class:
  "GetMemoryBlockListHeadFor pr sz = Some (i, b) \<Longrightarrow> i < 8 \<and> b = class_size pr i \<and> sz \<le> b"
  by (auto simp: GetMemoryBlockListHeadFor_def class_size_def split: if_splits)

section \<open>The operations\<close>

text \<open>
  Blocks are numbered in the order of allocation; \<open>bodySize\<close> is what \<open>operator new\<close> was asked for,
  less the link.
\<close>

record mpool =
  memoryBlockListHeads :: "nat \<Rightarrow> ptr"
  mNext :: "nat \<Rightarrow> ptr"
  bodySize :: "nat \<Rightarrow> nat"
  allocated :: nat

definition new_mpool :: mpool where
  "new_mpool = \<lparr>memoryBlockListHeads = (\<lambda>i. None), mNext = (\<lambda>a. None), bodySize = (\<lambda>a. 0), allocated = 0\<rparr>"

definition pool_Acquire :: "protocol \<Rightarrow> mpool \<Rightarrow> nat \<Rightarrow> (nat \<times> mpool) res" where
  "pool_Acquire pr m sz =
     (case GetMemoryBlockListHeadFor pr sz of
        None \<Rightarrow> Inl Aborted
      | Some (i, blockSize) \<Rightarrow>
          (case memoryBlockListHeads m i of
             Some a \<Rightarrow> Inr (a, m\<lparr>memoryBlockListHeads := (memoryBlockListHeads m)(i := mNext m a)\<rparr>)
           | None \<Rightarrow> Inr (allocated m, m\<lparr>bodySize := (bodySize m)(allocated m := blockSize),
                                       allocated := Suc (allocated m)\<rparr>)))"

definition pool_Release :: "protocol \<Rightarrow> mpool \<Rightarrow> nat \<Rightarrow> nat \<Rightarrow> mpool res" where
  "pool_Release pr m sz a =
     (case GetMemoryBlockListHeadFor pr sz of
        None \<Rightarrow> Inl Aborted
      | Some (i, blockSize) \<Rightarrow>
          Inr (m\<lparr>mNext := (mNext m)(a := memoryBlockListHeads m i),
                 memoryBlockListHeads := (memoryBlockListHeads m)(i := Some a)\<rparr>))"

text \<open>The destructor: the blocks it deletes, list by list.\<close>

partial_function (option) delete_from :: "(nat \<Rightarrow> ptr) \<Rightarrow> ptr \<Rightarrow> nat list option" where
  "delete_from nx p =
     (case p of None \<Rightarrow> Some []
      | Some a \<Rightarrow> Option.bind (delete_from nx (nx a)) (\<lambda>as. Some (a # as)))"

definition deleted :: "mpool \<Rightarrow> nat list option list" where
  "deleted m = map (\<lambda>i. delete_from (mNext m) (memoryBlockListHeads m i)) [0..<8]"

text \<open>The free lists, and the blocks in the hands of clients with the size they asked for.\<close>

definition mpool_ok :: "protocol \<Rightarrow> mpool \<Rightarrow> (nat \<Rightarrow> nat list) \<Rightarrow> bool" where
  "mpool_ok pr m fs \<longleftrightarrow>
     (\<forall>i<8. chain (mNext m) (memoryBlockListHeads m i) (fs i) None \<and> distinct (fs i) \<and>
        (\<forall>a\<in>set (fs i). a < allocated m \<and> bodySize m a = class_size pr i)) \<and>
     (\<forall>i<8. \<forall>j<8. i \<noteq> j \<longrightarrow> set (fs i) \<inter> set (fs j) = {})"

definition free_blocks :: "(nat \<Rightarrow> nat list) \<Rightarrow> nat set" where
  "free_blocks fs = (\<Union>i<8. set (fs i))"

lemma mpool_okD:
  assumes "mpool_ok pr m fs" and "i < 8"
  shows "chain (mNext m) (memoryBlockListHeads m i) (fs i) None" "distinct (fs i)"
    "a \<in> set (fs i) \<Longrightarrow> a < allocated m \<and> bodySize m a = class_size pr i"
    "j < 8 \<Longrightarrow> i \<noteq> j \<Longrightarrow> set (fs i) \<inter> set (fs j) = {}"
  using assms by (auto simp: mpool_ok_def)

lemma mpool_ok_new: "mpool_ok pr new_mpool (\<lambda>i. [])"
  by (simp add: mpool_ok_def new_mpool_def)

lemma free_blocks_upd:
  "i < 8 \<Longrightarrow> free_blocks (fs(i := gs)) = set gs \<union> (\<Union>j\<in>{..<8} - {i}. set (fs j))"
  by (auto simp: free_blocks_def split: if_splits)

lemma pool_Acquire_ok:
  assumes ok: "mpool_ok pr m fs" and sz: "sz \<le> MaxMessageBodySize pr"
  obtains a m' fs' where "pool_Acquire pr m sz = Inr (a, m')" "mpool_ok pr m' fs'" "sz \<le> bodySize m' a"
    "a \<in> free_blocks fs \<or> a = allocated m" "free_blocks fs' = free_blocks fs - {a}" "a < allocated m'"
    "allocated m \<le> allocated m'" "\<exists>i. GetMemoryBlockListHeadFor pr sz = Some (i, bodySize m' a)"
    "\<And>b. b < allocated m \<Longrightarrow> bodySize m' b = bodySize m b"
proof -
  obtain i b where h: "GetMemoryBlockListHeadFor pr sz = Some (i, b)"
    using sz by (cases "GetMemoryBlockListHeadFor pr sz") (auto simp: GetMemoryBlockListHeadFor_def split: if_splits)
  note c = head_for_class [OF h]
  have i: "i < 8" using c by simp
  note K = mpool_okD [OF ok]
  show thesis
  proof (cases "memoryBlockListHeads m i")
    case None
    define m' where "m' = m\<lparr>bodySize := (bodySize m)(allocated m := b), allocated := Suc (allocated m)\<rparr>"
    have "pool_Acquire pr m sz = Inr (allocated m, m')" using h None by (simp add: pool_Acquire_def m'_def)
    moreover have old: "a < allocated m" if "j < 8" "a \<in> set (fs j)" for j a using K(3) [OF that] by simp
    moreover have "mpool_ok pr m' fs"
      using ok old unfolding mpool_ok_def m'_def by fastforce
    moreover have "allocated m \<notin> free_blocks fs" using old by (fastforce simp: free_blocks_def)
    ultimately show ?thesis using that [of "allocated m" m' fs] c h by (simp add: m'_def)
  next
    case (Some a)
    then obtain gs where gs: "fs i = a # gs" "chain (mNext m) (mNext m a) gs None"
      using K(1) [OF i] by (auto simp: chain_Some_None)
    define m' where "m' = m\<lparr>memoryBlockListHeads := (memoryBlockListHeads m)(i := mNext m a)\<rparr>"
    have "pool_Acquire pr m sz = Inr (a, m')" using h Some by (simp add: pool_Acquire_def m'_def)
    moreover have only: "a \<notin> set (fs j)" if "j < 8" "j \<noteq> i" for j
      using K(4) [OF i that(1)] that(2) gs(1) by auto
    moreover have a: "a \<notin> set gs" "a < allocated m" "bodySize m a = b"
      using K(2) [OF i] K(3) [OF i, of a] gs(1) c by auto
    moreover have "distinct gs" using K(2) [OF i] gs(1) by simp
    moreover have "set gs \<inter> set (fs j) = {}" if "j < 8" "i \<noteq> j" for j
      using K(4) [OF i that] gs(1) by simp
    ultimately have "mpool_ok pr m' (fs(i := gs))"
      using K gs unfolding mpool_ok_def m'_def by (intro conjI allI impI ballI) (auto split: if_splits)
    with \<open>pool_Acquire pr m sz = Inr (a, m')\<close> only a
    have "pool_Acquire pr m sz = Inr (a, m')" "mpool_ok pr m' (fs(i := gs))" by simp_all
    moreover have "free_blocks (fs(i := gs)) = free_blocks fs - {a}"
    proof -
      have "free_blocks fs = set (fs i) \<union> (\<Union>j\<in>{..<8} - {i}. set (fs j))"
        using free_blocks_upd [OF i, of fs "fs i"] by simp
      then show ?thesis using only a(1) gs(1) i free_blocks_upd [OF i, of fs gs] by auto
    qed
    moreover have "a \<in> free_blocks fs" using gs(1) i by (auto simp: free_blocks_def intro!: bexI [of _ i])
    ultimately show ?thesis using that [of a m' "fs(i := gs)"] c h a by (simp add: m'_def)
  qed
qed

lemma pool_Release_ok:
  assumes ok: "mpool_ok pr m fs" and h: "GetMemoryBlockListHeadFor pr sz = Some (i, bodySize m a)"
    and a: "a < allocated m" "a \<notin> free_blocks fs"
  obtains m' where "pool_Release pr m sz a = Inr m'" "mpool_ok pr m' (fs(i := a # fs i))"
    "free_blocks (fs(i := a # fs i)) = insert a (free_blocks fs)"
    "pool_Acquire pr m' sz = Inr (a, m'\<lparr>memoryBlockListHeads := memoryBlockListHeads m\<rparr>)"
    "bodySize m' = bodySize m"
proof -
  note c = head_for_class [OF h]
  have i: "i < 8" using c by simp
  have no: "a \<notin> set (fs j)" if "j < 8" for j using a(2) that by (auto simp: free_blocks_def)
  define m' where "m' = m\<lparr>mNext := (mNext m)(a := memoryBlockListHeads m i),
    memoryBlockListHeads := (memoryBlockListHeads m)(i := Some a)\<rparr>"
  have "pool_Release pr m sz a = Inr m'" using h by (simp add: pool_Release_def m'_def)
  moreover have "mpool_ok pr m' (fs(i := a # fs i))"
    using ok no a(1) c unfolding mpool_ok_def m'_def by auto
  moreover have "free_blocks (fs(i := a # fs i)) = insert a (free_blocks fs)"
    using i by (auto simp: free_blocks_def split: if_splits)
  moreover have "(memoryBlockListHeads m')(i := memoryBlockListHeads m i) = memoryBlockListHeads m"
    by (simp add: m'_def)
  then have "pool_Acquire pr m' sz = Inr (a, m'\<lparr>memoryBlockListHeads := memoryBlockListHeads m\<rparr>)"
    using h by (simp add: pool_Acquire_def m'_def)
  ultimately show thesis using that by (simp add: m'_def)
qed

lemma delete_from_chain: "chain nx p as None \<Longrightarrow> delete_from nx p = Some as"
proof (induction as arbitrary: p)
  case Nil
  then show ?case by (subst delete_from.simps) simp
next
  case (Cons a as)
  then show ?case by (subst delete_from.simps) simp
qed

lemma deleted_eq: "mpool_ok pr m fs \<Longrightarrow> deleted m = map Some (map fs [0..<8])"
  using delete_from_chain [OF mpool_okD(1)] by (auto simp: deleted_def)

lemma distinct_concat_map:
  assumes "distinct is" and "\<And>i. i \<in> set is \<Longrightarrow> distinct (fs i)"
    and "\<And>i j. i \<in> set is \<Longrightarrow> j \<in> set is \<Longrightarrow> i \<noteq> j \<Longrightarrow> set (fs i) \<inter> set (fs j) = {}"
  shows "distinct (concat (map fs is))"
  using assms by (induction "is") fastforce+

lemma deleted_blocks:
  assumes "mpool_ok pr m fs"
  shows "distinct (concat (map fs [0..<8])) \<and> set (concat (map fs [0..<8])) = free_blocks fs"
  using mpool_okD(2,4) [OF assms] distinct_concat_map [of "[0..<8]" fs] by (auto simp: free_blocks_def)

section \<open>Threads\<close>

text \<open>
  One list, with the steps that other threads can come between.  A thread in \<open>Acquire\<close> has loaded
  the head (\<open>Loaded\<close>), has read the link of the block it saw (\<open>GotNext\<close>), and swaps the head if it
  is still that block.  The consumer in \<open>Release\<close> has loaded the head, has linked its block, and
  swaps.  \<open>held\<close> are the blocks in the hands of clients; \<open>P\<close> are the producer threads.
\<close>

datatype acquiring = Idle | Loaded ptr | GotNext nat ptr

datatype releasing = NotReleasing | HeadLoaded nat ptr | Linked nat ptr

record mpool_threads =
  tHead :: ptr
  tNext :: "nat \<Rightarrow> ptr"
  fresh :: nat
  acq :: "nat \<Rightarrow> acquiring"
  rel :: releasing
  held :: "nat list"

inductive mpool_step :: "nat set \<Rightarrow> mpool_threads \<Rightarrow> mpool_threads \<Rightarrow> bool" for P where
  a_load: "t \<in> P \<Longrightarrow> acq s t = Idle \<Longrightarrow> mpool_step P s (s\<lparr>acq := (acq s)(t := Loaded (tHead s))\<rparr>)"
| a_new: "t \<in> P \<Longrightarrow> acq s t = Loaded None \<Longrightarrow>
    mpool_step P s (s\<lparr>acq := (acq s)(t := Idle), fresh := Suc (fresh s), held := fresh s # held s\<rparr>)"
| a_next: "t \<in> P \<Longrightarrow> acq s t = Loaded (Some a) \<Longrightarrow>
    mpool_step P s (s\<lparr>acq := (acq s)(t := GotNext a (tNext s a))\<rparr>)"
| a_swap: "t \<in> P \<Longrightarrow> acq s t = GotNext a n \<Longrightarrow> tHead s = Some a \<Longrightarrow>
    mpool_step P s (s\<lparr>tHead := n, acq := (acq s)(t := Idle), held := a # held s\<rparr>)"
| a_fail: "t \<in> P \<Longrightarrow> acq s t = GotNext a n \<Longrightarrow>
    mpool_step P s (s\<lparr>acq := (acq s)(t := Loaded (tHead s))\<rparr>)"
| r_load: "rel s = NotReleasing \<Longrightarrow> b \<in> set (held s) \<Longrightarrow>
    mpool_step P s (s\<lparr>rel := HeadLoaded b (tHead s)\<rparr>)"
| r_link: "rel s = HeadLoaded b e \<Longrightarrow> mpool_step P s (s\<lparr>tNext := (tNext s)(b := e), rel := Linked b e\<rparr>)"
| r_swap: "rel s = Linked b e \<Longrightarrow> tHead s = e \<Longrightarrow>
    mpool_step P s (s\<lparr>tHead := Some b, rel := NotReleasing, held := remove1 b (held s)\<rparr>)"
| r_fail: "rel s = Linked b e \<Longrightarrow> mpool_step P s (s\<lparr>rel := HeadLoaded b (tHead s)\<rparr>)"

definition mpool_start :: mpool_threads where
  "mpool_start = \<lparr>tHead = None, tNext = (\<lambda>a. None), fresh = 0, acq = (\<lambda>t. Idle),
     rel = NotReleasing, held = []\<rparr>"

text \<open>
  The invariant with a single producer \<open>t\<close>: the link it has read is still the link of a free
  block, and the block that is being released is still in the hands of a client.
\<close>

fun acq_inv :: "(nat \<Rightarrow> ptr) \<Rightarrow> nat list \<Rightarrow> acquiring \<Rightarrow> bool" where
  "acq_inv nx fs (Loaded (Some a)) \<longleftrightarrow> a \<in> set fs"
| "acq_inv nx fs (GotNext a n) \<longleftrightarrow> a \<in> set fs \<and> nx a = n"
| "acq_inv nx fs _ \<longleftrightarrow> True"

fun rel_inv :: "(nat \<Rightarrow> ptr) \<Rightarrow> nat list \<Rightarrow> releasing \<Rightarrow> bool" where
  "rel_inv nx hs NotReleasing \<longleftrightarrow> True"
| "rel_inv nx hs (HeadLoaded b e) \<longleftrightarrow> b \<in> set hs"
| "rel_inv nx hs (Linked b e) \<longleftrightarrow> b \<in> set hs \<and> nx b = e"

lemma acq_inv_mono: "acq_inv nx fs x \<Longrightarrow> set fs \<subseteq> set gs \<Longrightarrow> acq_inv nx gs x"
  by (cases "(nx, fs, x)" rule: acq_inv.cases) auto

lemma acq_inv_upd: "acq_inv nx fs x \<Longrightarrow> b \<notin> set fs \<Longrightarrow> acq_inv (nx(b := e)) fs x"
  by (cases "(nx, fs, x)" rule: acq_inv.cases) auto

lemma rel_inv_Cons: "rel_inv nx hs x \<Longrightarrow> rel_inv nx (a # hs) x"
  by (cases x) auto

definition single_inv :: "nat \<Rightarrow> mpool_threads \<Rightarrow> bool" where
  "single_inv t s \<longleftrightarrow> (\<exists>fs.
     chain (tNext s) (tHead s) fs None \<and> distinct (fs @ held s) \<and>
     (\<forall>a\<in>set (fs @ held s). a < fresh s) \<and>
     acq_inv (tNext s) fs (acq s t) \<and> rel_inv (tNext s) (held s) (rel s))"

lemma single_inv_start: "single_inv t mpool_start"
  by (auto simp: single_inv_def mpool_start_def intro!: exI [of _ "[]"])

lemma single_invI:
  assumes "chain (tNext s) (tHead s) fs None" "distinct (fs @ held s)" "\<And>a. a \<in> set (fs @ held s) \<Longrightarrow> a < fresh s"
    "acq_inv (tNext s) fs (acq s t)" "rel_inv (tNext s) (held s) (rel s)"
  shows "single_inv t s"
  using assms unfolding single_inv_def by blast

lemma single_inv_step:
  assumes "mpool_step {t} s s'" and "single_inv t s"
  shows "single_inv t s'"
proof -
  from assms(2) obtain fs where F: "chain (tNext s) (tHead s) fs None" "distinct (fs @ held s)"
    "\<And>a. a \<in> set (fs @ held s) \<Longrightarrow> a < fresh s"
    "acq_inv (tNext s) fs (acq s t)" "rel_inv (tNext s) (held s) (rel s)"
    unfolding single_inv_def by blast
  have hd: "acq_inv (tNext s) fs (Loaded (tHead s))" using F(1) by (cases "tHead s") (auto simp: chain_Some_None)
  from assms(1) show ?thesis
  proof cases
    case (a_load u)
    then show ?thesis using F hd by (intro single_invI [of _ fs]) auto
  next
    case (a_new u)
    then show ?thesis using F rel_inv_Cons [OF F(5)]
      by (intro single_invI [of _ fs]) (auto simp: less_Suc_eq)
  next
    case (a_next u a)
    then show ?thesis using F by (intro single_invI [of _ fs]) auto
  next
    case (a_swap u a n)
    then obtain gs where gs: "fs = a # gs" "chain (tNext s) (tNext s a) gs None"
      using F(1) by (auto simp: chain_Some_None)
    then show ?thesis using a_swap F rel_inv_Cons [OF F(5)] by (intro single_invI [of _ gs]) auto
  next
    case (a_fail u a n)
    then show ?thesis using F hd by (intro single_invI [of _ fs]) auto
  next
    case (r_load b)
    then show ?thesis using F by (intro single_invI [of _ fs]) auto
  next
    case (r_link b e)
    then have b: "b \<in> set (held s)" "b \<notin> set fs" using F(2,5) by auto
    then show ?thesis using r_link F acq_inv_upd [OF F(4)]
      by (intro single_invI [of _ fs]) auto
  next
    case (r_swap b e)
    then have b: "b \<in> set (held s)" "tNext s b = e" "b \<notin> set fs" using F(2,5) by auto
    moreover have "acq_inv (tNext s) (b # fs) (acq s t)" by (rule acq_inv_mono [OF F(4)]) auto
    ultimately show ?thesis using r_swap F
      by (intro single_invI [of _ "b # fs"]) (auto dest: notin_set_remove1)
  next
    case (r_fail b e)
    then show ?thesis using F by (intro single_invI [of _ fs]) auto
  qed
qed

interpretation mpool: step_system "mpool_step {t}" "single_inv t" for t
  by unfold_locales (rule single_inv_step)

text \<open>The steps as a function, to run a given interleaving.\<close>

datatype mpool_action = ALoad nat | ANew nat | ANext nat | ASwap nat | RLoad nat | RLink | RSwap

fun actor_in :: "nat set \<Rightarrow> mpool_action \<Rightarrow> bool" where
  "actor_in P (ALoad t) \<longleftrightarrow> t \<in> P"
| "actor_in P (ANew t) \<longleftrightarrow> t \<in> P"
| "actor_in P (ANext t) \<longleftrightarrow> t \<in> P"
| "actor_in P (ASwap t) \<longleftrightarrow> t \<in> P"
| "actor_in P _ \<longleftrightarrow> True"

fun do_mpool :: "mpool_action \<Rightarrow> mpool_threads \<Rightarrow> mpool_threads option" where
  "do_mpool (ALoad t) s = (if acq s t = Idle then Some (s\<lparr>acq := (acq s)(t := Loaded (tHead s))\<rparr>) else None)"
| "do_mpool (ANew t) s = (if acq s t = Loaded None
     then Some (s\<lparr>acq := (acq s)(t := Idle), fresh := Suc (fresh s), held := fresh s # held s\<rparr>) else None)"
| "do_mpool (ANext t) s = (case acq s t of Loaded (Some a) \<Rightarrow>
     Some (s\<lparr>acq := (acq s)(t := GotNext a (tNext s a))\<rparr>) | _ \<Rightarrow> None)"
| "do_mpool (ASwap t) s = (case acq s t of GotNext a n \<Rightarrow> if tHead s = Some a
     then Some (s\<lparr>tHead := n, acq := (acq s)(t := Idle), held := a # held s\<rparr>) else None | _ \<Rightarrow> None)"
| "do_mpool (RLoad b) s = (if rel s = NotReleasing \<and> b \<in> set (held s)
     then Some (s\<lparr>rel := HeadLoaded b (tHead s)\<rparr>) else None)"
| "do_mpool RLink s = (case rel s of HeadLoaded b e \<Rightarrow>
     Some (s\<lparr>tNext := (tNext s)(b := e), rel := Linked b e\<rparr>) | _ \<Rightarrow> None)"
| "do_mpool RSwap s = (case rel s of Linked b e \<Rightarrow> if tHead s = e
     then Some (s\<lparr>tHead := Some b, rel := NotReleasing, held := remove1 b (held s)\<rparr>) else None | _ \<Rightarrow> None)"

lemma do_mpool_step: "do_mpool x s = Some s' \<Longrightarrow> actor_in P x \<Longrightarrow> mpool_step P s s'"
  by (cases x) (auto split: if_splits acquiring.splits option.splits releasing.splits
      intro: mpool_step.intros)

primrec run_mpool :: "mpool_action list \<Rightarrow> mpool_threads \<Rightarrow> mpool_threads option" where
  "run_mpool [] s = Some s"
| "run_mpool (x # xs) s = Option.bind (do_mpool x s) (run_mpool xs)"

lemma run_mpool_steps:
  "run_mpool xs s = Some s' \<Longrightarrow> \<forall>x\<in>set xs. actor_in P x \<Longrightarrow> (mpool_step P)\<^sup>*\<^sup>* s s'"
  by (induction xs arbitrary: s)
    (auto simp: bind_eq_Some_conv intro: converse_rtranclp_into_rtranclp do_mpool_step)

definition aba_prefix :: "mpool_action list" where
  "aba_prefix =
     [ALoad 1, ANew 1, ALoad 1, ANew 1, RLoad 1, RLink, RSwap, RLoad 0, RLink, RSwap,
      ALoad 0, ANext 0,
      ALoad 1, ANext 1, ASwap 1, ALoad 1, ANext 1, ASwap 1,
      RLoad 0, RLink, RSwap,
      ASwap 0,
      ALoad 1, ANext 1]"

lemma aba_prefix_run:
  "\<exists>s. run_mpool aba_prefix mpool_start = Some s \<and> held s = [0, 1] \<and> tHead s = Some 1 \<and>
     acq s 1 = GotNext 1 None"
  by (simp add: aba_prefix_def mpool_start_def)

definition single_run :: "mpool_action list" where
  "single_run = [ALoad 0, ANew 0, ALoad 0, ANew 0, RLoad 1, ALoad 0, RLink, RSwap, ANew 0,
     ALoad 0, ANext 0, ASwap 0, RLoad 2, RLink, RSwap]"

lemma single_run_ok: "\<exists>s. run_mpool single_run mpool_start = Some s \<and> held s = [1, 0]"
  by (simp add: single_run_def mpool_start_def)

section \<open>Properties\<close>

text \<open>
  One call after the other: for every size up to the largest body, \<open>Acquire\<close> returns a block
  that no client holds (free or newly allocated), with room for the size; \<open>Release\<close> with a size of
  the same class makes it free again and the next one for its class; larger sizes abort; and the
  destructor deletes every free block once.
\<close>

theorem pool_blocks:
  assumes "mpool_ok pr m fs"
  shows "(if sz \<le> MaxMessageBodySize pr then \<exists>a m' fs'. pool_Acquire pr m sz = Inr (a, m') \<and>
        mpool_ok pr m' fs' \<and> sz \<le> bodySize m' a \<and> (a \<in> free_blocks fs \<or> a = allocated m) \<and>
        free_blocks fs' = free_blocks fs - {a} \<and>
        (\<exists>m'' fs''. pool_Release pr m' sz a = Inr m'' \<and> mpool_ok pr m'' fs'' \<and>
           free_blocks fs'' = insert a (free_blocks fs) \<and> (\<exists>m3. pool_Acquire pr m'' sz = Inr (a, m3)))
      else pool_Acquire pr m sz = Inl Aborted) \<and>
    (\<exists>as. deleted m = map Some as \<and> distinct (concat as) \<and> set (concat as) = free_blocks fs)"
proof (rule conjI)
  show "if sz \<le> MaxMessageBodySize pr then \<exists>a m' fs'. pool_Acquire pr m sz = Inr (a, m') \<and>
        mpool_ok pr m' fs' \<and> sz \<le> bodySize m' a \<and> (a \<in> free_blocks fs \<or> a = allocated m) \<and>
        free_blocks fs' = free_blocks fs - {a} \<and>
        (\<exists>m'' fs''. pool_Release pr m' sz a = Inr m'' \<and> mpool_ok pr m'' fs'' \<and>
           free_blocks fs'' = insert a (free_blocks fs) \<and> (\<exists>m3. pool_Acquire pr m'' sz = Inr (a, m3)))
      else pool_Acquire pr m sz = Inl Aborted"
  proof (cases "sz \<le> MaxMessageBodySize pr")
    case False
    then show ?thesis by (simp add: pool_Acquire_def GetMemoryBlockListHeadFor_def)
  next
    case True
    obtain a m' fs' i where A: "pool_Acquire pr m sz = Inr (a, m')" "mpool_ok pr m' fs'" "sz \<le> bodySize m' a"
      "a \<in> free_blocks fs \<or> a = allocated m" "free_blocks fs' = free_blocks fs - {a}" "a < allocated m'"
      "GetMemoryBlockListHeadFor pr sz = Some (i, bodySize m' a)"
      by (rule pool_Acquire_ok [OF assms True]) blast
    have "a \<notin> free_blocks fs'" using A(5) by simp
    then obtain m'' where "pool_Release pr m' sz a = Inr m''" "mpool_ok pr m'' (fs'(i := a # fs' i))"
      "free_blocks (fs'(i := a # fs' i)) = insert a (free_blocks fs')"
      "pool_Acquire pr m'' sz = Inr (a, m''\<lparr>memoryBlockListHeads := memoryBlockListHeads m'\<rparr>)"
      by (rule pool_Release_ok [OF A(2,7,6)])
    moreover have "insert a (free_blocks fs') = insert a (free_blocks fs)" using A(5) by auto
    ultimately show ?thesis using A True by auto
  qed
  show "\<exists>as. deleted m = map Some as \<and> distinct (concat as) \<and> set (concat as) = free_blocks fs"
    using deleted_eq [OF assms] deleted_blocks [OF assms] by blast
qed

theorem pool_blocks_witness:
  "\<exists>a m' fs'. pool_Acquire \<lparr>MessageMaxSize = 4096, MessageHeaderSize = 4\<rparr> new_mpool 100 = Inr (a, m') \<and>
     mpool_ok \<lparr>MessageMaxSize = 4096, MessageHeaderSize = 4\<rparr> m' fs' \<and> 100 \<le> bodySize m' a"
  using pool_blocks [OF mpool_ok_new [of "\<lparr>MessageMaxSize = 4096, MessageHeaderSize = 4\<rparr>"], of 100]
  by (auto simp: MaxMessageBodySize_def)

text \<open>
  C29.  With one producer thread and the consumer, under every interleaving of their loads, links
  and compare-and-swaps, no block is ever in the hands of two clients, no free block is in the
  hands of one, and the free list stays a finite chain.
\<close>

theorem single_producer_safe:
  assumes "(mpool_step {t})\<^sup>*\<^sup>* mpool_start s"
  shows "distinct (held s) \<and> (\<exists>fs. chain (tNext s) (tHead s) fs None \<and> distinct fs \<and>
    set fs \<inter> set (held s) = {})"
  using mpool.steps_ok [OF assms single_inv_start] unfolding single_inv_def by auto

theorem single_producer_safe_witness:
  "\<exists>s. run_mpool single_run mpool_start = Some s \<and> held s = [1, 0] \<and> distinct (held s)"
proof -
  obtain s where s: "run_mpool single_run mpool_start = Some s" "held s = [1, 0]" using single_run_ok by blast
  have "(mpool_step {0})\<^sup>*\<^sup>* mpool_start s"
    by (rule run_mpool_steps [OF s(1)]) (simp add: single_run_def)
  from single_producer_safe [OF this] s show ?thesis by blast
qed

text \<open>
  With two producers the pool is not safe, although the comment of the class allows several:
  between the read of the link and the swap of one producer, the other takes two blocks and the
  consumer gives the first one back.  The swap succeeds and the next \<open>Acquire\<close> returns a block that
  a client still holds.
\<close>

theorem two_producers_share_a_block:
  "\<exists>s s' a. (mpool_step {0, 1})\<^sup>*\<^sup>* mpool_start s \<and> mpool_step {0, 1} s s' \<and>
     a \<in> set (held s) \<and> held s' = a # held s"
proof -
  obtain s where "run_mpool aba_prefix mpool_start = Some s" "held s = [0, 1]" "tHead s = Some 1"
    "acq s 1 = GotNext 1 None"
    using aba_prefix_run by blast
  moreover have "(mpool_step {0, 1})\<^sup>*\<^sup>* mpool_start s"
    by (rule run_mpool_steps [of aba_prefix]) (use calculation in \<open>simp_all add: aba_prefix_def\<close>)
  moreover have "mpool_step {0, 1} s (s\<lparr>tHead := None, acq := (acq s)(1 := Idle), held := 1 # held s\<rparr>)"
    using calculation by (intro a_swap) simp_all
  ultimately show ?thesis
    by (intro exI [of _ s] exI [of _ "s\<lparr>tHead := None, acq := (acq s)(1 := Idle), held := 1 # held s\<rparr>"]
        exI [of _ 1] conjI) simp_all
qed

end
