(* ===== verification/Session_Data.thy ===== *)
theory Session_Data
  imports Ring Message_Pool
begin

text \<open>
  \<open>Session\<close> of Session.h and Session.cpp: its members, the sizes of its ring buffers, and the framing of
  messages: \<open>PushMessage\<close> on the way out, \<open>PeekReceivedMessage\<close> and \<open>PopReceivedMessage\<close> on the
  way in.
\<close>

unbundle bit_operations_syntax

section \<open>Sizes and byte order\<close>

definition Htons :: "u16 \<Rightarrow> u16" where
  "Htons value = (drop_bit 8 (value AND 0xFF00)) OR (push_bit 8 (value AND 0x00FF))"

definition GetRingBufferSize :: "nat \<Rightarrow> nat \<Rightarrow> nat \<Rightarrow> nat" where
  "GetRingBufferSize bufferCapacity head tail =
     (if head \<le> tail then tail - head else bufferCapacity - head + tail)"

definition GetWritableSizes :: "nat \<Rightarrow> nat \<Rightarrow> nat \<Rightarrow> nat \<Rightarrow> (nat \<times> nat) option" where
  "GetWritableSizes bufferCapacity head tail sizeToWrite =
     (let ringBufferSize = GetRingBufferSize bufferCapacity head tail;
          ringBufferAvailableSize = bufferCapacity - ringBufferSize - 1
      in if ringBufferAvailableSize < sizeToWrite then None
         else let primarySize = min sizeToWrite (bufferCapacity - tail)
              in Some (primarySize, sizeToWrite - primarySize))"

definition GetReadableSizes :: "nat \<Rightarrow> nat \<Rightarrow> nat \<Rightarrow> nat \<Rightarrow> (nat \<times> nat) option" where
  "GetReadableSizes bufferCapacity head tail sizeToRead =
     (let ringBufferSize = GetRingBufferSize bufferCapacity head tail
      in if ringBufferSize < sizeToRead then None
         else let primarySize = min sizeToRead (bufferCapacity - head)
              in Some (primarySize, sizeToRead - primarySize))"

text \<open>A 16-bit integer in memory, least significant byte first.\<close>

definition mem16 :: "u16 \<Rightarrow> u8 list" where
  "mem16 v = [ucast v, ucast (drop_bit 8 v)]"

definition word16 :: "u8 \<Rightarrow> u8 \<Rightarrow> u16" where
  "word16 a b = ucast a OR push_bit 8 (ucast b)"

section \<open>State\<close>

text \<open>
  The constants of the generated protocol header: beside the sizes, the size of the type of
  \<open>MessageHeaderSize\<close>, which \<open>PushMessage\<close> uses.  \<open>MessageHeader\<close> itself is two \<open>uint16_t\<close>.
\<close>

record session_protocol = protocol +
  sizeof_MessageHeaderSize :: nat

definition BufferCapacity :: "session_protocol \<Rightarrow> nat" where
  "BufferCapacity pr = MessageMaxSize pr * 4"

definition sizeof_MessageHeader :: nat where
  "sizeof_MessageHeader = 4"

datatype io_type = IoType_Send | IoType_Receive | IoType_InitiateSend

text \<open>
  The members of \<open>Session\<close>.  \<open>Ssl\<close> is the state of the TLS engine with its two memory BIOs, \<open>None\<close>
  once \<open>SSL_free\<close> has been called.
\<close>

record 't session =
  Context :: u32
  AssociatedActor :: string
  Ssl :: "'t option"
  ReceiveTlsBuffer :: buffer
  receiveTlsBufferHead :: nat
  receiveTlsBufferTail :: nat
  ReceiveAppBuffer :: buffer
  receiveAppBufferHead :: nat
  receiveAppBufferTail :: nat
  ReceiveContiguousPopBuffer :: buffer
  SendTlsBuffer :: buffer
  sendTlsBufferHead :: nat
  sendTlsBufferTail :: nat
  sendAppQueue :: "u8 list list"
  isIoOnline :: "io_type \<Rightarrow> bool"
  shouldClose :: bool

definition new_session :: "session_protocol \<Rightarrow> 't \<Rightarrow> u32 \<Rightarrow> string \<Rightarrow> 't session" where
  "new_session pr ssl context initialAssociatedActor =
     \<lparr>Context = context, AssociatedActor = initialAssociatedActor, Ssl = Some ssl,
      ReceiveTlsBuffer = replicate (BufferCapacity pr) 0, receiveTlsBufferHead = 0, receiveTlsBufferTail = 0,
      ReceiveAppBuffer = replicate (BufferCapacity pr) 0, receiveAppBufferHead = 0, receiveAppBufferTail = 0,
      ReceiveContiguousPopBuffer = replicate (MessageMaxSize pr) 0,
      SendTlsBuffer = replicate (BufferCapacity pr) 0, sendTlsBufferHead = 0, sendTlsBufferTail = 0,
      sendAppQueue = [], isIoOnline = (\<lambda>io. False), shouldClose = False\<rparr>"

definition GetReceiveTlsBufferSize :: "session_protocol \<Rightarrow> 't session \<Rightarrow> nat" where
  "GetReceiveTlsBufferSize pr s =
     GetRingBufferSize (BufferCapacity pr) (receiveTlsBufferHead s) (receiveTlsBufferTail s)"

definition GetReceiveAppBufferSize :: "session_protocol \<Rightarrow> 't session \<Rightarrow> nat" where
  "GetReceiveAppBufferSize pr s =
     GetRingBufferSize (BufferCapacity pr) (receiveAppBufferHead s) (receiveAppBufferTail s)"

definition GetSendTlsBufferSize :: "session_protocol \<Rightarrow> 't session \<Rightarrow> nat" where
  "GetSendTlsBufferSize pr s =
     GetRingBufferSize (BufferCapacity pr) (sendTlsBufferHead s) (sendTlsBufferTail s)"

section \<open>Framing\<close>

text \<open>
  \<open>PushMessage\<close>: the buffer is allocated with \<open>sizeof(MessageHeaderSize) + ByteSizeLong()\<close> bytes; the
  header and the body are written into it and it is queued.  A message is given by its serialisation.
\<close>

definition PushMessage :: "session_protocol \<Rightarrow> u16 \<Rightarrow> u8 list \<Rightarrow> 't session \<Rightarrow> 't session res" where
  "PushMessage pr messageType body s =
     bindR (store_bytes (replicate (sizeof_MessageHeaderSize pr + length body) 0) 0
              (mem16 (Htons messageType) @ mem16 (Htons (of_nat (length body))))) (\<lambda>m.
     bindR (store_bytes m sizeof_MessageHeader body) (\<lambda>m.
     Inr (s\<lparr>sendAppQueue := sendAppQueue s @ [take (sizeof_MessageHeader + length body) m]\<rparr>)))"

fun read_header :: "u8 list \<Rightarrow> (u16 \<times> u16) res" where
  "read_header [a, b, c, d] = Inr (Htons (word16 a b), Htons (word16 c d))"
| "read_header _ = Inl OutOfBounds"

text \<open>The part of \<open>PeekReceivedMessage\<close> after the header has been read.\<close>

definition peek_body :: "session_protocol \<Rightarrow> 't session \<Rightarrow> u16 \<times> u16 \<Rightarrow>
    ((u16 \<times> u16 \<times> u8 list) option \<times> 't session) res" where
  "peek_body pr s header =
     (let messageType = fst header; bodyLen = snd header;
          bodyHead = (receiveAppBufferHead s + MessageHeaderSize pr) mod BufferCapacity pr
      in case GetReadableSizes (BufferCapacity pr) bodyHead (receiveAppBufferTail s) (unat bodyLen) of
           None \<Rightarrow> Inr (None, s)
         | Some (primaryBodySize, secondaryBodySize) \<Rightarrow>
             if primaryBodySize = unat bodyLen
             then bindR (load_bytes (ReceiveAppBuffer s) bodyHead (unat bodyLen)) (\<lambda>body.
                  Inr (Some (messageType, bodyLen, body), s))
             else
               bindR (load_bytes (ReceiveAppBuffer s) bodyHead primaryBodySize) (\<lambda>b1.
               bindR (store_bytes (ReceiveContiguousPopBuffer s) 0 b1) (\<lambda>pop1.
               bindR (load_bytes (ReceiveAppBuffer s) 0 secondaryBodySize) (\<lambda>b2.
               bindR (store_bytes pop1 primaryBodySize b2) (\<lambda>pop2.
               Inr (Some (messageType, bodyLen, take (unat bodyLen) pop2),
                    s\<lparr>ReceiveContiguousPopBuffer := pop2\<rparr>))))))"

definition PeekReceivedMessage ::
    "session_protocol \<Rightarrow> 't session \<Rightarrow> ((u16 \<times> u16 \<times> u8 list) option \<times> 't session) res" where
  "PeekReceivedMessage pr s =
     (case GetReadableSizes (BufferCapacity pr) (receiveAppBufferHead s) (receiveAppBufferTail s)
             (MessageHeaderSize pr) of
        None \<Rightarrow> Inr (None, s)
      | Some (primaryHeaderSize, secondaryHeaderSize) \<Rightarrow>
          bindR (load_bytes (ReceiveAppBuffer s) (receiveAppBufferHead s) primaryHeaderSize) (\<lambda>h1.
          bindR (load_bytes (ReceiveAppBuffer s) 0 secondaryHeaderSize) (\<lambda>h2.
          bindR (read_header (h1 @ h2)) (\<lambda>header. peek_body pr s header))))"

definition PopReceivedMessage :: "session_protocol \<Rightarrow> nat \<Rightarrow> 't session \<Rightarrow> 't session" where
  "PopReceivedMessage pr sz s =
     s\<lparr>receiveAppBufferHead := (receiveAppBufferHead s + sz) mod BufferCapacity pr\<rparr>"

text \<open>
  The loop of \<open>NetworkServer::PostReceive\<close> over the messages that are complete: each one is peeked,
  copied and popped.
\<close>

partial_function (option) drain_messages ::
    "session_protocol \<Rightarrow> 't session \<Rightarrow> ((u16 \<times> u8 list) list \<times> 't session) res option" where
  "drain_messages pr s =
     (case PeekReceivedMessage pr s of
        Inl e \<Rightarrow> Some (Inl e)
      | Inr (None, s') \<Rightarrow> Some (Inr ([], s'))
      | Inr (Some (messageType, bodyLen, body), s') \<Rightarrow>
          bindO (drain_messages pr (PopReceivedMessage pr (MessageHeaderSize pr + unat bodyLen) s')) (\<lambda>r.
            Some (Inr ((messageType, body) # fst r, snd r))))"

section \<open>Reading a frame\<close>

definition protocol_ok :: "session_protocol \<Rightarrow> bool" where
  "protocol_ok pr \<longleftrightarrow> MessageHeaderSize pr = sizeof_MessageHeader \<and> sizeof_MessageHeader \<le> MessageMaxSize pr"

text \<open>The bytes of the application buffer, and the part of the invariant that reading needs.\<close>

definition app_content :: "'t session \<Rightarrow> u8 list" where
  "app_content s = ring_content (ReceiveAppBuffer s) (receiveAppBufferHead s) (receiveAppBufferTail s)"

definition app_ok :: "session_protocol \<Rightarrow> 't session \<Rightarrow> bool" where
  "app_ok pr s \<longleftrightarrow> length (ReceiveAppBuffer s) = BufferCapacity pr \<and>
     receiveAppBufferHead s < BufferCapacity pr \<and> receiveAppBufferTail s < BufferCapacity pr \<and>
     length (ReceiveContiguousPopBuffer s) = MessageMaxSize pr"

text \<open>What the first complete frame of a byte sequence is.\<close>

fun next_frame :: "u8 list \<Rightarrow> (u16 \<times> u16 \<times> u8 list) option" where
  "next_frame (a # b # c # d # rest) =
     (let n = word16 d c in if length rest < unat n then None else Some (word16 b a, n, take (unat n) rest))"
| "next_frame _ = None"

lemma GetRingBufferSize_eq: "GetRingBufferSize = ring_size"
  by (intro ext) (simp add: GetRingBufferSize_def ring_size_def)

lemma u8_bit: "\<not> bit (a::u8) (8 + n)" "\<not> bit (a::u8) (n + 8)"
  by (auto dest: bit_imp_le_length)

lemma Htons_mask: "Htons v = (drop_bit 8 (v AND push_bit 8 (mask 8))) OR (push_bit 8 (v AND mask 8))"
  by (simp add: Htons_def mask_eq_exp_minus_1)

lemma Htons_word16: "Htons (word16 a b) = word16 b a"
proof (rule bit_word_eqI)
  fix n assume "n < LENGTH(16)"
  then show "bit (Htons (word16 a b)) n = bit (word16 b a) n"
    using bit_imp_le_length [of b n] bit_imp_le_length [of a n]
    by (auto simp: Htons_mask word16_def bit_simps u8_bit)
qed

lemma mem16_word16: "mem16 (word16 a b) = [a, b]"
proof -
  have "ucast (word16 a b) = a"
    by (rule bit_word_eqI) (auto simp: word16_def bit_simps)
  moreover have "ucast (drop_bit 8 (word16 a b)) = b"
    by (intro bit_word_eqI) (auto simp: word16_def bit_simps u8_bit)
  ultimately show ?thesis by (simp add: mem16_def)
qed

lemma word16_split: "\<exists>a b. v = word16 a b"
proof -
  have "v = word16 (ucast v) (ucast (drop_bit 8 v))"
    by (rule bit_word_eqI) (auto simp: word16_def bit_simps)
  then show ?thesis by blast
qed

lemma GetReadableSizes_eq:
  "GetReadableSizes cap h t n =
     (if ring_size cap h t < n then None else Some (min n (cap - h), n - min n (cap - h)))"
  by (simp add: GetReadableSizes_def GetRingBufferSize_eq Let_def)

text \<open>Two copies from the head read a prefix of the content.\<close>

lemma load_prefix:
  assumes "h < length buf" and "t < length buf" and "n \<le> ring_size (length buf) h t"
  obtains xs ys where "load_bytes buf h (min n (length buf - h)) = Inr xs"
    "load_bytes buf 0 (n - min n (length buf - h)) = Inr ys" "xs @ ys = take n (ring_content buf h t)"
    "length xs = min n (length buf - h)"
proof -
  have le: "n \<le> length buf" using ring_size_less [OF assms(1,2)] assms(3) by linarith
  have tk: "take n (ring_content buf h t) = ring_bytes buf h n"
    using assms(3) by (simp add: ring_content_def ring_bytes_take)
  show thesis
  proof (cases "n \<le> length buf - h")
    case True
    then have m: "min n (length buf - h) = n" by simp
    have "load_bytes buf h n = Inr (ring_bytes buf h n)"
      using True assms(1) by (intro load_contiguous) linarith
    moreover have "load_bytes buf 0 0 = Inr []" by (simp add: load_bytes_def)
    ultimately show thesis using that [of "ring_bytes buf h n" "[]"] tk m by simp
  next
    case False
    then have m: "min n (length buf - h) = length buf - h" by simp
    from load_wrapped [OF assms(1) _ le] False obtain xs ys where
      l: "load_bytes buf h (length buf - h) = Inr xs" "load_bytes buf 0 (n - (length buf - h)) = Inr ys"
      "xs @ ys = ring_bytes buf h n" by (meson nat_le_linear)
    moreover have "length xs = length buf - h" using l(1) by (auto simp: load_bytes_def split: if_splits)
    ultimately show thesis using that [of xs ys] tk m by simp
  qed
qed

lemma app_okD:
  assumes "app_ok pr s"
  shows "length (ReceiveAppBuffer s) = BufferCapacity pr" "receiveAppBufferHead s < BufferCapacity pr"
    "receiveAppBufferTail s < BufferCapacity pr" "length (ReceiveContiguousPopBuffer s) = MessageMaxSize pr"
    "length (app_content s) = ring_size (BufferCapacity pr) (receiveAppBufferHead s) (receiveAppBufferTail s)"
  using assms by (auto simp: app_ok_def app_content_def)

text \<open>The body is in one piece if it ends before the end of the buffer.\<close>

definition body_contiguous :: "session_protocol \<Rightarrow> 't session \<Rightarrow> nat \<Rightarrow> bool" where
  "body_contiguous pr s n \<longleftrightarrow>
     (receiveAppBufferHead s + sizeof_MessageHeader) mod BufferCapacity pr + n \<le> BufferCapacity pr"

lemma next_frame_cases:
  obtains (short) "length c < 4" "next_frame c = None"
  | (frame) a b d e rest where "c = a # b # d # e # rest"
  by (cases c rule: next_frame.cases) auto

lemma peek_header:
  assumes ok: "app_ok pr s" and pr: "protocol_ok pr"
  shows "PeekReceivedMessage pr s =
    (case app_content s of a # b # d # e # rest \<Rightarrow> peek_body pr s (word16 b a, word16 e d)
     | _ \<Rightarrow> Inr (None, s))"
proof (cases "length (app_content s) < 4")
  case True
  then have "GetReadableSizes (BufferCapacity pr) (receiveAppBufferHead s) (receiveAppBufferTail s) 4 = None"
    using app_okD(5) [OF ok] by (simp add: GetReadableSizes_eq)
  moreover have "(case app_content s of a # b # d # e # rest \<Rightarrow> peek_body pr s (word16 b a, word16 e d)
     | _ \<Rightarrow> Inr (None, s)) = Inr (None, s)"
    using True by (cases "app_content s" rule: next_frame.cases) auto
  ultimately show ?thesis
    using pr by (simp add: PeekReceivedMessage_def protocol_ok_def sizeof_MessageHeader_def)
next
  case False
  note K = app_okD [OF ok]
  have le: "4 \<le> ring_size (length (ReceiveAppBuffer s)) (receiveAppBufferHead s) (receiveAppBufferTail s)"
    using False K by simp
  obtain xs ys where l: "load_bytes (ReceiveAppBuffer s) (receiveAppBufferHead s)
      (min 4 (BufferCapacity pr - receiveAppBufferHead s)) = Inr xs"
    "load_bytes (ReceiveAppBuffer s) 0 (4 - min 4 (BufferCapacity pr - receiveAppBufferHead s)) = Inr ys"
    "xs @ ys = take 4 (app_content s)"
    using load_prefix [OF _ _ le] K unfolding app_content_def by metis
  obtain a b d e rest where c: "app_content s = a # b # d # e # rest"
    using False next_frame_cases [of "app_content s"] by (metis not_less)
  have "take 4 (app_content s) = [a, b, d, e]" using c by (simp add: numeral_eq_Suc)
  moreover have "PeekReceivedMessage pr s = bindR (read_header (xs @ ys)) (peek_body pr s)"
    using pr le l(1,2) K(1)
    by (simp add: PeekReceivedMessage_def protocol_ok_def sizeof_MessageHeader_def GetReadableSizes_eq)
  ultimately show ?thesis using l(3) c by (simp add: Htons_word16)
qed

lemma peek_body_spec:
  assumes ok: "app_ok pr s" and pr: "protocol_ok pr" and c: "app_content s = a # b # d # e # rest"
  shows "if length rest < unat n then peek_body pr s (ty, n) = Inr (None, s)
    else if body_contiguous pr s (unat n) \<or> unat n \<le> MessageMaxSize pr
    then \<exists>pop. length pop = MessageMaxSize pr \<and>
      peek_body pr s (ty, n) = Inr (Some (ty, n, take (unat n) rest), s\<lparr>ReceiveContiguousPopBuffer := pop\<rparr>)
    else peek_body pr s (ty, n) = Inl OutOfBounds"
proof -
  note K = app_okD [OF ok]
  let ?c = "BufferCapacity pr" and ?t = "receiveAppBufferTail s"
  define h where "h = (receiveAppBufferHead s + 4) mod ?c"
  have h: "h < ?c" using K(2) by (simp add: h_def)
  have four: "4 \<le> ring_size ?c (receiveAppBufferHead s) ?t" using c K(5) by simp
  have "drop 4 (app_content s) = rest" using c by (simp add: numeral_eq_Suc)
  then have cb: "ring_content (ReceiveAppBuffer s) h ?t = rest" "ring_size ?c h ?t = length rest"
    using ring_content_pop [of "receiveAppBufferHead s" "ReceiveAppBuffer s" ?t 4] four K c
    by (auto simp add: h_def app_content_def)
  have hd: "(receiveAppBufferHead s + MessageHeaderSize pr) mod ?c = h"
    using pr by (simp add: h_def protocol_ok_def sizeof_MessageHeader_def)
  have bc: "body_contiguous pr s (unat n) \<longleftrightarrow> h + unat n \<le> ?c"
    by (simp add: body_contiguous_def h_def sizeof_MessageHeader_def)
  show ?thesis
  proof (cases "length rest < unat n")
    case True
    then show ?thesis by (simp add: peek_body_def Let_def hd GetReadableSizes_eq cb)
  next
    case False
    then have le: "unat n \<le> ring_size (length (ReceiveAppBuffer s)) h ?t" using cb K(1) by simp
    obtain xs ys where l: "load_bytes (ReceiveAppBuffer s) h (min (unat n) (?c - h)) = Inr xs"
      "load_bytes (ReceiveAppBuffer s) 0 (unat n - min (unat n) (?c - h)) = Inr ys"
      "xs @ ys = take (unat n) rest" "length xs = min (unat n) (?c - h)"
      using load_prefix [OF _ _ le] h K cb by metis
    show ?thesis
    proof (cases "h + unat n \<le> ?c")
      case True
      then have m: "min (unat n) (?c - h) = unat n" by simp
      moreover have "ys = []" using l(2) m by (simp add: load_bytes_def)
      ultimately have "peek_body pr s (ty, n) = Inr (Some (ty, n, take (unat n) rest), s)"
        using False l by (simp add: peek_body_def Let_def hd GetReadableSizes_eq cb)
      then have "peek_body pr s (ty, n) =
          Inr (Some (ty, n, take (unat n) rest), s\<lparr>ReceiveContiguousPopBuffer := ReceiveContiguousPopBuffer s\<rparr>)"
        by simp
      then show ?thesis using False True bc K(4) by auto
    next
      case w: False
      have ly: "length ys = unat n - length xs" "length xs \<le> unat n" "length xs \<noteq> unat n" "length xs = ?c - h"
      proof -
        have "length xs + length ys = unat n" using False length_append [of xs ys] unfolding l(3) by simp
        moreover have "length xs = ?c - h" using l(4) w by simp
        ultimately show "length ys = unat n - length xs" "length xs \<le> unat n" "length xs \<noteq> unat n" "length xs = ?c - h"
          using w h by linarith+
      qed
      have P: "peek_body pr s (ty, n) =
          bindR (store_bytes (ReceiveContiguousPopBuffer s) 0 xs) (\<lambda>pop1.
          bindR (store_bytes pop1 (length xs) ys) (\<lambda>pop2.
          Inr (Some (ty, n, take (unat n) pop2), s\<lparr>ReceiveContiguousPopBuffer := pop2\<rparr>)))"
        using False l(1,2) ly
        by (simp add: peek_body_def Let_def hd GetReadableSizes_eq cb l(4) [symmetric])
      have "if unat n \<le> MessageMaxSize pr
        then bindR (store_bytes (ReceiveContiguousPopBuffer s) 0 xs) (\<lambda>pop1. store_bytes pop1 (length xs) ys) =
          Inr (xs @ ys @ drop (unat n) (ReceiveContiguousPopBuffer s))
        else bindR (store_bytes (ReceiveContiguousPopBuffer s) 0 xs) (\<lambda>pop1. store_bytes pop1 (length xs) ys) =
          Inl OutOfBounds"
        using ly K(4) by (auto simp: store_bytes_def)
      moreover have "peek_body pr s (ty, n) =
          bindR (bindR (store_bytes (ReceiveContiguousPopBuffer s) 0 xs) (\<lambda>pop1. store_bytes pop1 (length xs) ys))
            (\<lambda>pop2. Inr (Some (ty, n, take (unat n) pop2), s\<lparr>ReceiveContiguousPopBuffer := pop2\<rparr>))"
        unfolding P bindR_assoc ..
      moreover have "unat n \<le> MessageMaxSize pr \<Longrightarrow>
          length (xs @ ys @ drop (unat n) (ReceiveContiguousPopBuffer s)) = MessageMaxSize pr"
        using ly K(4) by simp
      ultimately show ?thesis using False w bc l(3) ly K(4)
        by (auto split: if_splits intro!: exI [of _ "xs @ ys @ drop (unat n) (ReceiveContiguousPopBuffer s)"])
    qed
  qed
qed

lemma next_frame_Some:
  "next_frame c = Some (ty, n, body) \<Longrightarrow>
     \<exists>rest. drop 4 c = rest \<and> unat n \<le> length rest \<and> body = take (unat n) rest \<and> 4 + unat n \<le> length c"
  by (cases c rule: next_frame.cases) (auto simp: Let_def split: if_splits)

text \<open>\<open>PeekReceivedMessage\<close> on every branch.\<close>

lemma peek_spec:
  assumes ok: "app_ok pr s" and pr: "protocol_ok pr"
  shows "case next_frame (app_content s) of
      None \<Rightarrow> PeekReceivedMessage pr s = Inr (None, s)
    | Some (ty, n, body) \<Rightarrow>
        if body_contiguous pr s (unat n) \<or> unat n \<le> MessageMaxSize pr
        then \<exists>pop. length pop = MessageMaxSize pr \<and>
          PeekReceivedMessage pr s = Inr (Some (ty, n, body), s\<lparr>ReceiveContiguousPopBuffer := pop\<rparr>)
        else PeekReceivedMessage pr s = Inl OutOfBounds"
proof (cases "app_content s" rule: next_frame.cases)
  case (1 a b c d rest)
  then show ?thesis using peek_header [OF ok pr] peek_body_spec [OF ok pr 1, of "word16 d c" "word16 b a"]
    by (simp add: Let_def split: if_splits)
qed (use peek_header [OF ok pr] in auto)


section \<open>Frames\<close>

text \<open>The bytes \<open>PushMessage\<close> queues for a message, and the messages in a byte sequence.\<close>

definition frame :: "u16 \<times> u8 list \<Rightarrow> u8 list" where
  "frame m = mem16 (Htons (fst m)) @ mem16 (Htons (of_nat (length (snd m)))) @ snd m"

function frames :: "u8 list \<Rightarrow> (u16 \<times> u8 list) list \<times> u8 list" where
  "frames c = (case next_frame c of None \<Rightarrow> ([], c)
     | Some (ty, n, body) \<Rightarrow> (case frames (drop (4 + unat n) c) of (ms, r) \<Rightarrow> ((ty, body) # ms, r)))"
  by auto
termination
  by (relation "measure length") (auto dest: next_frame_Some)

declare frames.simps [simp del]

lemma next_frame_frame:
  assumes "length (snd m) < 2 ^ 16"
  shows "next_frame (frame m @ rest) = Some (fst m, of_nat (length (snd m)), snd m)"
    and "length (frame m) = 4 + length (snd m)"
proof -
  obtain ty body where m: "m = (ty, body)" by (cases m)
  obtain a b where ty: "ty = word16 a b" using word16_split by blast
  obtain d e where n: "(of_nat (length body) :: u16) = word16 d e" using word16_split by blast
  have "unat (word16 d e) = length body"
    using assms by (simp add: n [symmetric] m unsigned_of_nat take_bit_nat_eq_self)
  then show "next_frame (frame m @ rest) = Some (fst m, of_nat (length (snd m)), snd m)"
    by (simp add: frame_def m n ty Htons_word16 mem16_word16)
  show "length (frame m) = 4 + length (snd m)" by (simp add: frame_def mem16_def)
qed

lemma frames_frame:
  assumes "length (snd m) < 2 ^ 16"
  shows "frames (frame m @ rest) = (m # fst (frames rest), snd (frames rest))"
proof -
  have "drop (4 + unat (of_nat (length (snd m)) :: u16)) (frame m @ rest) = rest"
    using assms next_frame_frame(2) [OF assms] by (simp add: unsigned_of_nat take_bit_nat_eq_self)
  then show ?thesis
    by (subst frames.simps) (simp add: next_frame_frame(1) [OF assms] split: prod.split)
qed

lemma frames_concat:
  assumes "\<And>m. m \<in> set ms \<Longrightarrow> length (snd m) < 2 ^ 16" and "next_frame rest = None"
  shows "frames (concat (map frame ms) @ rest) = (ms, rest)"
  using assms(1)
proof (induction ms)
  case Nil
  then show ?case using assms(2) by (simp add: frames.simps)
next
  case (Cons m ms)
  then show ?case by (simp add: frames_frame)
qed

text \<open>Frames of a longer sequence.\<close>

lemma next_frame_append: "next_frame c = Some f \<Longrightarrow> next_frame (c @ d) = Some f"
  by (cases c rule: next_frame.cases) (auto simp: Let_def split: if_splits)

lemma frames_step:
  "next_frame c = Some (ty, k, body) \<Longrightarrow>
     frames c = ((ty, body) # fst (frames (drop (4 + unat k) c)), snd (frames (drop (4 + unat k) c)))"
  by (subst frames.simps) (simp split: prod.split)

lemma frames_append:
  "frames (c @ d) = (fst (frames c) @ fst (frames (snd (frames c) @ d)), snd (frames (snd (frames c) @ d)))"
proof (induction c rule: frames.induct)
  case (1 c)
  show ?case
  proof (cases "next_frame c")
    case None
    then show ?thesis by (simp add: frames.simps [of c])
  next
    case (Some f)
    obtain ty k body where f: "f = (ty, k, body)" by (cases f)
    note F = Some [unfolded f]
    have "drop (4 + unat k) (c @ d) = drop (4 + unat k) c @ d" using next_frame_Some [OF F] by auto
    then show ?thesis
      using frames_step [OF F] frames_step [OF next_frame_append [OF F]] "1.IH" [OF Some f [symmetric] refl] by simp
  qed
qed

lemma frames_small: "m \<in> set (fst (frames c)) \<Longrightarrow> length (snd m) < 2 ^ 16"
proof (induction c rule: frames.induct)
  case (1 c)
  show ?case
  proof (cases "next_frame c")
    case None
    then show ?thesis using "1.prems" by (simp add: frames.simps [of c])
  next
    case (Some f)
    obtain t k b where f: "f = (t, k, b)" by (cases f)
    note F = Some [unfolded f]
    have "length b \<le> unat k" using next_frame_Some [OF F] by auto
    also have "unat k < 2 ^ 16" using unsigned_less [of k] by simp
    finally show ?thesis using "1.prems" "1.IH" [OF Some f [symmetric] refl] frames_step [OF F] by auto
  qed
qed

lemma frames_rest [simp]: "frames (snd (frames c)) = ([], snd (frames c))"
proof (induction c rule: frames.induct)
  case (1 c)
  show ?case
  proof (cases "next_frame c")
    case None
    then show ?thesis by (simp add: frames.simps [of c])
  next
    case (Some f)
    obtain t k b where f: "f = (t, k, b)" by (cases f)
    show ?thesis using frames_step [OF Some [unfolded f]] "1.IH" [OF Some f [symmetric] refl] by simp
  qed
qed

text \<open>\<open>PushMessage\<close> on every branch.\<close>

lemma PushMessage_eq:
  "PushMessage pr ty body s =
     (if sizeof_MessageHeader \<le> sizeof_MessageHeaderSize pr
      then Inr (s\<lparr>sendAppQueue := sendAppQueue s @ [frame (ty, body)]\<rparr>) else Inl OutOfBounds)"
proof (cases "sizeof_MessageHeader \<le> sizeof_MessageHeaderSize pr")
  case True
  let ?m = "replicate (sizeof_MessageHeaderSize pr + length body) (0::u8)"
  let ?h = "mem16 (Htons ty) @ mem16 (Htons (of_nat (length body)))"
  have l: "length ?h = 4" by (simp add: mem16_def)
  have "store_bytes ?m 0 ?h = Inr (?h @ drop 4 ?m)"
    using True l by (simp add: store_bytes_def sizeof_MessageHeader_def)
  moreover have "store_bytes (?h @ drop 4 ?m) 4 body =
      Inr (?h @ body @ drop (4 + length body) (?h @ drop 4 ?m))"
    using True l by (simp add: store_bytes_def sizeof_MessageHeader_def)
  ultimately show ?thesis using True l
    by (simp add: PushMessage_def sizeof_MessageHeader_def frame_def)
next
  case False
  then show ?thesis
  proof (cases "length body + sizeof_MessageHeaderSize pr < 4")
    case True
    then show ?thesis using False by (simp add: PushMessage_def store_bytes_def mem16_def)
  next
    case no: False
    then show ?thesis using False
      by (simp add: PushMessage_def store_bytes_def mem16_def sizeof_MessageHeader_def)
  qed
qed

primrec push_all :: "session_protocol \<Rightarrow> (u16 \<times> u8 list) list \<Rightarrow> 't session \<Rightarrow> 't session res" where
  "push_all pr [] s = Inr s"
| "push_all pr (m # ms) s = bindR (PushMessage pr (fst m) (snd m) s) (push_all pr ms)"

lemma push_all_eq:
  "sizeof_MessageHeader \<le> sizeof_MessageHeaderSize pr \<Longrightarrow>
     push_all pr ms s = Inr (s\<lparr>sendAppQueue := sendAppQueue s @ map frame ms\<rparr>)"
  by (induction ms arbitrary: s) (simp_all add: PushMessage_eq)

text \<open>Popping a message that has been peeked.\<close>

lemma pop_ok:
  assumes "app_ok pr s" and "n \<le> length (app_content s)"
  shows "app_ok pr (PopReceivedMessage pr n s)" "app_content (PopReceivedMessage pr n s) = drop n (app_content s)"
proof -
  note K = app_okD [OF assms(1)]
  show "app_ok pr (PopReceivedMessage pr n s)"
    using assms(1) K(2) by (auto simp: app_ok_def PopReceivedMessage_def)
  show "app_content (PopReceivedMessage pr n s) = drop n (app_content s)"
    using ring_content_pop(1) [of "receiveAppBufferHead s" "ReceiveAppBuffer s" "receiveAppBufferTail s" n]
      K assms(2) by (simp add: app_content_def PopReceivedMessage_def)
qed

lemma pop_buffer_ok:
  assumes "length pop = MessageMaxSize pr"
  shows "app_ok pr s \<Longrightarrow> app_ok pr (s\<lparr>ReceiveContiguousPopBuffer := pop\<rparr>)"
    "app_content (s\<lparr>ReceiveContiguousPopBuffer := pop\<rparr>) = app_content s"
  using assms by (auto simp: app_ok_def app_content_def)

lemma drain_messages_spec:
  assumes "app_ok pr s" and "protocol_ok pr"
    and "\<And>m. m \<in> set (fst (frames (app_content s))) \<Longrightarrow> length (snd m) \<le> MessageMaxSize pr"
  shows "\<exists>s'. drain_messages pr s = Some (Inr (fst (frames (app_content s)), s')) \<and> app_ok pr s' \<and>
    app_content s' = snd (frames (app_content s))"
  using assms(1,3)
proof (induction "length (app_content s)" arbitrary: s rule: less_induct)
  case less
  show ?case
  proof (cases "next_frame (app_content s)")
    case None
    then have "PeekReceivedMessage pr s = Inr (None, s)" using peek_spec [OF less.prems(1) assms(2)] by simp
    then show ?thesis using None less.prems(1)
      by (simp add: drain_messages.simps [of pr s] frames.simps [of "app_content s"])
  next
    case (Some f)
    obtain ty n body where f: "f = (ty, n, body)" by (cases f)
    note F = next_frame_Some [OF Some [unfolded f]]
    let ?c = "app_content s" and ?d = "drop (4 + unat n) (app_content s)"
    have fr: "frames ?c = ((ty, body) # fst (frames ?d), snd (frames ?d))"
      by (subst frames.simps) (simp add: Some f split: prod.split)
    have "length body = unat n" using F by auto
    then have "unat n \<le> MessageMaxSize pr" using less.prems(2) [of "(ty, body)"] fr by simp
    then obtain pop where p: "length pop = MessageMaxSize pr"
      "PeekReceivedMessage pr s = Inr (Some (ty, n, body), s\<lparr>ReceiveContiguousPopBuffer := pop\<rparr>)"
      using peek_spec [OF less.prems(1) assms(2)] Some f by auto
    define s1 where "s1 = PopReceivedMessage pr (4 + unat n) (s\<lparr>ReceiveContiguousPopBuffer := pop\<rparr>)"
    have s1: "app_ok pr s1" "app_content s1 = ?d"
      using pop_ok [of pr "s\<lparr>ReceiveContiguousPopBuffer := pop\<rparr>" "4 + unat n"]
        pop_buffer_ok(1) [OF p(1) less.prems(1)] F by (simp_all add: s1_def pop_buffer_ok(2) [OF p(1)])
    have "length (app_content s1) < length ?c" using s1(2) F by auto
    moreover have "length (snd m) \<le> MessageMaxSize pr" if "m \<in> set (fst (frames (app_content s1)))" for m
      using less.prems(2) [of m] that s1(2) fr by simp
    ultimately obtain s' where "drain_messages pr s1 = Some (Inr (fst (frames ?d), s'))" "app_ok pr s'"
      "app_content s' = snd (frames ?d)" using less.hyps [of s1] s1 by auto
    moreover have "MessageHeaderSize pr = 4" using assms(2) by (simp add: protocol_ok_def sizeof_MessageHeader_def)
    ultimately show ?thesis using p(2) fr
      by (simp add: drain_messages.simps [of pr s] s1_def)
  qed
qed

lemma next_frame_truncated:
  "next_frame (frame (ty, body)) =
     Some (ty, of_nat (length body), take (length body mod 2 ^ 16) body)"
proof -
  obtain a b where ty: "ty = word16 a b" using word16_split by blast
  obtain d e where n: "(of_nat (length body) :: u16) = word16 d e" using word16_split by blast
  have "unat (word16 d e) = length body mod 2 ^ 16"
    by (simp add: n [symmetric] unsigned_of_nat take_bit_eq_mod)
  moreover have "length body mod 2 ^ 16 \<le> length body" by (rule mod_less_eq_dividend)
  ultimately show ?thesis by (simp add: frame_def ty n Htons_word16 mem16_word16 Let_def)
qed

section \<open>Properties\<close>

text \<open>
  C3.  Framing round trip.  The messages pushed on one session (each body below 64 KiB and not larger
  than \<open>MessageMaxSize\<close>), followed by an incomplete frame, are read back from the application buffer
  of another, at any position and wrapped or not: the receive loop yields exactly these messages in
  this order, returns, and leaves the incomplete frame for later.
\<close>

theorem framing_roundtrip:
  assumes "protocol_ok pr" and "sizeof_MessageHeader \<le> sizeof_MessageHeaderSize pr"
    and "\<And>m. m \<in> set ms \<Longrightarrow> length (snd m) < 2 ^ 16 \<and> length (snd m) \<le> MessageMaxSize pr"
    and "next_frame rest = None" and "sendAppQueue s = []" and "app_ok pr r"
    and "push_all pr ms s = Inr s'" and "app_content r = concat (sendAppQueue s') @ rest"
  shows "\<exists>r'. drain_messages pr r = Some (Inr (ms, r')) \<and> app_ok pr r' \<and> app_content r' = rest"
proof -
  have "s' = s\<lparr>sendAppQueue := map frame ms\<rparr>"
    using assms(5,7) by (simp add: push_all_eq [OF assms(2)])
  then have "app_content r = concat (map frame ms) @ rest" using assms(8) by simp
  then have f: "frames (app_content r) = (ms, rest)" using frames_concat assms(3,4) by simp
  then show ?thesis using drain_messages_spec [OF assms(6,1)] assms(3) by simp
qed

definition demo_protocol :: session_protocol where
  "demo_protocol = \<lparr>MessageMaxSize = 4, MessageHeaderSize = 4, sizeof_MessageHeaderSize = 8\<rparr>"

definition demo_receiver :: "unit session" where
  "demo_receiver = (new_session demo_protocol () 7 ''Auth'')
     \<lparr>ReceiveAppBuffer := [5, 6, 0, 9, 0, 0, 1, 0, 0, 0, 0, 2, 0, 3, 0, 2], receiveAppBufferHead := 12,
      receiveAppBufferTail := 7\<rparr>"

lemma demo_facts:
  "protocol_ok demo_protocol" "app_ok demo_protocol demo_receiver"
  "sizeof_MessageHeader \<le> sizeof_MessageHeaderSize demo_protocol"
  "app_content demo_receiver = concat (map frame [(3, [5, 6]), (9, [])]) @ [1]"
  "MessageMaxSize demo_protocol = 4"
  by (simp_all add: protocol_ok_def demo_protocol_def sizeof_MessageHeader_def app_ok_def demo_receiver_def
      BufferCapacity_def new_session_def app_content_def ring_content_def ring_size_def ring_bytes_def
      upt_rec frame_def mem16_def Htons_def)

theorem framing_roundtrip_witness:
  "\<exists>r'. drain_messages demo_protocol demo_receiver = Some (Inr ([(3, [5, 6]), (9, [])], r')) \<and>
     app_content r' = [1]"
proof -
  let ?ms = "[(3 :: u16, [5, 6 :: u8]), (9, [])]"
  have "length (snd m) < 2 ^ 16 \<and> length (snd m) \<le> MessageMaxSize demo_protocol" if "m \<in> set ?ms" for m
    using that demo_facts(5) by auto
  from framing_roundtrip [OF demo_facts(1,3) this _ _ demo_facts(2) push_all_eq [OF demo_facts(3)],
      where s = "new_session demo_protocol () 7 ''Auth''" and rest = "[1]" and ms = ?ms]
  show ?thesis using demo_facts(4) by (auto simp: new_session_def)
qed

text \<open>
  C39.  \<open>PeekReceivedMessage\<close> on every branch: nothing without a complete frame, else the first frame
  with its type and body, also across the end of the buffer.  A body that wraps around and is larger
  than \<open>MessageMaxSize\<close> is copied past the end of the contiguous buffer: the size in the header of
  the peer is never compared with the limit.
\<close>

theorem peek_received_message:
  assumes "app_ok pr s" and "protocol_ok pr"
  shows "case next_frame (app_content s) of
      None \<Rightarrow> PeekReceivedMessage pr s = Inr (None, s)
    | Some (ty, n, body) \<Rightarrow>
        if body_contiguous pr s (unat n) \<or> unat n \<le> MessageMaxSize pr
        then \<exists>pop. length pop = MessageMaxSize pr \<and>
          PeekReceivedMessage pr s = Inr (Some (ty, n, body), s\<lparr>ReceiveContiguousPopBuffer := pop\<rparr>)
        else PeekReceivedMessage pr s = Inl OutOfBounds"
  using assms by (rule peek_spec)

definition oversized_receiver :: "unit session" where
  "oversized_receiver = (new_session demo_protocol () 7 ''Auth'')
     \<lparr>ReceiveAppBuffer := [5, 6, 0, 9, 0, 0, 1, 0, 0, 3, 0, 5, 1, 2, 3, 4], receiveAppBufferHead := 8,
      receiveAppBufferTail := 3\<rparr>"

lemma oversized_facts:
  "app_ok demo_protocol oversized_receiver"
  "next_frame (app_content oversized_receiver) = Some (3, 5, [1, 2, 3, 4, 5])"
  "\<not> body_contiguous demo_protocol oversized_receiver 5"
  by (simp_all add: demo_protocol_def sizeof_MessageHeader_def app_ok_def oversized_receiver_def
      BufferCapacity_def new_session_def app_content_def ring_content_def ring_size_def ring_bytes_def
      upt_rec word16_def body_contiguous_def)

theorem peek_received_message_witness:
  "PeekReceivedMessage demo_protocol oversized_receiver = Inl OutOfBounds \<and>
   (\<exists>r'. PeekReceivedMessage demo_protocol demo_receiver = Inr (Some (3, 2, [5, 6]), r'))"
proof
  show "PeekReceivedMessage demo_protocol oversized_receiver = Inl OutOfBounds"
    using peek_received_message [OF oversized_facts(1) demo_facts(1)] oversized_facts(2,3) demo_facts(5) by simp
  have "next_frame (app_content demo_receiver) = Some (3, 2, [5, 6])"
    using next_frame_frame(1) [of "(3, [5, 6])" "frame (9, []) @ [1]"] demo_facts(4) by simp
  then show "\<exists>r'. PeekReceivedMessage demo_protocol demo_receiver = Inr (Some (3, 2, [5, 6]), r')"
    using peek_received_message [OF demo_facts(2,1)] demo_facts(5) by (auto split: if_splits)
qed

text \<open>
  \<open>PushMessage\<close> allocates \<open>sizeof(MessageHeaderSize)\<close> bytes for the header: the size of the type
  of that constant, not its value.  With a type of fewer than four bytes every push writes past the
  allocation; otherwise it queues the frame.  The body size goes into 16 bits, so that of a body of
  64 KiB or more the peer reads only the length modulo 64 KiB and takes the rest for new frames.
\<close>

theorem push_message:
  "PushMessage pr ty body s =
     (if sizeof_MessageHeader \<le> sizeof_MessageHeaderSize pr
      then Inr (s\<lparr>sendAppQueue := sendAppQueue s @ [frame (ty, body)]\<rparr>) else Inl OutOfBounds) \<and>
   next_frame (frame (ty, body)) = Some (ty, of_nat (length body), take (length body mod 2 ^ 16) body)"
  by (simp add: PushMessage_eq next_frame_truncated)

end
