(* ===== verification/Session_Tls.thy ===== *)
theory Session_Tls
  imports Session_Data
begin

text \<open>
  \<open>TryProcessReceiveBuffers\<close> and \<open>TryProcessSendBuffers\<close> of Session.cpp: bytes move between the ring
  buffers of a session and its TLS engine.  OpenSSL is a parameter: the functions of a \<open>tls\<close> record,
  with the laws of \<open>tls_laws\<close> as hypotheses.
\<close>

section \<open>The TLS engine\<close>

text \<open>
  What \<open>Session\<close> calls.  \<open>BIO_write\<close> writes into the read BIO and returns its result; \<open>SSL_read\<close>
  gives bytes or the error of \<open>SSL_get_error\<close>; \<open>SSL_write\<close> the error, if any; \<open>BIO_read\<close> takes bytes
  of the write BIO, none if it fails.
\<close>

datatype ssl_error =
  SSL_ERROR_ZERO_RETURN | SSL_ERROR_WANT_READ | SSL_ERROR_WANT_WRITE | SSL_ERROR_OTHER

record 't tls =
  BIO_write :: "u8 list \<Rightarrow> 't \<Rightarrow> int \<times> 't"
  SSL_read :: "nat \<Rightarrow> 't \<Rightarrow> (ssl_error + u8 list) \<times> 't"
  SSL_write :: "u8 list \<Rightarrow> 't \<Rightarrow> ssl_error option \<times> 't"
  BIO_pending :: "'t \<Rightarrow> nat"
  BIO_read :: "nat \<Rightarrow> 't \<Rightarrow> u8 list \<times> 't"

definition use_ssl :: "'t option \<Rightarrow> 't res" where
  "use_ssl x = (case x of None \<Rightarrow> Inl UseAfterFree | Some y \<Rightarrow> Inr y)"

lemma use_ssl_simps [simp]: "use_ssl None = Inl UseAfterFree" "use_ssl (Some y) = Inr y"
  by (simp_all add: use_ssl_def)

datatype ReceiveBuffersProcessResult = ReceiveSuccess | WantProcessSendBuffers | ReceiveFailed

datatype SendBuffersProcessResult = SendSuccess | WantProcessReceiveBuffers | SendFailed

section \<open>Receiving\<close>

text \<open>The receive TLS buffer is written into the read BIO, in one or two pieces.\<close>

definition bio_write_at :: "'t tls \<Rightarrow> buffer \<Rightarrow> nat \<Rightarrow> nat \<Rightarrow> 't option \<Rightarrow> 't option res" where
  "bio_write_at T buf pos n x =
     bindR (load_bytes buf pos n) (\<lambda>bs. bindR (use_ssl x) (\<lambda>y.
       case BIO_write T bs y of (r, y') \<Rightarrow> bindR (crash_cond (int n \<noteq> r)) (\<lambda>u. Inr (Some y'))))"

partial_function (option) feed_bio ::
    "'t tls \<Rightarrow> nat \<Rightarrow> buffer \<Rightarrow> nat \<Rightarrow> nat \<Rightarrow> nat \<Rightarrow> 't option \<Rightarrow> (nat \<times> 't option) res option" where
  "feed_bio T cap buf loadedHead loadedTail totalDecrypted x =
     (let adjustedHead = (loadedHead + totalDecrypted) mod cap;
          decryptableSize = (if adjustedHead \<le> loadedTail then loadedTail - adjustedHead else cap - adjustedHead)
      in if decryptableSize = 0 then Some (Inr (totalDecrypted, x))
         else bindO (Some (bio_write_at T buf adjustedHead decryptableSize x)) (\<lambda>x'.
                feed_bio T cap buf loadedHead loadedTail (totalDecrypted + decryptableSize) x'))"

text \<open>\<open>SSL_read\<close> into the application buffer until it has no more bytes or the buffer is full.\<close>

definition ssl_read_at ::
    "'t tls \<Rightarrow> buffer \<Rightarrow> nat \<Rightarrow> nat \<Rightarrow> 't option \<Rightarrow> ((ssl_error + nat) \<times> buffer \<times> 't option) res" where
  "ssl_read_at T buf pos n x = bindR (use_ssl x) (\<lambda>y.
     case SSL_read T n y of
       (Inl e, y') \<Rightarrow> Inr (Inl e, buf, Some y')
     | (Inr bs, y') \<Rightarrow> bindR (store_bytes buf pos bs) (\<lambda>buf'. Inr (Inr (length bs), buf', Some y')))"

fun receive_result :: "ssl_error \<Rightarrow> ReceiveBuffersProcessResult" where
  "receive_result SSL_ERROR_WANT_WRITE = WantProcessSendBuffers"
| "receive_result SSL_ERROR_OTHER = ReceiveFailed"
| "receive_result _ = ReceiveSuccess"

partial_function (option) read_app ::
    "'t tls \<Rightarrow> nat \<Rightarrow> nat \<Rightarrow> nat \<Rightarrow> nat \<Rightarrow> buffer \<Rightarrow> 't option \<Rightarrow>
     (ReceiveBuffersProcessResult \<times> nat \<times> buffer \<times> 't option) res option" where
  "read_app T cap available loadedTail totalEnqueued buf x =
     (let adjustedTail = (loadedTail + totalEnqueued) mod cap;
          adjustedAvailable = available - totalEnqueued
      in if adjustedAvailable = 0 then Some (Inr (ReceiveFailed, totalEnqueued, buf, x))
         else bindO (Some (ssl_read_at T buf adjustedTail (min adjustedAvailable (cap - adjustedTail)) x)) (\<lambda>p.
                case fst p of
                  Inl e \<Rightarrow> Some (Inr (receive_result e, totalEnqueued, snd p))
                | Inr result \<Rightarrow> read_app T cap available loadedTail (totalEnqueued + result) (fst (snd p)) (snd (snd p))))"

definition TryProcessReceiveBuffers ::
    "'t tls \<Rightarrow> session_protocol \<Rightarrow> 't session \<Rightarrow> (ReceiveBuffersProcessResult \<times> 't session) res option" where
  "TryProcessReceiveBuffers T pr s =
     (let cap = BufferCapacity pr in
      bindO (feed_bio T cap (ReceiveTlsBuffer s) (receiveTlsBufferHead s) (receiveTlsBufferTail s) 0 (Ssl s)) (\<lambda>p.
      let s1 = s\<lparr>Ssl := snd p, receiveTlsBufferHead :=
            if 0 < fst p then (receiveTlsBufferHead s + fst p) mod cap else receiveTlsBufferHead s\<rparr>;
          loadedTail = receiveAppBufferTail s1; loadedHead = receiveAppBufferHead s1;
          sz = (if loadedHead \<le> loadedTail then loadedTail - loadedHead else cap - loadedHead + loadedTail)
      in bindO (read_app T cap (cap - sz - 1) loadedTail 0 (ReceiveAppBuffer s1) (Ssl s1)) (\<lambda>(r, totalEnqueued, buf, x).
           let s2 = s1\<lparr>ReceiveAppBuffer := buf, Ssl := x\<rparr>
           in Some (Inr (r, if r \<noteq> ReceiveFailed \<and> 0 < totalEnqueued
                then s2\<lparr>receiveAppBufferTail := (loadedTail + totalEnqueued) mod cap\<rparr> else s2)))))"

section \<open>Sending\<close>

text \<open>
  The queued messages go to \<open>SSL_write\<close> one by one.  A message has left the queue when it is
  written; it is not put back when the engine wants to read first.
\<close>

fun write_queue ::
    "'t tls \<Rightarrow> u8 list list \<Rightarrow> 't option \<Rightarrow> (SendBuffersProcessResult \<times> u8 list list \<times> 't option) res" where
  "write_queue T [] x = Inr (SendSuccess, [], x)"
| "write_queue T (message # ms) x = bindR (use_ssl x) (\<lambda>y.
     case SSL_write T message y of
       (None, y') \<Rightarrow> write_queue T ms (Some y')
     | (Some sslError, y') \<Rightarrow>
         Inr (if sslError = SSL_ERROR_WANT_READ then WantProcessReceiveBuffers else SendFailed, ms, Some y'))"

definition bio_read_at :: "'t tls \<Rightarrow> buffer \<Rightarrow> nat \<Rightarrow> nat \<Rightarrow> 't \<Rightarrow> (nat \<times> buffer \<times> 't option) res" where
  "bio_read_at T buf pos n y =
     (case BIO_read T n y of (bs, y') \<Rightarrow>
        bindR (store_bytes buf pos bs) (\<lambda>buf'. Inr (length bs, buf', Some y')))"

text \<open>The write BIO is read into the send TLS buffer; \<open>False\<close> if it does not fit or the read fails.\<close>

partial_function (option) flush_bio ::
    "'t tls \<Rightarrow> nat \<Rightarrow> nat \<Rightarrow> nat \<Rightarrow> nat \<Rightarrow> buffer \<Rightarrow> 't option \<Rightarrow> (bool \<times> nat \<times> buffer \<times> 't option) res option" where
  "flush_bio T cap loadedHead loadedTail totalEnqueued buf x =
     bindO (Some (use_ssl x)) (\<lambda>y.
       if BIO_pending T y = 0 then Some (Inr (True, totalEnqueued, buf, x))
       else
         let adjustedTail = (loadedTail + totalEnqueued) mod cap;
             sz = (if loadedHead \<le> adjustedTail then adjustedTail - loadedHead
                   else cap - loadedHead + adjustedTail);
             enqueuableSize = min (cap - sz - 1) (cap - adjustedTail)
         in if enqueuableSize = 0 then Some (Inr (False, totalEnqueued, buf, x))
            else bindO (Some (bio_read_at T buf adjustedTail enqueuableSize y)) (\<lambda>p.
                   if fst p = 0 then Some (Inr (False, totalEnqueued, snd p))
                   else flush_bio T cap loadedHead loadedTail (totalEnqueued + fst p) (fst (snd p)) (snd (snd p))))"

definition TryProcessSendBuffers ::
    "'t tls \<Rightarrow> session_protocol \<Rightarrow> 't session \<Rightarrow> (SendBuffersProcessResult \<times> 't session) res option" where
  "TryProcessSendBuffers T pr s =
     bindO (Some (write_queue T (sendAppQueue s) (Ssl s))) (\<lambda>(r, queue, x).
     let s1 = s\<lparr>sendAppQueue := queue, Ssl := x\<rparr>; cap = BufferCapacity pr
     in if r = SendFailed then Some (Inr (SendFailed, s1))
        else bindO (flush_bio T cap (sendTlsBufferHead s1) (sendTlsBufferTail s1) 0 (SendTlsBuffer s1) (Ssl s1))
               (\<lambda>(ok, totalEnqueued, buf, x).
               let s2 = s1\<lparr>SendTlsBuffer := buf, Ssl := x\<rparr>
               in if \<not> ok then Some (Inr (SendFailed, s2))
                  else Some (Inr (r, if 0 < totalEnqueued
                         then s2\<lparr>sendTlsBufferTail := (sendTlsBufferTail s1 + totalEnqueued) mod cap\<rparr> else s2))))"

section \<open>Laws of the engine\<close>

text \<open>
  What can be observed of an engine: the bytes written into its read BIO, the plaintext it has
  delivered, the messages it has accepted, and the bytes waiting in its write BIO.
\<close>

record 't tls_view =
  fed :: "'t \<Rightarrow> u8 list"
  delivered :: "'t \<Rightarrow> u8 list"
  accepted :: "'t \<Rightarrow> u8 list list"
  pending :: "'t \<Rightarrow> u8 list"

text \<open>
  Documented behaviour: a memory BIO takes every byte and gives them back in order; \<open>SSL_read\<close>
  returns at least one and at most the requested number of bytes or an error; the calls do not
  disturb what the others observe, except that reading and writing may add to the write BIO.
\<close>

definition tls_laws :: "'t tls \<Rightarrow> 't tls_view \<Rightarrow> bool" where
  "tls_laws T V \<longleftrightarrow>
     (\<forall>bs y. fst (BIO_write T bs y) = int (length bs) \<and>
        fed V (snd (BIO_write T bs y)) = fed V y @ bs \<and>
        delivered V (snd (BIO_write T bs y)) = delivered V y) \<and>
     (\<forall>n y. 0 < n \<longrightarrow> fed V (snd (SSL_read T n y)) = fed V y \<and>
        (case fst (SSL_read T n y) of
           Inl e \<Rightarrow> delivered V (snd (SSL_read T n y)) = delivered V y
         | Inr bs \<Rightarrow> bs \<noteq> [] \<and> length bs \<le> n \<and> delivered V (snd (SSL_read T n y)) = delivered V y @ bs)) \<and>
     (\<forall>m y. accepted V (snd (SSL_write T m y)) =
        (if fst (SSL_write T m y) = None then accepted V y @ [m] else accepted V y)) \<and>
     (\<forall>y. BIO_pending T y = length (pending V y)) \<and>
     (\<forall>n y. 0 < n \<longrightarrow> fst (BIO_read T n y) = take n (pending V y) \<and>
        pending V (snd (BIO_read T n y)) = drop n (pending V y) \<and>
        accepted V (snd (BIO_read T n y)) = accepted V y)"

lemma tls_lawsD:
  assumes "tls_laws T V"
  shows "BIO_write T bs y = (r, y') \<Longrightarrow> r = int (length bs) \<and> fed V y' = fed V y @ bs \<and> delivered V y' = delivered V y"
    and "0 < n \<Longrightarrow> SSL_read T n y = (Inl e, y') \<Longrightarrow> fed V y' = fed V y \<and> delivered V y' = delivered V y"
    and "0 < n \<Longrightarrow> SSL_read T n y = (Inr bs, y') \<Longrightarrow>
      bs \<noteq> [] \<and> length bs \<le> n \<and> fed V y' = fed V y \<and> delivered V y' = delivered V y @ bs"
    and "SSL_write T m y = (None, y') \<Longrightarrow> accepted V y' = accepted V y @ [m]"
    and "SSL_write T m y = (Some e, y') \<Longrightarrow> accepted V y' = accepted V y"
    and "BIO_pending T y = length (pending V y)"
    and "0 < n \<Longrightarrow> BIO_read T n y = (bs, y') \<Longrightarrow>
      bs = take n (pending V y) \<and> pending V y' = drop n (pending V y) \<and> accepted V y' = accepted V y"
proof -
  note L = assms [unfolded tls_laws_def]
  show "BIO_write T bs y = (r, y') \<Longrightarrow> r = int (length bs) \<and> fed V y' = fed V y @ bs \<and> delivered V y' = delivered V y"
    using L by (metis fst_conv snd_conv)
  show "0 < n \<Longrightarrow> SSL_read T n y = (Inl e, y') \<Longrightarrow> fed V y' = fed V y \<and> delivered V y' = delivered V y"
    using conjunct1 [OF conjunct2 [OF L], rule_format, of n y] by simp
  show "0 < n \<Longrightarrow> SSL_read T n y = (Inr bs, y') \<Longrightarrow>
      bs \<noteq> [] \<and> length bs \<le> n \<and> fed V y' = fed V y \<and> delivered V y' = delivered V y @ bs"
    using conjunct1 [OF conjunct2 [OF L], rule_format, of n y] by simp
  show "SSL_write T m y = (None, y') \<Longrightarrow> accepted V y' = accepted V y @ [m]"
    "SSL_write T m y = (Some e, y') \<Longrightarrow> accepted V y' = accepted V y"
    "BIO_pending T y = length (pending V y)" using L by (metis fst_conv snd_conv option.distinct(1))+
  show "0 < n \<Longrightarrow> BIO_read T n y = (bs, y') \<Longrightarrow>
      bs = take n (pending V y) \<and> pending V y' = drop n (pending V y) \<and> accepted V y' = accepted V y"
    using L by (metis fst_conv snd_conv)
qed

section \<open>The loops\<close>

text \<open>The bytes of the two TLS buffers, and the invariant of a session.\<close>

definition tls_in :: "'t session \<Rightarrow> u8 list" where
  "tls_in s = ring_content (ReceiveTlsBuffer s) (receiveTlsBufferHead s) (receiveTlsBufferTail s)"

definition tls_out :: "'t session \<Rightarrow> u8 list" where
  "tls_out s = ring_content (SendTlsBuffer s) (sendTlsBufferHead s) (sendTlsBufferTail s)"

definition session_ok :: "session_protocol \<Rightarrow> 't session \<Rightarrow> bool" where
  "session_ok pr s \<longleftrightarrow> app_ok pr s \<and>
     length (ReceiveTlsBuffer s) = BufferCapacity pr \<and> receiveTlsBufferHead s < BufferCapacity pr \<and>
     receiveTlsBufferTail s < BufferCapacity pr \<and>
     length (SendTlsBuffer s) = BufferCapacity pr \<and> sendTlsBufferHead s < BufferCapacity pr \<and>
     sendTlsBufferTail s < BufferCapacity pr"

lemma session_ok_new:
  "protocol_ok pr \<Longrightarrow> session_ok pr (new_session pr y c a) \<and> tls_in (new_session pr y c a) = [] \<and>
     tls_out (new_session pr y c a) = [] \<and> app_content (new_session pr y c a) = []"
  by (simp add: session_ok_def app_ok_def new_session_def protocol_ok_def sizeof_MessageHeader_def
      BufferCapacity_def tls_in_def tls_out_def app_content_def ring_content_def ring_size_def ring_bytes_def)

lemma feed_bio_spec:
  assumes T: "tls_laws T V" and buf: "length buf = cap" and h: "h < cap" and t: "t < cap"
    and k: "k \<le> ring_size cap h t"
  shows "\<exists>y'. feed_bio T cap buf h t k (Some y) = Some (Inr (ring_size cap h t, Some y')) \<and>
    fed V y' = fed V y @ drop k (ring_content buf h t) \<and> delivered V y' = delivered V y"
  using k
proof (induction "ring_size cap h t - k" arbitrary: k y rule: less_induct)
  case less
  define g m where "g = (h + k) mod cap" and "m = ring_size cap h t - k"
  have g: "g < cap" using h by (simp add: g_def)
  have m: "ring_size cap g t = m" "ring_content buf g t = drop k (ring_content buf h t)"
    using ring_content_pop [of h buf t k] buf h t less.prems by (simp_all add: g_def m_def)
  define n where "n = (if g \<le> t then t - g else cap - g)"
  have n: "n \<le> m" "g + n \<le> cap" "n = 0 \<longleftrightarrow> m = 0" "ring_size cap g t = m"
    using m(1) g t by (auto simp: n_def ring_size_def split: if_splits)
  show ?case
  proof (cases "n = 0")
    case True
    then have "feed_bio T cap buf h t k (Some y) = Some (Inr (k, Some y))"
      by (simp add: feed_bio.simps [of T cap buf h t k] Let_def g_def [symmetric] n_def [symmetric])
    then show ?thesis using True n less.prems m(2) buf by (auto simp: m_def)
  next
    case False
    obtain r y1 where w: "BIO_write T (ring_bytes buf g n) y = (r, y1)" by (cases "BIO_write T (ring_bytes buf g n) y")
    note W = tls_lawsD(1) [OF T w]
    have "bio_write_at T buf g n (Some y) = Inr (Some y1)"
      using load_contiguous [of g n buf] n(2) buf w W by (simp add: bio_write_at_def)
    then have step: "feed_bio T cap buf h t k (Some y) = feed_bio T cap buf h t (k + n) (Some y1)"
      using False by (subst feed_bio.simps) (simp add: Let_def g_def [symmetric] n_def [symmetric])
    have k': "k + n \<le> ring_size cap h t" "ring_size cap h t - (k + n) < ring_size cap h t - k"
      using n(1) False less.prems by (simp_all add: m_def)
    obtain y' where y': "feed_bio T cap buf h t (k + n) (Some y1) = Some (Inr (ring_size cap h t, Some y'))"
      "fed V y' = fed V y1 @ drop (k + n) (ring_content buf h t)" "delivered V y' = delivered V y1"
      using less.hyps [OF k'(2,1), of y1] by blast
    have "drop k (ring_content buf h t) = ring_bytes buf g n @ drop (k + n) (ring_content buf h t)"
    proof -
      have "take n (ring_content buf g t) = ring_bytes buf g n"
        using n(1) m(1) buf by (simp add: ring_content_def ring_bytes_take)
      then have "take n (drop k (ring_content buf h t)) = ring_bytes buf g n" using m(2) by simp
      then show ?thesis using append_take_drop_id [of n "drop k (ring_content buf h t)"] by (simp add: add.commute)
    qed
    then show ?thesis using step y' W by auto
  qed
qed

lemma ring_store_short: "t + length xs \<le> length buf \<Longrightarrow> ring_store buf t xs = store_bytes buf t xs"
  by (cases "store_bytes buf t xs") (auto simp: ring_store_def Let_def store_bytes_def min_def)

text \<open>Storing behind bytes that are already behind the tail.\<close>

lemma store_behind:
  assumes "length buf = cap" and "h < cap" and "tail < cap" and "g = (tail + k) mod cap"
    and "ring_size cap h tail + k + length xs < cap" and "g + length xs \<le> cap"
    and "ring_content buf h g = C @ P" and "ring_content buf h tail = C" and "length C = ring_size cap h tail"
    and "length P = k"
  obtains buf' where "store_bytes buf g xs = Inr buf'" "length buf' = cap"
    "ring_content buf' h ((tail + (k + length xs)) mod cap) = C @ P @ xs" "ring_content buf' h tail = C"
proof -
  have g: "g < cap" using assms(2,4) by simp
  have rs: "ring_size cap h g = ring_size cap h tail + k"
    using arg_cong [OF assms(7), of length] assms(1,9,10) by simp
  obtain buf' where b: "ring_store buf g xs = Inr buf'" "length buf' = cap"
    "ring_content buf' h g = ring_content buf h g"
    "ring_content buf' h ((g + length xs) mod cap) = ring_content buf h g @ xs"
    using ring_store_content [of h buf g xs] assms(1,2,5) g rs by auto
  have "(g + length xs) mod cap = (tail + (k + length xs)) mod cap"
    using assms(4) by (simp add: mod_add_left_eq add.assoc)
  moreover have "store_bytes buf g xs = Inr buf'"
    using b(1) ring_store_short [of g xs buf] assms(1,6) by simp
  moreover have "ring_content buf' h tail = C"
  proof -
    have "ring_content buf' h tail = take (ring_size cap h tail) (ring_content buf' h g)"
      using b(2) rs by (simp add: ring_content_def ring_bytes_take)
    then show ?thesis using b(3) assms(7,9) by simp
  qed
  ultimately show thesis using that b(2,4) assms(7) by simp
qed

text \<open>Some call of \<open>SSL_read\<close> wants to write; memory BIOs never give rise to it.\<close>

definition wants_write :: "'t tls \<Rightarrow> bool" where
  "wants_write T \<longleftrightarrow> (\<exists>n y. fst (SSL_read T n y) = Inl SSL_ERROR_WANT_WRITE)"

lemma read_app_spec:
  assumes T: "tls_laws T V" and h: "h < cap" and tail: "tail < cap"
    and av: "ring_size cap h tail + available + 1 = cap" and C: "length C = ring_size cap h tail"
  shows "length buf = cap \<Longrightarrow> k \<le> available \<Longrightarrow> ring_content buf h ((tail + k) mod cap) = C @ P \<Longrightarrow>
    ring_content buf h tail = C \<Longrightarrow> length P = k \<Longrightarrow>
    \<exists>r k' buf' y' Q. read_app T cap available tail k buf (Some y) = Some (Inr (r, k', buf', Some y')) \<and>
      length buf' = cap \<and> k' \<le> available \<and> k' = length (P @ Q) \<and>
      ring_content buf' h ((tail + k') mod cap) = C @ P @ Q \<and> ring_content buf' h tail = C \<and>
      fed V y' = fed V y \<and> delivered V y' = delivered V y @ Q \<and> (k' = available \<longrightarrow> r = ReceiveFailed) \<and>
      (r = WantProcessSendBuffers \<longrightarrow> wants_write T)"
proof (induction "available - k" arbitrary: k buf y P rule: less_induct)
  case less
  show ?case
  proof (cases "available - k = 0")
    case True
    then have "read_app T cap available tail k buf (Some y) = Some (Inr (ReceiveFailed, k, buf, Some y))"
      by (subst read_app.simps) (simp add: Let_def)
    then show ?thesis using less.prems by auto
  next
    case False
    define g n where "g = (tail + k) mod cap" and "n = min (available - k) (cap - g)"
    have g: "g < cap" using tail by (simp add: g_def)
    have n: "0 < n" using g False by (simp add: n_def)
    have U: "read_app T cap available tail k buf (Some y) =
        bindO (Some (ssl_read_at T buf g n (Some y))) (\<lambda>p.
          case fst p of Inl e \<Rightarrow> Some (Inr (receive_result e, k, snd p))
          | Inr result \<Rightarrow> read_app T cap available tail (k + result) (fst (snd p)) (snd (snd p)))"
      using False by (subst read_app.simps) (simp add: Let_def g_def [symmetric] n_def [symmetric])
    obtain o1 y1 where rd: "SSL_read T n y = (o1, y1)" by (cases "SSL_read T n y")
    show ?thesis
    proof (cases o1)
      case (Inl e)
      note W = tls_lawsD(2) [OF T n rd [unfolded Inl]]
      have "read_app T cap available tail k buf (Some y) = Some (Inr (receive_result e, k, buf, Some y1))"
        using U rd Inl by (simp add: ssl_read_at_def)
      moreover have "receive_result e = WantProcessSendBuffers \<longrightarrow> wants_write T"
        using rd Inl unfolding wants_write_def by (cases e) (auto intro!: exI [of _ n] exI [of _ y])
      ultimately show ?thesis using less.prems W False by auto
    next
      case (Inr bs)
      note W = tls_lawsD(3) [OF T n rd [unfolded Inr]]
      have fit: "ring_size cap h tail + k + length bs < cap" "g + length bs \<le> cap" "k + length bs \<le> available"
        using W av less.prems(2) g by (auto simp: n_def)
      obtain buf1 where b: "store_bytes buf g bs = Inr buf1" "length buf1 = cap"
        "ring_content buf1 h ((tail + (k + length bs)) mod cap) = C @ P @ bs" "ring_content buf1 h tail = C"
        by (rule store_behind [OF less.prems(1) h tail g_def fit(1,2) _ less.prems(4) C less.prems(5)])
          (use less.prems(3) in \<open>simp add: g_def\<close>)
      have "read_app T cap available tail k buf (Some y) =
          read_app T cap available tail (k + length bs) buf1 (Some y1)"
        using U rd Inr b(1) by (simp add: ssl_read_at_def)
      moreover have lt: "available - (k + length bs) < available - k" using W False fit(3) by (cases bs) auto
      have "\<exists>r k' buf' y' Q. read_app T cap available tail (k + length bs) buf1 (Some y1) =
            Some (Inr (r, k', buf', Some y')) \<and>
          length buf' = cap \<and> k' \<le> available \<and> k' = length ((P @ bs) @ Q) \<and>
          ring_content buf' h ((tail + k') mod cap) = C @ (P @ bs) @ Q \<and> ring_content buf' h tail = C \<and>
          fed V y' = fed V y1 \<and> delivered V y' = delivered V y1 @ Q \<and> (k' = available \<longrightarrow> r = ReceiveFailed) \<and>
      (r = WantProcessSendBuffers \<longrightarrow> wants_write T)"
        by (rule less.hyps [OF lt b(2) fit(3) _ b(4)]) (use b(3) less.prems(5) in simp_all)
      then obtain r k' buf' y' Q where "read_app T cap available tail (k + length bs) buf1 (Some y1) =
            Some (Inr (r, k', buf', Some y'))"
        "length buf' = cap" "k' \<le> available" "k' = length ((P @ bs) @ Q)"
        "ring_content buf' h ((tail + k') mod cap) = C @ (P @ bs) @ Q" "ring_content buf' h tail = C"
        "fed V y' = fed V y1" "delivered V y' = delivered V y1 @ Q" "k' = available \<longrightarrow> r = ReceiveFailed"
        "r = WantProcessSendBuffers \<longrightarrow> wants_write T"
        by blast
      ultimately show ?thesis using W
        by (intro exI [of _ r] exI [of _ k'] exI [of _ buf'] exI [of _ y'] exI [of _ "bs @ Q"]) simp
    qed
  qed
qed


lemma receive_spec:
  assumes T: "tls_laws T V" and ok: "session_ok pr s" and y: "Ssl s = Some y"
  obtains r s' y' Q where "TryProcessReceiveBuffers T pr s = Some (Inr (r, s'))" "Ssl s' = Some y'"
    "session_ok pr s'" "fed V y' = fed V y @ tls_in s" "tls_in s' = []"
    "delivered V y' = delivered V y @ Q"
    "app_content s' = (if r = ReceiveFailed then app_content s else app_content s @ Q)"
    "length (app_content s @ Q) + 1 = BufferCapacity pr \<Longrightarrow> r = ReceiveFailed"
    "r = WantProcessSendBuffers \<Longrightarrow> wants_write T"
    "sendAppQueue s' = sendAppQueue s" "tls_out s' = tls_out s" "receiveTlsBufferTail s' = receiveTlsBufferTail s"
    "isIoOnline s' = isIoOnline s" "shouldClose s' = shouldClose s"
proof -
  let ?c = "BufferCapacity pr" and ?h = "receiveTlsBufferHead s" and ?t = "receiveTlsBufferTail s"
  let ?n = "ring_size ?c ?h ?t"
  let ?ah = "receiveAppBufferHead s" and ?at = "receiveAppBufferTail s"
  have K: "length (ReceiveTlsBuffer s) = ?c" "?h < ?c" "?t < ?c" "length (ReceiveAppBuffer s) = ?c"
    "?ah < ?c" "?at < ?c" using ok by (auto simp: session_ok_def app_ok_def)
  obtain y1 where f: "feed_bio T ?c (ReceiveTlsBuffer s) ?h ?t 0 (Some y) = Some (Inr (?n, Some y1))"
    "fed V y1 = fed V y @ tls_in s" "delivered V y1 = delivered V y"
    using feed_bio_spec [OF T K(1-3), of 0 y] by (auto simp: tls_in_def)
  define s1 where "s1 = s\<lparr>Ssl := Some y1, receiveTlsBufferHead := ?t\<rparr>"
  have hd: "(if 0 < ?n then (?h + ?n) mod ?c else ?h) = ?t"
    using ring_tail_eq [OF K(2,3)] K(2) by auto
  let ?sz = "ring_size ?c ?ah ?at"
  have rd: "(if ?ah \<le> ?at then ?at - ?ah else ?c - ?ah + ?at) = ?sz" by (simp add: ring_size_def)
  define available where "available = ?c - ?sz - 1"
  have av: "?sz + available + 1 = ?c" using ring_size_less [OF K(5,6)] by (simp add: available_def)
  have C: "length (app_content s) = ?sz" using K by (simp add: app_content_def)
  have "\<exists>r k' buf' y' Q. read_app T ?c available ?at 0 (ReceiveAppBuffer s) (Some y1) = Some (Inr (r, k', buf', Some y')) \<and>
      length buf' = ?c \<and> k' \<le> available \<and> k' = length ([] @ Q) \<and>
      ring_content buf' ?ah ((?at + k') mod ?c) = app_content s @ [] @ Q \<and> ring_content buf' ?ah ?at = app_content s \<and>
      fed V y' = fed V y1 \<and> delivered V y' = delivered V y1 @ Q \<and> (k' = available \<longrightarrow> r = ReceiveFailed) \<and>
      (r = WantProcessSendBuffers \<longrightarrow> wants_write T)"
    by (rule read_app_spec [OF T K(5,6) av C]) (use K in \<open>simp_all add: app_content_def\<close>)
  then obtain r k' buf' y' Q where ra: "read_app T ?c available ?at 0 (ReceiveAppBuffer s) (Some y1) = Some (Inr (r, k', buf', Some y'))"
      "length buf' = ?c" "k' \<le> available" "k' = length Q"
      "ring_content buf' ?ah ((?at + k') mod ?c) = app_content s @ Q" "ring_content buf' ?ah ?at = app_content s"
      "fed V y' = fed V y1" "delivered V y' = delivered V y1 @ Q" "k' = available \<longrightarrow> r = ReceiveFailed"
      "r = WantProcessSendBuffers \<longrightarrow> wants_write T"
    by auto
  define s' where "s' = s\<lparr>Ssl := Some y', receiveTlsBufferHead := ?t, ReceiveAppBuffer := buf',
    receiveAppBufferTail := if r \<noteq> ReceiveFailed \<and> 0 < k' then (?at + k') mod ?c else ?at\<rparr>"
  have "TryProcessReceiveBuffers T pr s = Some (Inr (r, s'))"
    using f(1) ra(1) rd unfolding TryProcessReceiveBuffers_def y
    by (simp add: Let_def hd s'_def available_def cong: if_cong split del: if_split) auto
  moreover have "session_ok pr s'" using ok K ra(2) by (auto simp: session_ok_def app_ok_def s'_def)
  moreover have "app_content s' = (if r = ReceiveFailed then app_content s else app_content s @ Q)"
    using ra(4,5,6) by (auto simp: app_content_def s'_def)
  moreover have "tls_in s' = []" by (simp add: tls_in_def s'_def ring_content_def ring_size_def ring_bytes_def)
  moreover have "tls_out s' = tls_out s" by (simp add: tls_out_def s'_def)
  moreover have "length (app_content s @ Q) + 1 = ?c \<Longrightarrow> r = ReceiveFailed" using ra(4,9) C av by simp
  ultimately show thesis using that [of r s' y' Q] f ra(7,8,10) by (simp add: s'_def)
qed

lemma write_queue_spec:
  assumes T: "tls_laws T V"
  obtains r sent queue y' where "write_queue T ms (Some y) = Inr (r, queue, Some y')"
    "accepted V y' = accepted V y @ sent"
    "if r = SendSuccess then ms = sent \<and> queue = [] else \<exists>lost. ms = sent @ lost # queue"
proof -
  have "\<exists>r sent queue y'. write_queue T ms (Some y) = Inr (r, queue, Some y') \<and>
    accepted V y' = accepted V y @ sent \<and>
    (if r = SendSuccess then ms = sent \<and> queue = [] else \<exists>lost. ms = sent @ lost # queue)"
  proof (induction ms arbitrary: y)
    case Nil
    then show ?case by simp
  next
    case (Cons m ms)
    obtain o1 y1 where w: "SSL_write T m y = (o1, y1)" by (cases "SSL_write T m y")
    show ?case
    proof (cases o1)
      case None
      obtain r sent queue y' where I: "write_queue T ms (Some y1) = Inr (r, queue, Some y')"
        "accepted V y' = accepted V y1 @ sent"
        "if r = SendSuccess then ms = sent \<and> queue = [] else \<exists>lost. ms = sent @ lost # queue"
        using Cons.IH [of y1] by blast
      then show ?thesis using w None tls_lawsD(4) [OF T, of m y y1]
        by (intro exI [of _ r] exI [of _ "m # sent"] exI [of _ queue] exI [of _ y']) (auto split: if_splits)
    next
      case (Some e)
      then show ?thesis using w tls_lawsD(5) [OF T, of m y e y1]
        by (cases "e = SSL_ERROR_WANT_READ") (auto intro!: exI [of _ "[]"])
    qed
  qed
  then show thesis using that by blast
qed

lemma flush_bio_spec:
  assumes T: "tls_laws T V" and h: "h < cap" and tail: "tail < cap" and C: "length C = ring_size cap h tail"
  shows "length buf = cap \<Longrightarrow> ring_size cap h tail + k < cap \<Longrightarrow> ring_content buf h ((tail + k) mod cap) = C @ P \<Longrightarrow>
    ring_content buf h tail = C \<Longrightarrow> length P = k \<Longrightarrow>
    \<exists>ok k' buf' y' Q. flush_bio T cap h tail k buf (Some y) = Some (Inr (ok, k', buf', Some y')) \<and>
      length buf' = cap \<and> ring_size cap h tail + k' < cap \<and> k' = length (P @ Q) \<and>
      ring_content buf' h ((tail + k') mod cap) = C @ P @ Q \<and> ring_content buf' h tail = C \<and>
      pending V y = Q @ pending V y' \<and> accepted V y' = accepted V y \<and>
      (ok \<longleftrightarrow> length (C @ P @ pending V y) < cap) \<and> (ok \<longrightarrow> pending V y' = [])"
proof (induction "length (pending V y)" arbitrary: k buf y P rule: less_induct)
  case less
  note pd = tls_lawsD(6) [OF T, of y]
  show ?case
  proof (cases "pending V y = []")
    case True
    then have "flush_bio T cap h tail k buf (Some y) = Some (Inr (True, k, buf, Some y))"
      by (subst flush_bio.simps) (simp add: pd)
    then show ?thesis using less.prems True C
      by (intro exI [of _ True] exI [of _ k] exI [of _ buf] exI [of _ y] exI [of _ "[]"]) auto
  next
    case False
    define g n where "g = (tail + k) mod cap" and "n = min (cap - Suc (ring_size cap h g)) (cap - g)"
    have g: "g < cap" using tail by (simp add: g_def)
    have rs: "ring_size cap h g = ring_size cap h tail + k"
      using arg_cong [OF less.prems(3), of length] less.prems(1,5) C by (simp add: g_def)
    have rd: "(if h \<le> g then g - h else cap - h + g) = ring_size cap h g" by (simp add: ring_size_def)
    have U: "flush_bio T cap h tail k buf (Some y) =
        (if n = 0 then Some (Inr (False, k, buf, Some y))
         else bindO (Some (bio_read_at T buf g n y)) (\<lambda>p.
           if fst p = 0 then Some (Inr (False, k, snd p))
           else flush_bio T cap h tail (k + fst p) (fst (snd p)) (snd (snd p))))"
      using False pd by (subst flush_bio.simps) (simp add: Let_def g_def [symmetric] rd n_def [symmetric] cong: if_cong split del: if_split)
    show ?thesis
    proof (cases "n = 0")
      case True
      then have "ring_size cap h tail + k + 1 = cap" using rs g less.prems(2) by (simp add: n_def)
      moreover have "0 < length (pending V y)" using False by simp
      ultimately have "\<not> length (C @ P @ pending V y) < cap" using C less.prems(5)
        unfolding length_append by linarith
      then show ?thesis using U True less.prems
        by (intro exI [of _ False] exI [of _ k] exI [of _ buf] exI [of _ y] exI [of _ "[]"]) auto
    next
      case n: False
      obtain bs y1 where br: "BIO_read T n y = (bs, y1)" by (cases "BIO_read T n y")
      have W: "bs = take n (pending V y)" "pending V y1 = drop n (pending V y)" "accepted V y1 = accepted V y"
        using tls_lawsD(7) [OF T _ br] n by simp_all
      have bs: "bs \<noteq> []" "length bs \<le> n" "pending V y = bs @ pending V y1" using W n False by simp_all
      have fit: "ring_size cap h tail + k + length bs < cap" "g + length bs \<le> cap"
        using bs(2) n rs g by (auto simp: n_def)
      obtain buf1 where b: "store_bytes buf g bs = Inr buf1" "length buf1 = cap"
        "ring_content buf1 h ((tail + (k + length bs)) mod cap) = C @ P @ bs" "ring_content buf1 h tail = C"
        by (rule store_behind [OF less.prems(1) h tail g_def fit _ less.prems(4) C less.prems(5)])
          (use less.prems(3) in \<open>simp add: g_def\<close>)
      have step: "flush_bio T cap h tail k buf (Some y) = flush_bio T cap h tail (k + length bs) buf1 (Some y1)"
        using U n br b(1) bs(1) by (simp add: bio_read_at_def)
      have lt: "length (pending V y1) < length (pending V y)" using bs by (cases bs) auto
      have "\<exists>ok k' buf' y' Q. flush_bio T cap h tail (k + length bs) buf1 (Some y1) = Some (Inr (ok, k', buf', Some y')) \<and>
          length buf' = cap \<and> ring_size cap h tail + k' < cap \<and> k' = length ((P @ bs) @ Q) \<and>
          ring_content buf' h ((tail + k') mod cap) = C @ (P @ bs) @ Q \<and> ring_content buf' h tail = C \<and>
          pending V y1 = Q @ pending V y' \<and> accepted V y' = accepted V y1 \<and>
          (ok \<longleftrightarrow> length (C @ (P @ bs) @ pending V y1) < cap) \<and> (ok \<longrightarrow> pending V y' = [])"
        by (rule less.hyps [OF lt b(2) _ _ b(4)]) (use b(3) fit(1) less.prems(5) in simp_all)
      then obtain ok k' buf' y' Q where I:
        "flush_bio T cap h tail (k + length bs) buf1 (Some y1) = Some (Inr (ok, k', buf', Some y'))"
        "length buf' = cap" "ring_size cap h tail + k' < cap" "k' = length ((P @ bs) @ Q)"
        "ring_content buf' h ((tail + k') mod cap) = C @ (P @ bs) @ Q" "ring_content buf' h tail = C"
        "pending V y1 = Q @ pending V y'" "accepted V y' = accepted V y1"
        "ok \<longleftrightarrow> length (C @ (P @ bs) @ pending V y1) < cap" "ok \<longrightarrow> pending V y' = []"
        by blast
      then show ?thesis using step W(3) bs(3)
        by (intro exI [of _ ok] exI [of _ k'] exI [of _ buf'] exI [of _ y'] exI [of _ "bs @ Q"]) simp
    qed
  qed
qed

lemma send_spec:
  assumes T: "tls_laws T V" and ok: "session_ok pr s" and y: "Ssl s = Some y"
  obtains r s' y1 y' sent queue r1 where "TryProcessSendBuffers T pr s = Some (Inr (r, s'))" "Ssl s' = Some y'"
    "session_ok pr s'" "accepted V y' = accepted V y @ sent" "sendAppQueue s' = queue"
    "write_queue T (sendAppQueue s) (Some y) = Inr (r1, queue, Some y1)"
    "if r1 = SendSuccess then sendAppQueue s = sent \<and> queue = [] else \<exists>lost. sendAppQueue s = sent @ lost # queue"
    "r = (if r1 \<noteq> SendFailed \<and> length (tls_out s @ pending V y1) < BufferCapacity pr then r1 else SendFailed)"
    "tls_out s' = (if r = SendFailed then tls_out s else tls_out s @ pending V y1)"
    "r \<noteq> SendFailed \<longrightarrow> pending V y' = []"
    "app_content s' = app_content s" "tls_in s' = tls_in s"
    "isIoOnline s' = isIoOnline s" "shouldClose s' = shouldClose s"
proof -
  let ?c = "BufferCapacity pr" and ?h = "sendTlsBufferHead s" and ?t = "sendTlsBufferTail s"
  have K: "length (SendTlsBuffer s) = ?c" "?h < ?c" "?t < ?c" using ok by (auto simp: session_ok_def)
  obtain r1 sent queue y1 where w: "write_queue T (sendAppQueue s) (Some y) = Inr (r1, queue, Some y1)"
    "accepted V y1 = accepted V y @ sent"
    "if r1 = SendSuccess then sendAppQueue s = sent \<and> queue = [] else \<exists>lost. sendAppQueue s = sent @ lost # queue"
    by (rule write_queue_spec [OF T])
  show thesis
  proof (cases "r1 = SendFailed")
    case True
    let ?s = "s\<lparr>sendAppQueue := queue, Ssl := Some y1\<rparr>"
    have "TryProcessSendBuffers T pr s = Some (Inr (SendFailed, ?s))"
      using w(1) True by (simp add: TryProcessSendBuffers_def y Let_def)
    moreover have "session_ok pr ?s" using ok by (simp add: session_ok_def app_ok_def)
    ultimately show thesis using w True that [of SendFailed ?s y1 sent queue r1 y1]
      by (simp add: tls_out_def tls_in_def app_content_def)
  next
    case False
    have C: "length (tls_out s) = ring_size ?c ?h ?t" using K by (simp add: tls_out_def)
    have "\<exists>ok k' buf' y' Q. flush_bio T ?c ?h ?t 0 (SendTlsBuffer s) (Some y1) = Some (Inr (ok, k', buf', Some y')) \<and>
      length buf' = ?c \<and> ring_size ?c ?h ?t + k' < ?c \<and> k' = length ([] @ Q) \<and>
      ring_content buf' ?h ((?t + k') mod ?c) = tls_out s @ [] @ Q \<and> ring_content buf' ?h ?t = tls_out s \<and>
      pending V y1 = Q @ pending V y' \<and> accepted V y' = accepted V y1 \<and>
      (ok \<longleftrightarrow> length (tls_out s @ [] @ pending V y1) < ?c) \<and> (ok \<longrightarrow> pending V y' = [])"
      by (rule flush_bio_spec [OF T K(2,3) C]) (use K ring_size_less [OF K(2,3)] in \<open>simp_all add: tls_out_def\<close>)
    then obtain good k' buf' y' Q where f:
      "flush_bio T ?c ?h ?t 0 (SendTlsBuffer s) (Some y1) = Some (Inr (good, k', buf', Some y'))"
      "length buf' = ?c" "k' = length Q"
      "ring_content buf' ?h ((?t + k') mod ?c) = tls_out s @ Q" "ring_content buf' ?h ?t = tls_out s"
      "pending V y1 = Q @ pending V y'" "accepted V y' = accepted V y1"
      "good \<longleftrightarrow> length (tls_out s @ pending V y1) < ?c" "good \<longrightarrow> pending V y' = []"
      by auto
    define s2 where "s2 = s\<lparr>sendAppQueue := queue, SendTlsBuffer := buf', Ssl := Some y',
      sendTlsBufferTail := if good \<and> 0 < k' then (?t + k') mod ?c else ?t\<rparr>"
    define r where "r = (if good then r1 else SendFailed)"
    have "TryProcessSendBuffers T pr s = Some (Inr (r, s2))"
      using w(1) False f(1) by (simp add: TryProcessSendBuffers_def y Let_def s2_def r_def)
    moreover have "session_ok pr s2" using ok K f(2) by (auto simp: session_ok_def app_ok_def s2_def)
    moreover have "tls_out s2 = (if r = SendFailed then tls_out s else tls_out s @ pending V y1)"
      using f(3-6,9) False by (auto simp: tls_out_def s2_def r_def)
    moreover have "app_content s2 = app_content s" "tls_in s2 = tls_in s" "sendAppQueue s2 = queue"
      "Ssl s2 = Some y'" "isIoOnline s2 = isIoOnline s" "shouldClose s2 = shouldClose s"
      by (simp_all add: app_content_def tls_in_def s2_def)
    moreover have "r \<noteq> SendFailed \<Longrightarrow> pending V y' = []" using f(9) by (auto simp: r_def)
    moreover have "accepted V y' = accepted V y @ sent" using f(7) w(2) by simp
    moreover have "r = (if r1 \<noteq> SendFailed \<and> length (tls_out s @ pending V y1) < ?c then r1 else SendFailed)"
      using f(8) False by (simp add: r_def)
    ultimately show thesis using that [of r s2 y' sent queue r1 y1] w by blast
  qed
qed


section \<open>An engine\<close>

text \<open>
  An engine without a cipher, for the witnesses: the plaintext is what has been fed, and nothing
  can be written before the peer has sent something.
\<close>

record null_state =
  nFed :: "u8 list"
  nDelivered :: "u8 list"
  nAccepted :: "u8 list list"
  nPending :: "u8 list"

definition null_tls :: "null_state tls" where
  "null_tls = \<lparr>BIO_write = \<lambda>bs y. (int (length bs), y\<lparr>nFed := nFed y @ bs\<rparr>),
     SSL_read = \<lambda>n y. (let rest = drop (length (nDelivered y)) (nFed y) in
       if rest = [] \<or> n = 0 then (Inl SSL_ERROR_WANT_READ, y)
       else (Inr (take n rest), y\<lparr>nDelivered := nDelivered y @ take n rest\<rparr>)),
     SSL_write = \<lambda>m y. (if nFed y = [] then (Some SSL_ERROR_WANT_READ, y)
       else (None, y\<lparr>nAccepted := nAccepted y @ [m], nPending := nPending y @ m\<rparr>)),
     BIO_pending = \<lambda>y. length (nPending y),
     BIO_read = \<lambda>n y. (take n (nPending y), y\<lparr>nPending := drop n (nPending y)\<rparr>)\<rparr>"

definition null_view :: "null_state tls_view" where
  "null_view = \<lparr>fed = nFed, delivered = nDelivered, accepted = nAccepted, pending = nPending\<rparr>"

definition null_start :: null_state where
  "null_start = \<lparr>nFed = [], nDelivered = [], nAccepted = [], nPending = []\<rparr>"

lemma null_laws: "tls_laws null_tls null_view"
  by (auto simp: tls_laws_def null_tls_def null_view_def Let_def)

section \<open>Properties\<close>

text \<open>
  C21.  \<open>TryProcessReceiveBuffers\<close> returns, for every position of the rings and every engine that obeys
  the laws: all bytes of the receive TLS buffer are written into the read BIO, once and in order, and
  the buffer is empty afterwards; the plaintext the engine delivers is appended to the application
  buffer; and it fails if that buffer has become full.  On failure the application buffer keeps
  exactly the bytes it had.
\<close>

theorem receive_buffers:
  assumes "tls_laws T V" and "session_ok pr s" and "Ssl s = Some y"
  shows "\<exists>r s' y' Q. TryProcessReceiveBuffers T pr s = Some (Inr (r, s')) \<and> Ssl s' = Some y' \<and>
    session_ok pr s' \<and> fed V y' = fed V y @ tls_in s \<and> tls_in s' = [] \<and>
    delivered V y' = delivered V y @ Q \<and>
    app_content s' = (if r = ReceiveFailed then app_content s else app_content s @ Q) \<and>
    (length (app_content s @ Q) + 1 = BufferCapacity pr \<longrightarrow> r = ReceiveFailed)"
  by (rule receive_spec [OF assms]) metis

text \<open>
  C22.  \<open>TryProcessSendBuffers\<close> returns, for every position of the rings and every such engine: a prefix
  of the queue is accepted by the engine in order; on success the whole queue, otherwise one message
  more has left the queue and is lost, also when the engine only wants to read first.  Unless it
  fails, all ciphertext waiting in the write BIO is appended to the send TLS buffer, and it fails
  exactly when a write failed or this ciphertext does not fit.
\<close>

theorem send_buffers:
  assumes "tls_laws T V" and "session_ok pr s" and "Ssl s = Some y"
  shows "\<exists>r s' y1 y' sent queue r1. TryProcessSendBuffers T pr s = Some (Inr (r, s')) \<and> Ssl s' = Some y' \<and>
    session_ok pr s' \<and> accepted V y' = accepted V y @ sent \<and> sendAppQueue s' = queue \<and>
    write_queue T (sendAppQueue s) (Some y) = Inr (r1, queue, Some y1) \<and>
    (if r1 = SendSuccess then sendAppQueue s = sent \<and> queue = []
     else \<exists>lost. sendAppQueue s = sent @ lost # queue) \<and>
    r = (if r1 \<noteq> SendFailed \<and> length (tls_out s @ pending V y1) < BufferCapacity pr then r1 else SendFailed) \<and>
    tls_out s' = (if r = SendFailed then tls_out s else tls_out s @ pending V y1) \<and>
    (r \<noteq> SendFailed \<longrightarrow> pending V y' = [])"
  by (rule send_spec [OF assms]) (intro exI conjI, assumption+)

definition tls_demo :: "null_state session" where
  "tls_demo = (new_session demo_protocol null_start 7 ''Auth'')
     \<lparr>ReceiveTlsBuffer := [3, 4, 0, 0, 0, 0, 0, 0, 0, 0, 0, 0, 0, 0, 1, 2],
      receiveTlsBufferHead := 14, receiveTlsBufferTail := 2, sendAppQueue := [[8], [9]]\<rparr>"

lemma tls_demo_facts:
  "session_ok demo_protocol tls_demo" "Ssl tls_demo = Some null_start" "tls_in tls_demo = [1, 2, 3, 4]"
  "app_content tls_demo = []" "sendAppQueue tls_demo = [[8], [9]]" "fed null_view null_start = []"
  "accepted null_view null_start = []"
  "write_queue null_tls [[8], [9]] (Some null_start) = Inr (WantProcessReceiveBuffers, [[9]], Some null_start)"
  by (simp_all add: tls_demo_def session_ok_def app_ok_def new_session_def BufferCapacity_def demo_protocol_def
      tls_in_def app_content_def ring_content_def ring_size_def ring_bytes_def upt_rec null_view_def null_start_def
      null_tls_def)

theorem receive_buffers_witness:
  "\<exists>r s' y'. TryProcessReceiveBuffers null_tls demo_protocol tls_demo = Some (Inr (r, s')) \<and>
     Ssl s' = Some y' \<and> fed null_view y' = [1, 2, 3, 4] \<and> tls_in s' = []"
  using receive_buffers [OF null_laws tls_demo_facts(1,2)] tls_demo_facts(3,6) by auto

theorem send_buffers_witness:
  "\<exists>r s' y'. TryProcessSendBuffers null_tls demo_protocol tls_demo = Some (Inr (r, s')) \<and>
     Ssl s' = Some y' \<and> sendAppQueue s' = [[9]] \<and> accepted null_view y' = []"
proof -
  obtain r s' y1 y' sent queue r1 where
    S: "TryProcessSendBuffers null_tls demo_protocol tls_demo = Some (Inr (r, s'))" "Ssl s' = Some y'"
    "accepted null_view y' = accepted null_view null_start @ sent" "sendAppQueue s' = queue"
    "write_queue null_tls (sendAppQueue tls_demo) (Some null_start) = Inr (r1, queue, Some y1)"
    "if r1 = SendSuccess then sendAppQueue tls_demo = sent \<and> queue = []
     else \<exists>lost. sendAppQueue tls_demo = sent @ lost # queue"
    using send_buffers [OF null_laws tls_demo_facts(1,2)] by blast
  then have "queue = [[9]]" "r1 = WantProcessReceiveBuffers" using tls_demo_facts(5,8) by auto
  moreover from this S(6) have "sent = []" using tls_demo_facts(5) by (auto simp: Cons_eq_append_conv)
  ultimately show ?thesis using S(1-4) tls_demo_facts(7) by auto
qed

end
