(* ===== verification/Session_Io.thy ===== *)
theory Session_Io
  imports Session_Tls
begin

text \<open>
  The overlapped operations of \<open>Session\<close>: starting and finishing receives and sends, the flags that
  allow one operation of each kind at a time, and closing.  Whether WinSock accepts a request is a
  parameter, and so is the number of bytes of a completion.
\<close>

section \<open>Operations\<close>

definition set_online :: "io_type \<Rightarrow> bool \<Rightarrow> 't session \<Rightarrow> 't session" where
  "set_online io b s = s\<lparr>isIoOnline := (isIoOnline s)(io := b)\<rparr>"

text \<open>\<open>TryReceiveAsync\<close> in parts: under its lock, whether it goes on; then what it offers to \<open>WSARecv\<close>, unless the buffer is full.\<close>

definition begin_receive :: "'t session \<Rightarrow> bool \<times> 't session" where
  "begin_receive s =
     (if isIoOnline s IoType_Receive \<or> shouldClose s then (False, s) else (True, set_online IoType_Receive True s))"

definition receive_window :: "session_protocol \<Rightarrow> 't session \<Rightarrow> (nat \<times> nat) option" where
  "receive_window pr s =
     (let loadedTail = receiveTlsBufferTail s; loadedHead = receiveTlsBufferHead s;
          bufferSize = GetRingBufferSize (BufferCapacity pr) loadedHead loadedTail;
          writableSize = BufferCapacity pr - loadedTail
      in if bufferSize = BufferCapacity pr - 1 \<or> writableSize = 0 then None else Some (loadedTail, writableSize))"

text \<open>
  \<open>TryReceiveAsync\<close>: \<open>Some (pos, len)\<close> if \<open>WSARecv\<close> was called with \<open>len\<close> bytes at \<open>pos\<close> of the
  receive TLS buffer and has not failed (\<open>recvOk\<close>); then the method returns true.
\<close>

definition TryReceiveAsync :: "session_protocol \<Rightarrow> bool \<Rightarrow> 't session \<Rightarrow> (nat \<times> nat) option \<times> 't session" where
  "TryReceiveAsync pr recvOk s =
     (if isIoOnline s IoType_Receive \<or> shouldClose s then (None, s)
      else
        let s1 = set_online IoType_Receive True s;
            loadedTail = receiveTlsBufferTail s; loadedHead = receiveTlsBufferHead s;
            bufferSize = GetRingBufferSize (BufferCapacity pr) loadedHead loadedTail;
            writableSize = BufferCapacity pr - loadedTail
        in if bufferSize = BufferCapacity pr - 1 \<or> writableSize = 0
           then (None, set_online IoType_Receive False s1)
           else if \<not> recvOk then (None, set_online IoType_Receive False s1)
           else (Some (loadedTail, writableSize), s1))"

partial_function (option) post_receive_loop ::
    "'t tls \<Rightarrow> session_protocol \<Rightarrow> 't session \<Rightarrow> (bool \<times> 't session) res option" where
  "post_receive_loop T pr s =
     bindO (TryProcessReceiveBuffers T pr s) (\<lambda>p.
       case fst p of
         ReceiveSuccess \<Rightarrow> Some (Inr (True, snd p))
       | ReceiveFailed \<Rightarrow> Some (Inr (False, snd p))
       | WantProcessSendBuffers \<Rightarrow>
           bindO (TryProcessSendBuffers T pr (snd p)) (\<lambda>q.
             case fst q of
               WantProcessReceiveBuffers \<Rightarrow> Some (Inr (True, snd q))
             | SendFailed \<Rightarrow> Some (Inr (False, snd q))
             | SendSuccess \<Rightarrow> post_receive_loop T pr (snd q)))"

lemma TryReceiveAsync_parts:
  "TryReceiveAsync pr recvOk s =
     (case begin_receive s of
        (False, s1) \<Rightarrow> (None, s1)
      | (True, s1) \<Rightarrow> (case receive_window pr s1 of
          None \<Rightarrow> (None, set_online IoType_Receive False s1)
        | Some window \<Rightarrow> if recvOk then (Some window, s1) else (None, set_online IoType_Receive False s1)))"
  by (simp add: TryReceiveAsync_def begin_receive_def receive_window_def Let_def set_online_def)

text \<open>\<open>TryPostReceive\<close> clears the flag under its lock, advances the tail, and enters its loop.\<close>

definition advance_tail :: "session_protocol \<Rightarrow> nat \<Rightarrow> 't session \<Rightarrow> 't session" where
  "advance_tail pr bytesTransferred s =
     s\<lparr>receiveTlsBufferTail := (receiveTlsBufferTail s + bytesTransferred) mod BufferCapacity pr\<rparr>"

definition TryPostReceive ::
    "'t tls \<Rightarrow> session_protocol \<Rightarrow> nat \<Rightarrow> 't session \<Rightarrow> (bool \<times> 't session) res option" where
  "TryPostReceive T pr bytesTransferred s =
     post_receive_loop T pr ((set_online IoType_Receive False s)
       \<lparr>receiveTlsBufferTail := (receiveTlsBufferTail s + bytesTransferred) mod BufferCapacity pr\<rparr>)"

lemma TryPostReceive_parts: "TryPostReceive T pr n s = post_receive_loop T pr (advance_tail pr n (set_online IoType_Receive False s))"
  by (simp add: TryPostReceive_def advance_tail_def set_online_def)

text \<open>The loop of \<open>TrySendAsync\<close>: whether the method goes on to \<open>WSASend\<close>.\<close>

partial_function (option) send_loop ::
    "'t tls \<Rightarrow> session_protocol \<Rightarrow> 't session \<Rightarrow> (bool \<times> 't session) res option" where
  "send_loop T pr s =
     bindO (TryProcessSendBuffers T pr s) (\<lambda>p.
       case fst p of
         SendSuccess \<Rightarrow> Some (Inr (True, snd p))
       | SendFailed \<Rightarrow> Some (Inr (False, snd p))
       | WantProcessReceiveBuffers \<Rightarrow>
           bindO (TryProcessReceiveBuffers T pr (snd p)) (\<lambda>q.
             case fst q of
               WantProcessSendBuffers \<Rightarrow> Some (Inr (True, snd q))
             | ReceiveFailed \<Rightarrow> Some (Inr (False, snd q))
             | ReceiveSuccess \<Rightarrow> send_loop T pr (snd q)))"

text \<open>
  \<open>TrySendAsync\<close>: its result, and the part of the send TLS buffer given to \<open>WSASend\<close> if it was called
  and has not failed (\<open>sendOk\<close>).
\<close>

definition TrySendAsync ::
    "'t tls \<Rightarrow> session_protocol \<Rightarrow> bool \<Rightarrow> 't session \<Rightarrow> (bool \<times> (nat \<times> nat) option \<times> 't session) res option" where
  "TrySendAsync T pr sendOk s =
     (if isIoOnline s IoType_Send then Some (Inr (True, None, s))
      else if shouldClose s then Some (Inr (False, None, s))
      else
        let s1 = set_online IoType_Send True s
        in if sendTlsBufferHead s = sendTlsBufferTail s \<and> sendAppQueue s = []
           then Some (Inr (True, None, set_online IoType_Send False s1))
           else bindO (send_loop T pr s1) (\<lambda>(ok, s2).
             if \<not> ok then Some (Inr (False, None, set_online IoType_Send False s2))
             else
               let loadedHead = sendTlsBufferHead s2; loadedTail = sendTlsBufferTail s2;
                   len = (if loadedHead \<le> loadedTail then loadedTail - loadedHead
                          else BufferCapacity pr - loadedHead)
               in if \<not> sendOk then Some (Inr (False, None, set_online IoType_Send False s2))
                  else Some (Inr (True, Some (loadedHead, len), s2))))"

definition TryPostSend :: "session_protocol \<Rightarrow> nat \<Rightarrow> 't session \<Rightarrow> bool \<times> 't session" where
  "TryPostSend pr bytesTransferred s =
     (True, (set_online IoType_Send False s)
       \<lparr>sendTlsBufferHead := (sendTlsBufferHead s + bytesTransferred) mod BufferCapacity pr\<rparr>)"

text \<open>\<open>InitiateSendAsync\<close>: whether it returns the overlapped structure to post.\<close>

definition InitiateSendAsync :: "'t session \<Rightarrow> bool \<times> 't session" where
  "InitiateSendAsync s =
     (if isIoOnline s IoType_InitiateSend then (False, s) else (True, set_online IoType_InitiateSend True s))"

definition PostInitiateSend :: "'t session \<Rightarrow> 't session" where
  "PostInitiateSend s = set_online IoType_InitiateSend False s"

definition PostIoFailed :: "io_type \<Rightarrow> 't session \<Rightarrow> 't session" where
  "PostIoFailed failedIoType s = set_online failedIoType False s"

text \<open>\<open>Cleanup\<close> shuts the engine down and frees it, and closes the socket, the first time only.\<close>

definition Cleanup :: "'t session \<Rightarrow> 't session" where
  "Cleanup s = (if shouldClose s then s else s\<lparr>shouldClose := True, Ssl := None\<rparr>)"

text \<open>What \<open>Close\<close> answers, under the three locks.\<close>

definition answer_close :: "'t session \<Rightarrow> bool" where
  "answer_close s \<longleftrightarrow> \<not> isIoOnline s IoType_Send \<and> \<not> isIoOnline s IoType_Receive \<and> \<not> isIoOnline s IoType_InitiateSend"

definition Close :: "'t session \<Rightarrow> bool \<times> 't session" where
  "Close s = (let s1 = Cleanup s in (answer_close s1, s1))"

section \<open>What the operations leave alone\<close>

lemma bindO_elim:
  "bindO m f = Some (Inr y) \<Longrightarrow> (\<And>x. m = Some (Inr x) \<Longrightarrow> f x = Some (Inr y) \<Longrightarrow> R) \<Longrightarrow> R"
  by (auto simp: bindO_eq_Some)

lemma set_online_simps [simp]:
  "isIoOnline (set_online io b s) = (isIoOnline s)(io := b)"
  "shouldClose (set_online io b s) = shouldClose s" "Ssl (set_online io b s) = Ssl s"
  "session_ok pr (set_online io b s) = session_ok pr s" "tls_in (set_online io b s) = tls_in s"
  "\<not> shouldClose (new_session pr y c a)"
  by (simp_all add: set_online_def session_ok_def app_ok_def tls_in_def new_session_def)

definition same_flags :: "'t session \<Rightarrow> 't session \<Rightarrow> bool" where
  "same_flags s s' \<longleftrightarrow>
     isIoOnline s' = isIoOnline s \<and> shouldClose s' = shouldClose s \<and> AssociatedActor s' = AssociatedActor s"

lemma same_flags_refl [simp]: "same_flags s s" and
  same_flags_trans: "same_flags s t \<Longrightarrow> same_flags t u \<Longrightarrow> same_flags s u"
  by (simp_all add: same_flags_def)

lemma receive_flags:
  assumes "TryProcessReceiveBuffers T pr s = Some (Inr (r, s'))"
  shows "same_flags s s'"
  using assms unfolding TryProcessReceiveBuffers_def Let_def
  by (elim bindO_elim) (simp add: same_flags_def split_beta, elim conjE, drule sym, simp)

lemma send_flags:
  assumes "TryProcessSendBuffers T pr s = Some (Inr (r, s'))"
  shows "same_flags s s'"
proof -
  obtain r1 queue x where w: "write_queue T (sendAppQueue s) (Ssl s) = Inr (r1, queue, x)"
    using assms unfolding TryProcessSendBuffers_def by (elim bindO_elim) auto
  show ?thesis
  proof (cases "r1 = SendFailed")
    case True
    then show ?thesis using assms w by (auto simp: TryProcessSendBuffers_def Let_def same_flags_def)
  next
    case False
    then obtain ok k buf x' where "flush_bio T (BufferCapacity pr) (sendTlsBufferHead s) (sendTlsBufferTail s) 0
        (SendTlsBuffer s) x = Some (Inr (ok, k, buf, x'))"
      using assms w by (auto simp: TryProcessSendBuffers_def Let_def elim!: bindO_elim)
    then show ?thesis using assms w False
      by (auto simp: TryProcessSendBuffers_def Let_def same_flags_def split: if_splits)
  qed
qed

text \<open>What each round of the two loops does to a session, the loops do, if it is transitive.\<close>

lemma post_receive_loop_rel:
  fixes s :: "'t session"
  assumes run: "post_receive_loop T pr s = Some (Inr (ok, s'))"
    and S: "\<And>s r s'. TryProcessSendBuffers T pr s = Some (Inr (r, s')) \<Longrightarrow> R s s'"
    and C: "\<And>s r s'. TryProcessReceiveBuffers T pr s = Some (Inr (r, s')) \<Longrightarrow> R s s'"
    and tr: "\<And>s t u. R s t \<Longrightarrow> R t u \<Longrightarrow> R s u"
  shows "R s s'"
proof -
  let ?P = "\<lambda>T' pr' s v. T' = T \<and> pr' = pr \<longrightarrow> (\<forall>ok s'. v = Inr (ok, s') \<longrightarrow> R s s')"
  have "?P T pr s v" if "post_receive_loop T pr s = Some v" for v
  proof (rule post_receive_loop.raw_induct [where P = ?P, OF _ that], intro allI impI, elim conjE)
    fix loop :: "'t tls \<Rightarrow> session_protocol \<Rightarrow> 't session \<Rightarrow> (bool \<times> 't session) res option"
    fix T' pr' s ok s' and v :: "(bool \<times> 't session) res"
    assume IH: "\<And>T pr s v. loop T pr s = Some v \<Longrightarrow> ?P T pr s v"
      and v: "v = Inr (ok, s')" and eq: "T' = T" "pr' = pr"
    assume "bindO (TryProcessReceiveBuffers T' pr' s) (\<lambda>p.
       case fst p of
         ReceiveSuccess \<Rightarrow> Some (Inr (True, snd p))
       | ReceiveFailed \<Rightarrow> Some (Inr (False, snd p))
       | WantProcessSendBuffers \<Rightarrow>
           bindO (TryProcessSendBuffers T' pr' (snd p)) (\<lambda>q.
             case fst q of
               WantProcessReceiveBuffers \<Rightarrow> Some (Inr (True, snd q))
             | SendFailed \<Rightarrow> Some (Inr (False, snd q))
             | SendSuccess \<Rightarrow> loop T' pr' (snd q))) = Some v"
    note body = this [unfolded eq]
    obtain r1 s1 where r: "TryProcessReceiveBuffers T pr s = Some (Inr (r1, s1))"
      using body v by (auto elim: bindO_elim)
    show "R s s'"
    proof (cases "r1 = WantProcessSendBuffers")
      case False
      then show ?thesis using body v r C [OF r] by (cases r1) auto
    next
      case True
      then obtain r2 s2 where q: "TryProcessSendBuffers T pr s1 = Some (Inr (r2, s2))"
        using body v r by (auto elim: bindO_elim)
      have f: "R s s2" using C [OF r] S [OF q] by (rule tr)
      show ?thesis
      proof (cases "r2 = SendSuccess")
        case True
        then have "loop T pr s2 = Some v" using body r q \<open>r1 = WantProcessSendBuffers\<close> by simp
        then have "R s2 s'" using IH v by blast
        then show ?thesis using f tr by blast
      qed (use body v r q f \<open>r1 = WantProcessSendBuffers\<close> in \<open>cases r2; auto\<close>)
    qed
  qed
  then show ?thesis using run by blast
qed

lemma send_loop_rel:
  fixes s :: "'t session"
  assumes run: "send_loop T pr s = Some (Inr (ok, s'))"
    and S: "\<And>s r s'. TryProcessSendBuffers T pr s = Some (Inr (r, s')) \<Longrightarrow> R s s'"
    and C: "\<And>s r s'. TryProcessReceiveBuffers T pr s = Some (Inr (r, s')) \<Longrightarrow> R s s'"
    and tr: "\<And>s t u. R s t \<Longrightarrow> R t u \<Longrightarrow> R s u"
  shows "R s s'"
proof -
  let ?P = "\<lambda>T' pr' s v. T' = T \<and> pr' = pr \<longrightarrow> (\<forall>ok s'. v = Inr (ok, s') \<longrightarrow> R s s')"
  have "?P T pr s v" if "send_loop T pr s = Some v" for v
  proof (rule send_loop.raw_induct [where P = ?P, OF _ that], intro allI impI, elim conjE)
    fix loop :: "'t tls \<Rightarrow> session_protocol \<Rightarrow> 't session \<Rightarrow> (bool \<times> 't session) res option"
    fix T' pr' s ok s' and v :: "(bool \<times> 't session) res"
    assume IH: "\<And>T pr s v. loop T pr s = Some v \<Longrightarrow> ?P T pr s v"
      and v: "v = Inr (ok, s')" and eq: "T' = T" "pr' = pr"
    assume "bindO (TryProcessSendBuffers T' pr' s) (\<lambda>p.
       case fst p of
         SendSuccess \<Rightarrow> Some (Inr (True, snd p))
       | SendFailed \<Rightarrow> Some (Inr (False, snd p))
       | WantProcessReceiveBuffers \<Rightarrow>
           bindO (TryProcessReceiveBuffers T' pr' (snd p)) (\<lambda>q.
             case fst q of
               WantProcessSendBuffers \<Rightarrow> Some (Inr (True, snd q))
             | ReceiveFailed \<Rightarrow> Some (Inr (False, snd q))
             | ReceiveSuccess \<Rightarrow> loop T' pr' (snd q))) = Some v"
    note body = this [unfolded eq]
    obtain r1 s1 where r: "TryProcessSendBuffers T pr s = Some (Inr (r1, s1))"
      using body v by (auto elim: bindO_elim)
    show "R s s'"
    proof (cases "r1 = WantProcessReceiveBuffers")
      case False
      then show ?thesis using body v r S [OF r] by (cases r1) auto
    next
      case True
      then obtain r2 s2 where q: "TryProcessReceiveBuffers T pr s1 = Some (Inr (r2, s2))"
        using body v r by (auto elim: bindO_elim)
      have f: "R s s2" using S [OF r] C [OF q] by (rule tr)
      show ?thesis
      proof (cases "r2 = ReceiveSuccess")
        case True
        then have "loop T pr s2 = Some v" using body r q \<open>r1 = WantProcessReceiveBuffers\<close> by simp
        then have "R s2 s'" using IH v by blast
        then show ?thesis using f tr by blast
      qed (use body v r q f \<open>r1 = WantProcessReceiveBuffers\<close> in \<open>cases r2; auto\<close>)
    qed
  qed
  then show ?thesis using run by blast
qed

lemma post_receive_loop_flags:
  "post_receive_loop T pr s = Some (Inr (ok, s')) \<Longrightarrow> same_flags s s'"
  by (rule post_receive_loop_rel) (auto intro: send_flags receive_flags same_flags_trans)

lemma send_loop_flags:
  "send_loop T pr s = Some (Inr (ok, s')) \<Longrightarrow> same_flags s s'"
  by (rule send_loop_rel) (auto intro: send_flags receive_flags same_flags_trans)

lemma TryPostReceive_flags:
  "TryPostReceive T pr n s = Some (Inr (ok, s')) \<Longrightarrow>
     isIoOnline s' = (isIoOnline s)(IoType_Receive := False) \<and> shouldClose s' = shouldClose s"
  unfolding TryPostReceive_def by (drule post_receive_loop_flags) (simp add: same_flags_def)

lemma TrySendAsync_flags:
  assumes "TrySendAsync T pr b s = Some (Inr (ok, posted, s'))"
  shows "shouldClose s' = shouldClose s \<and>
     (if posted = None then isIoOnline s' = isIoOnline s
      else \<not> isIoOnline s IoType_Send \<and> \<not> shouldClose s \<and> ok \<and>
        isIoOnline s' = (isIoOnline s)(IoType_Send := True))"
proof (cases "isIoOnline s IoType_Send \<or> shouldClose s \<or>
    (sendTlsBufferHead s = sendTlsBufferTail s \<and> sendAppQueue s = [])")
  case True
  then show ?thesis using assms by (auto simp: TrySendAsync_def Let_def split: if_splits)
next
  case False
  let ?s1 = "set_online IoType_Send True s"
  obtain ok2 s2 where l: "send_loop T pr ?s1 = Some (Inr (ok2, s2))"
    using assms False by (auto simp: TrySendAsync_def Let_def elim!: bindO_elim split: if_splits)
  have "isIoOnline s2 = (isIoOnline s)(IoType_Send := True)" "shouldClose s2 = shouldClose s"
    using send_loop_flags [OF l] by (simp_all add: same_flags_def)
  then show ?thesis using assms False l by (auto simp: TrySendAsync_def Let_def split: if_splits)
qed

lemma TryReceiveAsync_flags:
  "TryReceiveAsync pr b s = (posted, s') \<Longrightarrow>
     shouldClose s' = shouldClose s \<and>
     (if posted = None then isIoOnline s' = isIoOnline s
      else \<not> isIoOnline s IoType_Receive \<and> \<not> shouldClose s \<and>
        isIoOnline s' = (isIoOnline s)(IoType_Receive := True))"
  by (auto simp: TryReceiveAsync_def Let_def split: if_splits)


section \<open>What the other methods do to the flags\<close>

lemma answer_close_simps [simp]:
  "answer_close s \<longleftrightarrow> (\<forall>io. \<not> isIoOnline s io)"
  unfolding answer_close_def by (metis io_type.exhaust)

lemma peek_body_flags: "peek_body pr s h = Inr (m, s') \<Longrightarrow> isIoOnline s' = isIoOnline s"
  by (auto simp: peek_body_def Let_def bindR_eq_Inr split: option.splits if_splits prod.splits)

lemma PeekReceivedMessage_flags: "PeekReceivedMessage pr s = Inr (m, s') \<Longrightarrow> isIoOnline s' = isIoOnline s"
  by (auto simp: PeekReceivedMessage_def bindR_eq_Inr dest: peek_body_flags split: option.splits)

lemma Close_flags: "Close s = (b, s') \<Longrightarrow> isIoOnline s' = isIoOnline s \<and> b = (\<forall>io. \<not> isIoOnline s io)"
  by (auto simp: Close_def Cleanup_def Let_def split: if_splits)

section \<open>A received block\<close>

lemma post_receive_returns:
  assumes T: "tls_laws T V" and nw: "\<not> wants_write T" and ok: "session_ok pr s" and y: "Ssl s = Some y"
  obtains ok' s' y' Q where "post_receive_loop T pr s = Some (Inr (ok', s'))" "Ssl s' = Some y'"
    "session_ok pr s'" "fed V y' = fed V y @ tls_in s" "tls_in s' = []" "delivered V y' = delivered V y @ Q"
    "app_content s' = (if ok' then app_content s @ Q else app_content s)"
proof -
  obtain r s' y' Q where R: "TryProcessReceiveBuffers T pr s = Some (Inr (r, s'))" "Ssl s' = Some y'"
    "session_ok pr s'" "fed V y' = fed V y @ tls_in s" "tls_in s' = []" "r = WantProcessSendBuffers \<Longrightarrow> wants_write T"
    "delivered V y' = delivered V y @ Q" "app_content s' = (if r = ReceiveFailed then app_content s else app_content s @ Q)"
    by (rule receive_spec [OF T ok y]) blast
  have "post_receive_loop T pr s = Some (Inr (r = ReceiveSuccess, s'))"
    using R(1,6) nw by (subst post_receive_loop.simps) (cases r; simp)
  moreover have "app_content s' = (if r = ReceiveSuccess then app_content s @ Q else app_content s)"
    using R(6,8) nw by (cases r) simp_all
  ultimately show thesis using that R(2-5,7) by blast
qed

text \<open>The kernel writes a block at the tail of an empty receive TLS buffer.\<close>

lemma block_content:
  assumes "length buf = cap" and "t < cap" and "store_bytes buf t ds = Inr buf'" and "t + length ds \<le> cap"
  shows "length buf' = cap"
    "ring_content buf' t ((t + length ds) mod cap) = (if length ds = cap then [] else ds)"
proof -
  show l: "length buf' = cap" using length_store_bytes [OF assms(3)] assms(1) by simp
  show "ring_content buf' t ((t + length ds) mod cap) = (if length ds = cap then [] else ds)"
  proof (cases "length ds = cap")
    case True
    then show ?thesis using assms(2,4) by (simp add: ring_content_def ring_size_def ring_bytes_def)
  next
    case False
    have z: "ring_size cap t t = 0" by (simp add: ring_size_def)
    have fit: "ring_size (length buf) t t + length ds < length buf" using False assms(1,4) z by simp
    obtain b where b: "ring_store buf t ds = Inr b"
      "ring_content b t ((t + length ds) mod length buf) = ring_content buf t t @ ds"
      using ring_store_content [OF _ _ fit] assms(1,2) by auto
    have "b = buf'" using b(1) assms(1,3,4) ring_store_short [of t ds buf] by simp
    then show ?thesis using b(2) False assms(1) z by (simp add: ring_content_def ring_bytes_def)
  qed
qed

text \<open>The completion of a receive for which a block has been written.\<close>

lemma block_received:
  assumes "tls_laws T V" and "\<not> wants_write T" and "session_ok pr s" and "Ssl s = Some y" and "tls_in s = []"
    and "length ds \<le> BufferCapacity pr - receiveTlsBufferTail s"
    and st: "store_bytes (ReceiveTlsBuffer s) (receiveTlsBufferTail s) ds = Inr buf"
  obtains ok s' y' Q where "TryPostReceive T pr (length ds) (s\<lparr>ReceiveTlsBuffer := buf\<rparr>) = Some (Inr (ok, s'))"
    "Ssl s' = Some y'" "session_ok pr s'" "tls_in s' = []"
    "fed V y' = fed V y @ (if length ds = BufferCapacity pr then [] else ds)" "delivered V y' = delivered V y @ Q"
    "app_content s' = (if ok then app_content s @ Q else app_content s)"
    "isIoOnline s' = (isIoOnline s)(IoType_Receive := False)" "shouldClose s' = shouldClose s"
    "AssociatedActor s' = AssociatedActor s"
proof -
  let ?c = "BufferCapacity pr" and ?t = "receiveTlsBufferTail s"
  have K: "length (ReceiveTlsBuffer s) = ?c" "?t < ?c" "receiveTlsBufferHead s < ?c"
    using assms(3) by (simp_all add: session_ok_def)
  have "ring_size ?c (receiveTlsBufferHead s) ?t = 0"
    using assms(5) K(1) by (simp add: tls_in_def flip: length_0_conv)
  then have h: "receiveTlsBufferHead s = ?t" using ring_tail_eq [OF K(3,2)] K(3) by simp
  have fit: "?t + length ds \<le> ?c" using assms(6) K(2) by simp
  define s2 where "s2 = (set_online IoType_Receive False (s\<lparr>ReceiveTlsBuffer := buf\<rparr>))
    \<lparr>receiveTlsBufferTail := (?t + length ds) mod ?c\<rparr>"
  have P: "TryPostReceive T pr (length ds) (s\<lparr>ReceiveTlsBuffer := buf\<rparr>) = post_receive_loop T pr s2"
    by (simp add: TryPostReceive_def s2_def set_online_def)
  have s2: "session_ok pr s2" "Ssl s2 = Some y" "isIoOnline s2 = (isIoOnline s)(IoType_Receive := False)"
    "shouldClose s2 = shouldClose s" "AssociatedActor s2 = AssociatedActor s" "app_content s2 = app_content s"
    using assms(3,4) block_content(1) [OF K(1,2) st fit] K(2)
    by (auto simp: s2_def set_online_def session_ok_def app_ok_def app_content_def)
  have in2: "tls_in s2 = (if length ds = ?c then [] else ds)"
    using block_content(2) [OF K(1,2) st fit] h by (simp add: s2_def set_online_def tls_in_def)
  obtain ok s' y' Q where r: "post_receive_loop T pr s2 = Some (Inr (ok, s'))" "Ssl s' = Some y'"
    "session_ok pr s'" "fed V y' = fed V y @ tls_in s2" "tls_in s' = []" "delivered V y' = delivered V y @ Q"
    "app_content s' = (if ok then app_content s2 @ Q else app_content s2)"
    by (rule post_receive_returns [OF assms(1,2) s2(1,2)])
  show thesis
    using that r post_receive_loop_flags [OF r(1)] s2(3-6) unfolding P in2 same_flags_def by metis
qed

text \<open>The next receive is posted after a block, since the receive TLS buffer is empty then.\<close>

lemma set_online_actor [simp]: "AssociatedActor (set_online io b s) = AssociatedActor s"
  by (simp add: set_online_def)

lemma next_receive:
  assumes "session_ok pr s" and "tls_in s = []" and "\<not> shouldClose s" and "\<not> isIoOnline s IoType_Receive"
  shows "\<exists>p. TryReceiveAsync pr True s = (Some p, set_online IoType_Receive True s)"
proof -
  have K: "length (ReceiveTlsBuffer s) = BufferCapacity pr" "receiveTlsBufferTail s < BufferCapacity pr"
    using assms(1) by (simp_all add: session_ok_def)
  have "ring_size (BufferCapacity pr) (receiveTlsBufferHead s) (receiveTlsBufferTail s) = 0"
    using assms(2) K(1) by (simp add: tls_in_def flip: length_0_conv)
  moreover have "1 < BufferCapacity pr" using K(2) by (cases "MessageMaxSize pr") (simp_all add: BufferCapacity_def)
  ultimately show ?thesis
    using assms(3,4) K(2) by (simp add: TryReceiveAsync_def GetRingBufferSize_eq Let_def)
qed


section \<open>Properties\<close>

text \<open>
  A received block.  The receive TLS buffer is empty, as every \<open>TryPostReceive\<close> leaves it, and
  \<open>WSARecv\<close> may write up to the region \<open>TryReceiveAsync\<close> gave it.  If the engine never wants to write
  (it has memory BIOs), \<open>TryPostReceive\<close> returns, all bytes of the block are given to the engine in
  order, and the buffer is empty again.  The exception: a block of exactly \<open>BufferCapacity\<close> bytes,
  which is offered when the tail is 0, leaves the tail where it was; all its bytes are lost.
\<close>

theorem received_block:
  assumes "tls_laws T V" and "\<not> wants_write T" and "session_ok pr s" and "Ssl s = Some y" and "tls_in s = []"
    and "TryReceiveAsync pr True s = (Some (pos, len), s1)" and "length ds \<le> len"
    and "store_bytes (ReceiveTlsBuffer s1) pos ds = Inr buf"
  shows "\<exists>ok s' y'. TryPostReceive T pr (length ds) (s1\<lparr>ReceiveTlsBuffer := buf\<rparr>) = Some (Inr (ok, s')) \<and>
    Ssl s' = Some y' \<and> session_ok pr s' \<and> tls_in s' = [] \<and>
    fed V y' = fed V y @ (if length ds = BufferCapacity pr then [] else ds)"
proof -
  have s1: "s1 = set_online IoType_Receive True s" "pos = receiveTlsBufferTail s" "len = BufferCapacity pr - receiveTlsBufferTail s"
    using assms(6) by (auto simp: TryReceiveAsync_def Let_def split: if_splits)
  have tail: "receiveTlsBufferTail s1 = receiveTlsBufferTail s" by (simp add: s1(1) set_online_def)
  have "session_ok pr s1" "Ssl s1 = Some y" "tls_in s1 = []" using assms(3-5) by (simp_all add: s1(1))
  from block_received [OF assms(1,2) this, of ds buf] assms(7,8) show ?thesis unfolding s1(2,3) tail by metis
qed

lemma null_never_writes: "\<not> wants_write null_tls"
  by (auto simp: wants_write_def null_tls_def Let_def)

lemma fresh_demo:
  "session_ok demo_protocol (new_session demo_protocol null_start 7 ''Auth'')"
  "tls_in (new_session demo_protocol null_start 7 ''Auth'') = []"
  by (simp_all add: session_ok_new [OF demo_facts(1)])

lemma fresh_demo_receive:
  "Ssl (new_session demo_protocol null_start 7 ''Auth'') = Some null_start"
  "TryReceiveAsync demo_protocol True (new_session demo_protocol null_start 7 ''Auth'') =
     (Some (0, 16), set_online IoType_Receive True (new_session demo_protocol null_start 7 ''Auth''))"
  "store_bytes (ReceiveTlsBuffer (set_online IoType_Receive True (new_session demo_protocol null_start 7 ''Auth'')))
     0 (replicate 16 1) = Inr (replicate 16 1)"
  "BufferCapacity demo_protocol = 16" "fed null_view null_start = []"
  by (simp_all add: TryReceiveAsync_def new_session_def BufferCapacity_def GetRingBufferSize_def demo_protocol_def
      set_online_def store_bytes_def null_view_def null_start_def)

theorem received_block_witness:
  "\<exists>ok s' y'. TryPostReceive null_tls demo_protocol 16
       ((set_online IoType_Receive True (new_session demo_protocol null_start 7 ''Auth''))
          \<lparr>ReceiveTlsBuffer := replicate 16 1\<rparr>) = Some (Inr (ok, s')) \<and>
     Ssl s' = Some y' \<and> fed null_view y' = []"
  using received_block [OF null_laws null_never_writes fresh_demo(1) fresh_demo_receive(1) fresh_demo(2) fresh_demo_receive(2), of "replicate 16 1"]
    fresh_demo_receive(3-5)
  by auto

text \<open>
  Closing while a receive is in flight frees the TLS engine at once, but the completion of this
  receive may already be queued as a success.  Its handler does not look at \<open>shouldClose\<close>: it uses the
  freed engine.
\<close>

theorem completion_after_close:
  assumes "session_ok pr s" and "isIoOnline s IoType_Receive" and "\<not> shouldClose s" and "tls_in s = []"
    and "0 < n" and "n < BufferCapacity pr"
  shows "\<exists>s1. Close s = (False, s1) \<and> TryPostReceive T pr n s1 = Some (Inl UseAfterFree)"
proof -
  let ?c = "BufferCapacity pr" and ?t = "receiveTlsBufferTail s"
  define s1 where "s1 = s\<lparr>shouldClose := True, Ssl := None\<rparr>"
  have c: "Close s = (False, s1)" using assms(2,3) by (auto simp: Close_def Cleanup_def s1_def Let_def)
  have K: "length (ReceiveTlsBuffer s) = ?c" "?t < ?c" "receiveTlsBufferHead s < ?c"
    using assms(1) by (simp_all add: session_ok_def)
  have "ring_size ?c (receiveTlsBufferHead s) ?t = 0"
    using assms(4) K(1) by (simp add: tls_in_def flip: length_0_conv)
  then have h: "receiveTlsBufferHead s = ?t" using ring_tail_eq [OF K(3,2)] K(3) by simp
  define t' where "t' = (?t + n) mod ?c"
  have "ring_size ?c ?t t' = n" using ring_size_tail [OF K(2) assms(6)] by (simp add: t'_def)
  then have ne: "ring_size ?c ?t t' \<noteq> 0" using assms(5) by simp
  have t': "t' < ?c" using K(2) by (simp add: t'_def)
  define m where "m = (if ?t \<le> t' then t' - ?t else ?c - ?t)"
  have m: "m \<noteq> 0" "?t + m \<le> ?c" using ne t' K(2) by (auto simp: m_def ring_size_def split: if_splits)
  have "bio_write_at T (ReceiveTlsBuffer s) ?t m None = Inl UseAfterFree"
    using load_contiguous [of ?t m "ReceiveTlsBuffer s"] m(2) K(1) by (simp add: bio_write_at_def)
  then have f: "feed_bio T ?c (ReceiveTlsBuffer s) ?t t' 0 None = Some (Inl UseAfterFree)"
    using m(1) K(2) by (subst feed_bio.simps) (simp add: Let_def m_def [symmetric])
  have "TryPostReceive T pr n s1 = Some (Inl UseAfterFree)"
    using f h unfolding TryPostReceive_def
    by (subst post_receive_loop.simps)
      (simp add: s1_def TryProcessReceiveBuffers_def Let_def set_online_def t'_def)
  then show ?thesis using c by blast
qed

theorem completion_after_close_witness:
  "\<exists>s1. Close (set_online IoType_Receive True (new_session demo_protocol null_start 7 ''Auth'')) = (False, s1) \<and>
     TryPostReceive null_tls demo_protocol 3 s1 = Some (Inl UseAfterFree)"
  by (rule completion_after_close)
    (auto simp: fresh_demo fresh_demo_receive(4))

end
