(* ===== verification/Send_Steps.thy ===== *)
theory Send_Steps
  imports Session_Io
begin

text \<open>
  The sending of a session by several threads, in finer steps than in \<open>Session_Io\<close>: \<open>TrySendAsync\<close> and \<open>TryPostSend\<close> are cut
  where they release \<open>ioOperationMutexes_\<close>.  A producer pushes a message and posts a request to send; the worker threads of
  the server handle this request and the completions of \<open>WSASend\<close>, all at the same time, since they lock \<open>sessionsMutex_\<close>
  shared.  The loop of \<open>TrySendAsync\<close> is one step.  Four theorems: no message is forgotten; the bytes are sent in order if
  the halves of \<open>TryPostSend\<close> are not interrupted; then the TLS records of all messages pushed arrive at the socket, in order
  and complete; and if the halves are interrupted, bytes are sent twice.
\<close>

section \<open>The two methods in parts\<close>

text \<open>\<open>TrySendAsync\<close> under its first lock: the result if it returns there.\<close>

definition begin_send :: "'t session \<Rightarrow> bool option \<times> 't session" where
  "begin_send s =
     (if isIoOnline s IoType_Send then (Some True, s)
      else if shouldClose s then (Some False, s)
      else if sendTlsBufferHead s = sendTlsBufferTail s \<and> sendAppQueue s = [] then (Some True, s)
      else (None, set_online IoType_Send True s))"

text \<open>The part of the send TLS buffer that is given to \<open>WSASend\<close>.\<close>

definition send_window :: "session_protocol \<Rightarrow> 't session \<Rightarrow> nat \<times> nat" where
  "send_window pr s =
     (let loadedHead = sendTlsBufferHead s; loadedTail = sendTlsBufferTail s
      in (loadedHead, if loadedHead \<le> loadedTail then loadedTail - loadedHead else BufferCapacity pr - loadedHead))"

definition window_bytes :: "session_protocol \<Rightarrow> 't session \<Rightarrow> u8 list" where
  "window_bytes pr s = take (snd (send_window pr s)) (drop (fst (send_window pr s)) (SendTlsBuffer s))"

text \<open>The two halves of \<open>TryPostSend\<close>: under the lock, and after it.\<close>

definition clear_send :: "'t session \<Rightarrow> 't session" where
  "clear_send s = set_online IoType_Send False s"

definition advance_head :: "session_protocol \<Rightarrow> nat \<Rightarrow> 't session \<Rightarrow> 't session" where
  "advance_head pr bytesTransferred s =
     s\<lparr>sendTlsBufferHead := (sendTlsBufferHead s + bytesTransferred) mod BufferCapacity pr\<rparr>"

lemma TrySendAsync_parts:
  "TrySendAsync T pr sendOk s =
     (case begin_send s of
        (Some result, s1) \<Rightarrow> Some (Inr (result, None, s1))
      | (None, s1) \<Rightarrow> bindO (send_loop T pr s1) (\<lambda>(ok, s2).
          if ok \<and> sendOk then Some (Inr (True, Some (send_window pr s2), s2)) else Some (Inr (False, None, clear_send s2))))"
proof -
  have "isIoOnline s IoType_Send \<or> set_online IoType_Send False (set_online IoType_Send True s) = s"
    by (cases s) (auto simp: set_online_def fun_upd_idem)
  then show ?thesis
    by (auto simp: TrySendAsync_def begin_send_def send_window_def clear_send_def Let_def intro!: arg_cong [where f = "bindO _"])
qed

lemma TryPostSend_parts: "TryPostSend pr n s = (True, advance_head pr n (clear_send s))"
  by (simp add: TryPostSend_def advance_head_def clear_send_def set_online_def)

section \<open>Steps\<close>

text \<open>
  Where a thread is: after \<open>PushMessage\<close>; with the overlapped structure of a request in hand; with a request taken from the
  port; before \<open>TrySendAsync\<close>; in its loop; before \<open>WSASend\<close>; after a failure, before the flag is cleared; with a completion of
  so many bytes taken from the port; between the halves of \<open>TryPostSend\<close>; before the clean-up.
\<close>

datatype send_pc =
    Idle | Pushed | Posting | Initiated | Trying | Processing | Sending | Failing | Completed nat | Advancing nat | Broken

text \<open>
  \<open>requests\<close> and \<open>sends\<close> are owed by the completion port, a send with the bytes that were offered.  \<open>wire\<close> are the bytes
  that WinSock has sent, \<open>produced\<close> those that were put into the send TLS buffer, \<open>pushed\<close> the messages that were pushed; the
  code has none of the three.
\<close>

record 't sender =
  sess :: "'t session"
  threadOf :: "nat \<Rightarrow> send_pc"
  requests :: nat
  sends :: "u8 list list"
  wire :: "u8 list"
  produced :: "u8 list"
  pushed :: "u8 list list"

definition new_sender :: "'t session \<Rightarrow> 't sender" where
  "new_sender s = \<lparr>sess = s, threadOf = (\<lambda>t. Idle), requests = 0, sends = [], wire = [], produced = [], pushed = []\<rparr>"

abbreviation goes :: "nat \<Rightarrow> send_pc \<Rightarrow> 't sender \<Rightarrow> 't sender" where
  "goes t p d \<equiv> d\<lparr>threadOf := (threadOf d)(t := p)\<rparr>"

text \<open>Pushing and requesting; the completion of a request.\<close>

inductive request_step :: "session_protocol \<Rightarrow> nat \<Rightarrow> 't sender \<Rightarrow> 't sender \<Rightarrow> bool" for pr t where
  push: "threadOf d t = Idle \<Longrightarrow> PushMessage pr ty body (sess d) = Inr s' \<Longrightarrow>
    request_step pr t d (goes t Pushed (d\<lparr>sess := s', pushed := pushed d @ [frame (ty, body)]\<rparr>))"
| initiate: "threadOf d t = Pushed \<Longrightarrow> InitiateSendAsync (sess d) = (overlapped, s') \<Longrightarrow>
    request_step pr t d (goes t (if overlapped then Posting else Idle) (d\<lparr>sess := s'\<rparr>))"
| post: "threadOf d t = Posting \<Longrightarrow> request_step pr t d (goes t Idle (d\<lparr>requests := Suc (requests d)\<rparr>))"
| take_request: "threadOf d t = Idle \<Longrightarrow> requests d = Suc n \<Longrightarrow>
    request_step pr t d (goes t Initiated (d\<lparr>requests := n\<rparr>))"
| initiated: "threadOf d t = Initiated \<Longrightarrow>
    request_step pr t d (goes t Trying (d\<lparr>sess := PostInitiateSend (sess d)\<rparr>))"

text \<open>
  \<open>TrySendAsync\<close>; a thread for which it fails cleans the session up.  (In the handler of a request this clean-up locks
  \<open>sessionsMutex_\<close> again and does not return, see \<open>Net_Server\<close>; such a thread stays \<open>Broken\<close> here.)
\<close>

inductive send_step :: "'t tls \<Rightarrow> session_protocol \<Rightarrow> nat \<Rightarrow> 't sender \<Rightarrow> 't sender \<Rightarrow> bool" for T pr t where
  begins: "threadOf d t = Trying \<Longrightarrow> begin_send (sess d) = (r, s') \<Longrightarrow>
    send_step T pr t d (goes t (case r of None \<Rightarrow> Processing | Some ok \<Rightarrow> if ok then Idle else Broken) (d\<lparr>sess := s'\<rparr>))"
| process: "threadOf d t = Processing \<Longrightarrow> send_loop T pr (sess d) = Some (Inr (ok, s')) \<Longrightarrow>
    send_step T pr t d (goes t (if ok then Sending else Failing)
      (d\<lparr>sess := s', produced := produced d @ drop (length (tls_out (sess d))) (tls_out s')\<rparr>))"
| hand_over: "threadOf d t = Sending \<Longrightarrow>
    send_step T pr t d (goes t Idle (d\<lparr>sends := sends d @ [window_bytes pr (sess d)]\<rparr>))"
| refused: "threadOf d t = Sending \<Longrightarrow> send_step T pr t d (goes t Failing d)"
| fails: "threadOf d t = Failing \<Longrightarrow> send_step T pr t d (goes t Broken (d\<lparr>sess := clear_send (sess d)\<rparr>))"
| cleans_up: "threadOf d t = Broken \<Longrightarrow> send_step T pr t d (goes t Idle (d\<lparr>sess := snd (Close (sess d))\<rparr>))"

text \<open>The completion of a send, after a part or all of the bytes, or failed; then \<open>TryPostSend\<close> and \<open>TrySendAsync\<close>.\<close>

inductive completion_step :: "session_protocol \<Rightarrow> nat \<Rightarrow> 't sender \<Rightarrow> 't sender \<Rightarrow> bool" for pr t where
  take_send: "threadOf d t = Idle \<Longrightarrow> sends d = bs # rest \<Longrightarrow> k \<le> length bs \<Longrightarrow>
    completion_step pr t d (goes t (Completed k) (d\<lparr>sends := rest, wire := wire d @ take k bs\<rparr>))"
| take_failed: "threadOf d t = Idle \<Longrightarrow> sends d = bs # rest \<Longrightarrow>
    completion_step pr t d (goes t Failing (d\<lparr>sends := rest\<rparr>))"
| clears: "threadOf d t = Completed k \<Longrightarrow>
    completion_step pr t d (goes t (Advancing k) (d\<lparr>sess := clear_send (sess d)\<rparr>))"
| advances: "threadOf d t = Advancing k \<Longrightarrow>
    completion_step pr t d (goes t Trying (d\<lparr>sess := advance_head pr k (sess d)\<rparr>))"

inductive thread_step :: "'t tls \<Rightarrow> session_protocol \<Rightarrow> nat \<Rightarrow> 't sender \<Rightarrow> 't sender \<Rightarrow> bool" for T pr t where
  by_request: "request_step pr t d d' \<Longrightarrow> thread_step T pr t d d'"
| by_send: "send_step T pr t d d' \<Longrightarrow> thread_step T pr t d d'"
| by_completion: "completion_step pr t d d' \<Longrightarrow> thread_step T pr t d d'"

text \<open>A step of some thread.\<close>

inductive drive_step :: "'t tls \<Rightarrow> session_protocol \<Rightarrow> 't sender \<Rightarrow> 't sender \<Rightarrow> bool" for T pr where
  by_thread: "thread_step T pr t d d' \<Longrightarrow> drive_step T pr d d'"

inductive_simps thread_step_iff: "thread_step T pr t d d'"

inductive_simps drive_step_iff: "drive_step T pr d d'"

section \<open>Somebody will send\<close>

text \<open>The flags have a holder each, and what waits to be sent has somebody who will look at it.\<close>

definition busy :: "send_pc \<Rightarrow> bool" where
  "busy p \<longleftrightarrow> (case p of Processing \<Rightarrow> True | Sending \<Rightarrow> True | Failing \<Rightarrow> True | Completed k \<Rightarrow> True | _ \<Rightarrow> False)"

definition unsent :: "'t session \<Rightarrow> bool" where
  "unsent s \<longleftrightarrow> sendTlsBufferHead s \<noteq> sendTlsBufferTail s \<or> sendAppQueue s \<noteq> []"

text \<open>Some thread is at such a place.\<close>

definition somewhere :: "(send_pc \<Rightarrow> bool) \<Rightarrow> (nat \<Rightarrow> send_pc) \<Rightarrow> bool" where
  "somewhere P f \<longleftrightarrow> (\<exists>t. P (f t))"

abbreviation requesting :: "send_pc \<Rightarrow> bool" where
  "requesting p \<equiv> p = Posting \<or> p = Initiated"

definition drive_ok :: "'t sender \<Rightarrow> bool" where
  "drive_ok d \<longleftrightarrow>
     (isIoOnline (sess d) IoType_Send \<longrightarrow> sends d \<noteq> [] \<or> somewhere busy (threadOf d)) \<and>
     (isIoOnline (sess d) IoType_InitiateSend \<longrightarrow> requests d \<noteq> 0 \<or> somewhere requesting (threadOf d)) \<and>
     (unsent (sess d) \<longrightarrow> shouldClose (sess d) \<or> requests d \<noteq> 0 \<or> sends d \<noteq> [] \<or> somewhere (\<lambda>p. p \<noteq> Idle) (threadOf d))"

lemma somewhere_upd [simp]:
  "P q \<Longrightarrow> somewhere P (f(t := q))"
  "\<not> P q \<Longrightarrow> \<not> P (f t) \<Longrightarrow> somewhere P (f(t := q)) = somewhere P f"
  by (auto simp: somewhere_def intro: exI [of _ t])

lemma busy_simps [simp]:
  "\<not> busy Idle" "\<not> busy Pushed" "\<not> busy Posting" "\<not> busy Initiated" "\<not> busy Trying" "busy Processing" "busy Sending"
  "busy Failing" "busy (Completed k)" "\<not> busy (Advancing k)" "\<not> busy Broken"
  by (simp_all add: busy_def)

lemma PushMessage_fields:
  "PushMessage pr ty body s = Inr s' \<Longrightarrow> isIoOnline s' = isIoOnline s \<and> shouldClose s' = shouldClose s"
  by (auto simp: PushMessage_eq split: if_splits)

lemma clear_send_fields [simp]:
  "isIoOnline (clear_send s) = (isIoOnline s)(IoType_Send := False)" "shouldClose (clear_send s) = shouldClose s"
  by (simp_all add: clear_send_def)

lemma advance_head_fields [simp]:
  "isIoOnline (advance_head pr k s) = isIoOnline s" "shouldClose (advance_head pr k s) = shouldClose s"
  by (simp_all add: advance_head_def)

text \<open>A thread that goes idle leaves the others, so also the holder of a flag.\<close>

lemma idle_upd:
  assumes "somewhere P f" and "\<not> P (f t)" and "\<not> P Idle"
  shows "somewhere (\<lambda>p. p \<noteq> Idle) (f(t := Idle))"
proof -
  obtain u where "P (f u)" using assms(1) by (auto simp: somewhere_def)
  then have "(f(t := Idle)) u \<noteq> Idle" using assms(2,3) by auto
  then show ?thesis unfolding somewhere_def by blast
qed

lemma request_step_ok:
  assumes "request_step pr t d d'" and D: "drive_ok d"
  shows "drive_ok d'"
  using assms(1)
proof cases
  case (push ty body s')
  then show ?thesis using D PushMessage_fields [OF push(3)] by (simp add: drive_ok_def)
next
  case (initiate overlapped s')
  then show ?thesis using D idle_upd [of requesting "threadOf d" t]
    by (auto simp: drive_ok_def InitiateSendAsync_def split: if_splits)
next
  case post
  then show ?thesis using D by (simp add: drive_ok_def)
next
  case (take_request n)
  then show ?thesis using D by (simp add: drive_ok_def)
next
  case initiated
  then show ?thesis using D by (simp add: drive_ok_def PostInitiateSend_def)
qed

lemma send_step_ok:
  assumes "send_step T pr t d d'" and D: "drive_ok d"
  shows "drive_ok d'"
  using assms(1)
proof cases
  case (begins r s')
  show ?thesis
  proof (cases "r = Some True")
    case False
    then show ?thesis using begins D by (auto simp: drive_ok_def begin_send_def split: if_splits)
  next
    case True
    then have "s' = sess d" "isIoOnline (sess d) IoType_Send \<or> \<not> unsent (sess d)"
      using begins(3) by (auto simp: begin_send_def unsent_def split: if_splits)
    then show ?thesis using begins(1,2) True D idle_upd [of busy "threadOf d" t] by (auto simp: drive_ok_def)
  qed
next
  case (process ok s')
  then show ?thesis using D send_loop_flags [OF process(3)] by (simp add: drive_ok_def same_flags_def)
next
  case hand_over
  then show ?thesis using D by (simp add: drive_ok_def)
next
  case refused
  then show ?thesis using D by (simp add: drive_ok_def)
next
  case fails
  then show ?thesis using D by (simp add: drive_ok_def)
next
  case cleans_up
  have "isIoOnline (snd (Close (sess d))) = isIoOnline (sess d)" "shouldClose (snd (Close (sess d)))"
    by (simp_all add: Close_def Cleanup_def Let_def)
  then show ?thesis using cleans_up D by (simp add: drive_ok_def)
qed

lemma completion_step_ok:
  assumes "completion_step pr t d d'" and D: "drive_ok d"
  shows "drive_ok d'"
  using assms(1) by cases (use D in \<open>simp_all add: drive_ok_def\<close>)

lemma drive_step_ok: "drive_step T pr d d' \<Longrightarrow> drive_ok d \<Longrightarrow> drive_ok d'"
  by (auto simp: drive_step_iff thread_step_iff intro: request_step_ok send_step_ok completion_step_ok)

interpretation drive: step_system "drive_step T pr" drive_ok for T pr
  by unfold_locales (rule drive_step_ok)

lemma new_sender_ok: "isIoOnline s = (\<lambda>io. False) \<Longrightarrow> \<not> unsent s \<Longrightarrow> drive_ok (new_sender s)"
  by (simp add: drive_ok_def new_sender_def)

section \<open>The bytes in order\<close>

text \<open>
  A step in which no thread begins to send while another one is between the halves of \<open>TryPostSend\<close>.
\<close>

definition orderly_step :: "'t tls \<Rightarrow> session_protocol \<Rightarrow> 't sender \<Rightarrow> 't sender \<Rightarrow> bool" where
  "orderly_step T pr d d' \<longleftrightarrow> drive_step T pr d d' \<and>
     (\<forall>t u k. threadOf d t = Trying \<and> threadOf d' t = Processing \<longrightarrow> threadOf d u \<noteq> Advancing k)"

lemma send_needs_engine:
  assumes "send_loop T pr s = Some (Inr (ok, s'))"
  shows "Ssl s \<noteq> None"
proof
  assume n: "Ssl s = None"
  have "TryProcessSendBuffers T pr s \<noteq> Some (Inr p)" for p
    using n by (cases "sendAppQueue s") (auto simp: TryProcessSendBuffers_def Let_def flush_bio.simps [of T _ _ _ _ _ None])
  then show False using assms by (subst (asm) send_loop.simps) (auto elim!: bindO_elim)
qed

lemma send_loop_out:
  assumes T: "tls_laws T V" and "send_loop T pr s = Some (Inr (ok, s'))" and "session_ok pr s"
  shows "session_ok pr s' \<and> (\<exists>Q. tls_out s' = tls_out s @ Q)"
proof -
  let ?R = "\<lambda>s s'. session_ok pr s \<and> Ssl s \<noteq> None \<longrightarrow> session_ok pr s' \<and> Ssl s' \<noteq> None \<and> (\<exists>Q. tls_out s' = tls_out s @ Q)"
  have "?R s s'"
  proof (rule send_loop_rel [OF assms(2)])
    fix s r s'
    assume r: "TryProcessSendBuffers T pr s = Some (Inr (r, s'))"
    show "?R s s'"
    proof (intro impI, elim conjE)
      assume ok: "session_ok pr s" and "Ssl s \<noteq> None"
      then obtain y where "Ssl s = Some y" by blast
      from send_spec [OF T ok this] obtain r1 s1 y1 q where
        "TryProcessSendBuffers T pr s = Some (Inr (r1, s1))" "Ssl s1 = Some y1" "session_ok pr s1"
        "tls_out s1 = (if r1 = SendFailed then tls_out s else tls_out s @ q)" by metis
      then show "session_ok pr s' \<and> Ssl s' \<noteq> None \<and> (\<exists>Q. tls_out s' = tls_out s @ Q)" using r by auto
    qed
  next
    fix s r s'
    assume r: "TryProcessReceiveBuffers T pr s = Some (Inr (r, s'))"
    show "?R s s'"
    proof (intro impI, elim conjE)
      assume ok: "session_ok pr s" and "Ssl s \<noteq> None"
      then obtain y where "Ssl s = Some y" by blast
      from receive_spec [OF T ok this] obtain r1 s1 y1 where
        "TryProcessReceiveBuffers T pr s = Some (Inr (r1, s1))" "Ssl s1 = Some y1" "session_ok pr s1" "tls_out s1 = tls_out s"
        by metis
      then show "session_ok pr s' \<and> Ssl s' \<noteq> None \<and> (\<exists>Q. tls_out s' = tls_out s @ Q)" using r by auto
    qed
  next
    show "?R s u" if "?R s t" "?R t u" for s t u using that by (metis append.assoc)
  qed
  then show ?thesis using assms(3) send_needs_engine [OF assms(2)] by blast
qed

lemma window_prefix:
  assumes "session_ok pr s"
  shows "\<exists>rest. tls_out s = window_bytes pr s @ rest"
proof -
  let ?h = "sendTlsBufferHead s" and ?t = "sendTlsBufferTail s" and ?b = "SendTlsBuffer s"
  have K: "length ?b = BufferCapacity pr" "?h < BufferCapacity pr" "?t < BufferCapacity pr"
    using assms by (auto simp: session_ok_def)
  let ?n = "snd (send_window pr s)"
  have n: "?h + ?n \<le> length ?b" "?n \<le> ring_size (length ?b) ?h ?t"
    using K by (auto simp: send_window_def Let_def ring_size_def)
  have "window_bytes pr s = ring_bytes ?b ?h ?n"
    using load_contiguous [OF n(1)] n(1) by (simp add: window_bytes_def load_bytes_def send_window_def Let_def)
  also have "\<dots> = take ?n (tls_out s)" using n(2) by (simp add: tls_out_def ring_content_def ring_bytes_take)
  finally show ?thesis by (metis append_take_drop_id)
qed

lemma advance_head_out:
  assumes "session_ok pr s" and "k \<le> length (tls_out s)"
  shows "session_ok pr (advance_head pr k s)" "tls_out (advance_head pr k s) = drop k (tls_out s)"
proof -
  have K: "length (SendTlsBuffer s) = BufferCapacity pr" "sendTlsBufferHead s < BufferCapacity pr" "sendTlsBufferTail s < BufferCapacity pr"
    using assms(1) by (auto simp: session_ok_def)
  show "session_ok pr (advance_head pr k s)" using assms(1) K by (simp add: session_ok_def app_ok_def advance_head_def)
  show "tls_out (advance_head pr k s) = drop k (tls_out s)"
    using ring_content_pop(1) [of "sendTlsBufferHead s" "SendTlsBuffer s" "sendTlsBufferTail s" k] K assms(2)
    by (simp add: tls_out_def advance_head_def)
qed

lemma same_out:
  "session_ok pr (clear_send s) = session_ok pr s" "tls_out (clear_send s) = tls_out s"
  "session_ok pr (PostInitiateSend s) = session_ok pr s" "tls_out (PostInitiateSend s) = tls_out s"
  "session_ok pr (snd (Close s)) = session_ok pr s" "tls_out (snd (Close s)) = tls_out s"
  "isIoOnline (snd (Close s)) = isIoOnline s" "isIoOnline (PostInitiateSend s) IoType_Send = isIoOnline s IoType_Send"
  by (simp_all add: clear_send_def PostInitiateSend_def set_online_def Close_def Cleanup_def Let_def session_ok_def app_ok_def tls_out_def)

text \<open>Who has the right to send: nobody, an operation that WinSock has, or a thread.\<close>

datatype token = Free | InFlight | Held nat

definition holder :: "send_pc \<Rightarrow> bool" where
  "holder p \<longleftrightarrow> busy p \<or> (\<exists>k. p = Advancing k)"

definition taken :: "send_pc \<Rightarrow> nat" where
  "taken p = (case p of Completed k \<Rightarrow> k | Advancing k \<Rightarrow> k | _ \<Rightarrow> 0)"

lemma holder_simps [simp]:
  "\<not> holder Idle" "\<not> holder Pushed" "\<not> holder Posting" "\<not> holder Initiated" "\<not> holder Trying" "holder Processing" "holder Sending"
  "holder Failing" "holder (Completed k)" "holder (Advancing k)" "\<not> holder Broken"
  by (simp_all add: holder_def)

lemma taken_simps [simp]:
  "taken Processing = 0" "taken Sending = 0" "taken Failing = 0" "taken (Completed k) = k" "taken (Advancing k) = k"
  by (simp_all add: taken_def)

definition gone :: "token \<Rightarrow> 't sender \<Rightarrow> nat" where
  "gone c d = (case c of Held t \<Rightarrow> taken (threadOf d t) | _ \<Rightarrow> 0)"

definition token_ok :: "token \<Rightarrow> 't sender \<Rightarrow> bool" where
  "token_ok c d \<longleftrightarrow>
     (case c of
        Free \<Rightarrow> sends d = [] \<and> (\<forall>u. \<not> holder (threadOf d u)) \<and> \<not> isIoOnline (sess d) IoType_Send
      | InFlight \<Rightarrow> (\<exists>bs rest. sends d = [bs] \<and> tls_out (sess d) = bs @ rest) \<and> (\<forall>u. \<not> holder (threadOf d u)) \<and>
          isIoOnline (sess d) IoType_Send
      | Held t \<Rightarrow> sends d = [] \<and> holder (threadOf d t) \<and> (\<forall>u. holder (threadOf d u) \<longrightarrow> u = t) \<and>
          (isIoOnline (sess d) IoType_Send \<longleftrightarrow> busy (threadOf d t)))"

definition order_ok :: "session_protocol \<Rightarrow> token \<Rightarrow> 't sender \<Rightarrow> bool" where
  "order_ok pr c d \<longleftrightarrow> session_ok pr (sess d) \<and> token_ok c d \<and> gone c d \<le> length (tls_out (sess d)) \<and>
     wire d @ drop (gone c d) (tls_out (sess d)) = produced d"

lemma order_held: "order_ok pr c d \<Longrightarrow> holder (threadOf d t) \<Longrightarrow> c = Held t"
  by (cases c) (auto simp: order_ok_def token_ok_def)

text \<open>A thread without the token that stays without it.\<close>

lemma order_keep:
  assumes "order_ok pr c d" and "\<not> holder (threadOf d t)" and "\<not> holder p"
    and "threadOf d' = (threadOf d)(t := p)" and "sends d' = sends d" and "wire d' = wire d" and "produced d' = produced d"
    and "session_ok pr (sess d')" and "tls_out (sess d') = tls_out (sess d)"
    and "isIoOnline (sess d') IoType_Send = isIoOnline (sess d) IoType_Send"
  shows "order_ok pr c d'"
proof -
  have h: "holder (threadOf d' u) \<longleftrightarrow> holder (threadOf d u)" for u using assms(2-4) by simp
  have same: "threadOf d' u = threadOf d u" if "holder (threadOf d u)" for u using assms(2,4) that by auto
  have "token_ok c d'" "gone c d' = gone c d"
    using assms(1,5,9,10) h same by (cases c; auto simp: order_ok_def token_ok_def gone_def)+
  then show ?thesis using assms by (simp add: order_ok_def)
qed

lemma request_step_order:
  assumes "request_step pr t d d'" and D: "order_ok pr c d"
  shows "order_ok pr c d'"
proof -
  have S: "session_ok pr (sess d)" using D by (simp add: order_ok_def)
  from assms(1) show ?thesis
  proof cases
    case (push ty body s')
    then have "s' = (sess d)\<lparr>sendAppQueue := sendAppQueue (sess d) @ [frame (ty, body)]\<rparr>"
      by (simp add: PushMessage_eq split: if_splits)
    then show ?thesis using push(1,2) S
      by (intro order_keep [OF D, of t Pushed]) (simp_all add: session_ok_def app_ok_def tls_out_def)
  next
    case (initiate overlapped s')
    then show ?thesis using S
      by (intro order_keep [OF D, of t "if overlapped then Posting else Idle"])
        (auto simp: InitiateSendAsync_def set_online_def session_ok_def app_ok_def tls_out_def split: if_splits)
  next
    case post
    then show ?thesis using S by (intro order_keep [OF D, of t Idle]) simp_all
  next
    case (take_request n)
    then show ?thesis using S by (intro order_keep [OF D, of t Initiated]) simp_all
  next
    case initiated
    then show ?thesis using S
      by (intro order_keep [OF D, of t Trying]) (simp_all add: same_out)
  qed
qed

lemma begin_order:
  assumes t: "threadOf d t = Trying" and b: "begin_send (sess d) = (None, s')" and D: "order_ok pr c d"
    and o: "\<And>u k. threadOf d u \<noteq> Advancing k"
  shows "order_ok pr (Held t) (goes t Processing (d\<lparr>sess := s'\<rparr>))"
proof -
  have off: "\<not> isIoOnline (sess d) IoType_Send" and s': "s' = set_online IoType_Send True (sess d)"
    using b by (auto simp: begin_send_def split: if_splits)
  have "c = Free"
  proof (cases c)
    case InFlight
    then show ?thesis using D off by (simp add: order_ok_def token_ok_def)
  next
    case (Held u)
    then have "holder (threadOf d u)" "\<not> busy (threadOf d u)" using D off by (auto simp: order_ok_def token_ok_def)
    then show ?thesis using o [of u] by (auto simp: holder_def)
  qed
  moreover have "session_ok pr s'" "tls_out s' = tls_out (sess d)" "isIoOnline s' IoType_Send"
    using D by (simp_all add: s' order_ok_def set_online_def session_ok_def app_ok_def tls_out_def)
  ultimately show ?thesis using D by (auto simp: order_ok_def token_ok_def gone_def)
qed

lemma send_step_order:
  assumes "send_step T pr t d d'" and D: "order_ok pr c d" and T: "tls_laws T V"
    and o: "\<And>u k. threadOf d t = Trying \<Longrightarrow> threadOf d' t = Processing \<Longrightarrow> threadOf d u \<noteq> Advancing k"
  shows "\<exists>c. order_ok pr c d'"
proof -
  have S: "session_ok pr (sess d)" using D by (simp add: order_ok_def)
  from assms(1) show ?thesis
  proof cases
    case (begins r s')
    show ?thesis
    proof (cases r)
      case None
      then show ?thesis using begin_order [OF begins(2) _ D, of s'] begins o by (intro exI) simp
    next
      case (Some ok)
      then have "s' = sess d" using begins(3) by (auto simp: begin_send_def split: if_splits)
      then show ?thesis using begins(1,2) Some S
        by (intro exI [of _ c] order_keep [OF D, of t "if ok then Idle else Broken"]) simp_all
    qed
  next
    case (process ok s')
    then have c: "c = Held t" by (intro order_held [OF D]) simp
    obtain Q where "session_ok pr s'" "tls_out s' = tls_out (sess d) @ Q" using send_loop_out [OF T process(3) S] by blast
    then show ?thesis using process D c send_loop_flags [OF process(3)]
      by (intro exI [of _ c]) (auto simp: order_ok_def token_ok_def gone_def same_flags_def)
  next
    case hand_over
    then have c: "c = Held t" by (intro order_held [OF D]) simp
    have "\<exists>bs rest. window_bytes pr (sess d) = bs \<and> tls_out (sess d) = bs @ rest" using window_prefix [OF S] by simp
    then show ?thesis using hand_over D c
      by (intro exI [of _ InFlight]) (auto simp: order_ok_def token_ok_def gone_def)
  next
    case refused
    then have c: "c = Held t" by (intro order_held [OF D]) simp
    show ?thesis using refused D c
      by (intro exI [of _ c]) (auto simp: order_ok_def token_ok_def gone_def)
  next
    case fails
    then have c: "c = Held t" by (intro order_held [OF D]) simp
    show ?thesis using fails D c
      by (intro exI [of _ Free]) (auto simp: order_ok_def token_ok_def gone_def same_out)
  next
    case cleans_up
    then show ?thesis using S
      by (intro exI [of _ c] order_keep [OF D, of t Idle]) (simp_all add: same_out)
  qed
qed

lemma completion_step_order:
  assumes "completion_step pr t d d'" and D: "order_ok pr c d"
  shows "\<exists>c. order_ok pr c d'"
proof -
  have S: "session_ok pr (sess d)" using D by (simp add: order_ok_def)
  from assms(1) show ?thesis
  proof cases
    case (take_send bs rest k)
    then have c: "c = InFlight" using D by (cases c) (auto simp: order_ok_def token_ok_def)
    have "take k bs @ drop k bs @ more = bs @ more" for more by (simp flip: append_assoc)
    note this [simp]
    show ?thesis using take_send D c
      by (intro exI [of _ "Held t"]) (auto simp: order_ok_def token_ok_def gone_def)
  next
    case (take_failed bs rest)
    then have c: "c = InFlight" using D by (cases c) (auto simp: order_ok_def token_ok_def)
    then show ?thesis using take_failed D
      by (intro exI [of _ "Held t"]) (auto simp: order_ok_def token_ok_def gone_def)
  next
    case (clears k)
    then have c: "c = Held t" by (intro order_held [OF D]) simp
    show ?thesis using clears D c
      by (intro exI [of _ c]) (auto simp: order_ok_def token_ok_def gone_def same_out)
  next
    case (advances k)
    then have c: "c = Held t" by (intro order_held [OF D]) simp
    then have k: "k \<le> length (tls_out (sess d))" using D advances(2) by (simp add: order_ok_def gone_def)
    show ?thesis using advances D c advance_head_out [OF S k]
      by (intro exI [of _ Free]) (auto simp: order_ok_def token_ok_def gone_def)
  qed
qed

lemma orderly_step_order:
  assumes s: "orderly_step T pr d d'" and D: "order_ok pr c d" and T: "tls_laws T V"
  shows "\<exists>c. order_ok pr c d'"
proof -
  have o: "threadOf d u \<noteq> Advancing k" if "threadOf d t = Trying" "threadOf d' t = Processing" for t u k
    using s that by (auto simp: orderly_step_def)
  from s obtain t where "thread_step T pr t d d'" by (auto simp: orderly_step_def drive_step_iff)
  then show ?thesis unfolding thread_step_iff
    using request_step_order [OF _ D] send_step_order [OF _ D T] o completion_step_order [OF _ D] by blast
qed

interpretation orderly: step_system "orderly_step T pr" "\<lambda>d. tls_laws T V \<and> (\<exists>c. order_ok pr c d)" for T pr V
  by unfold_locales (use orderly_step_order in blast)

lemma new_sender_order:
  "session_ok pr s \<Longrightarrow> tls_out s = [] \<Longrightarrow> \<not> isIoOnline s IoType_Send \<Longrightarrow> order_ok pr Free (new_sender s)"
  by (simp add: order_ok_def token_ok_def gone_def new_sender_def)

section \<open>Every message is sent\<close>

text \<open>
  An engine after its handshake, as documented: in the states \<open>E\<close> a write is accepted and appends the record of the message,
  which depends on the messages before it, to the write BIO.
\<close>

definition established ::
    "'t tls \<Rightarrow> 't tls_view \<Rightarrow> (u8 list list \<Rightarrow> u8 list \<Rightarrow> u8 list) \<Rightarrow> ('t \<Rightarrow> bool) \<Rightarrow> bool" where
  "established T V C E \<longleftrightarrow>
     (\<forall>y m. E y \<longrightarrow> fst (SSL_write T m y) = None \<and> E (snd (SSL_write T m y)) \<and>
        pending V (snd (SSL_write T m y)) = pending V y @ C (accepted V y) m) \<and>
     (\<forall>n y. E y \<longrightarrow> E (snd (BIO_read T n y)))"

fun records :: "(u8 list list \<Rightarrow> u8 list \<Rightarrow> u8 list) \<Rightarrow> u8 list list \<Rightarrow> u8 list list \<Rightarrow> u8 list" where
  "records C before [] = []"
| "records C before (m # ms) = C before m @ records C (before @ [m]) ms"

lemma records_append: "records C before (ms @ ns) = records C before ms @ records C (before @ ms) ns"
  by (induction ms arbitrary: before) simp_all

lemma established_write:
  assumes "tls_laws T V" and "established T V C E" and "E y"
  obtains y' where "SSL_write T m y = (None, y')" "E y'" "pending V y' = pending V y @ C (accepted V y) m"
    "accepted V y' = accepted V y @ [m]"
proof -
  obtain o' y' where w: "SSL_write T m y = (o', y')" by fastforce
  have "fst (SSL_write T m y) = None \<and> E (snd (SSL_write T m y)) \<and>
      pending V (snd (SSL_write T m y)) = pending V y @ C (accepted V y) m"
    using assms(2,3) unfolding established_def by blast
  then show thesis using that w tls_lawsD(4) [OF assms(1)] by simp
qed

lemma established_queue:
  assumes T: "tls_laws T V" and E: "established T V C E" and "E y"
  shows "\<exists>y'. write_queue T ms (Some y) = Inr (SendSuccess, [], Some y') \<and> E y' \<and>
    pending V y' = pending V y @ records C (accepted V y) ms \<and> accepted V y' = accepted V y @ ms"
  using assms(3)
proof (induction ms arbitrary: y)
  case (Cons m ms)
  obtain y1 where "SSL_write T m y = (None, y1)" "E y1" "pending V y1 = pending V y @ C (accepted V y) m"
    "accepted V y1 = accepted V y @ [m]" by (rule established_write [OF T E Cons.prems])
  then show ?case using Cons.IH [of y1] by simp
qed simp

lemma established_flush:
  assumes E: "established T V C E" and "E y"
    and "flush_bio T cap h t k buf (Some y) = Some (Inr (ok, k', buf', x'))"
  shows "\<exists>y'. x' = Some y' \<and> E y'"
proof -
  let ?P = "\<lambda>T1 (cap :: nat) (h :: nat) (t :: nat) (k :: nat) (buf :: buffer) x (r :: (bool \<times> nat \<times> buffer \<times> _) res).
    T1 = T \<longrightarrow> (\<forall>y p. x = Some y \<longrightarrow> E y \<longrightarrow> r = Inr p \<longrightarrow> (\<exists>y'. snd (snd (snd p)) = Some y' \<and> E y'))"
  have read: "\<exists>y'. x = Some y' \<and> E y'" if "bio_read_at T buf pos n y = Inr (k, buf', x)" "E y" for buf buf' pos n y k x
  proof -
    have "E (snd (BIO_read T n y))" using E that(2) by (simp add: established_def)
    then show ?thesis using that(1) by (auto simp: bio_read_at_def bindR_def split: prod.splits sum.splits)
  qed
  have "?P T cap h t k buf (Some y) (Inr (ok, k', buf', x'))"
  proof (rule flush_bio.raw_induct [where P = ?P and xa = "((((((T, cap), h), t), k), buf), Some y)", unfolded prod.case, OF _ assms(3)],
      intro allI impI)
    fix flush T1 cap h t k buf x r y p
    assume IH: "\<And>T1 cap h t k buf x r. flush T1 cap h t k buf x = Some r \<Longrightarrow> ?P T1 cap h t k buf x r"
      and eq: "T1 = T" "x = Some y" "E y" "r = Inr p"
      and body: "bindO (Some (use_ssl x)) (\<lambda>y. if BIO_pending T1 y = 0 then Some (Inr (True, k, buf, x))
        else let tail = (t + k) mod cap; sz = (if h \<le> tail then tail - h else cap - h + tail); n = min (cap - sz - 1) (cap - tail)
          in if n = 0 then Some (Inr (False, k, buf, x))
            else bindO (Some (bio_read_at T1 buf tail n y)) (\<lambda>p. if fst p = 0 then Some (Inr (False, k, snd p))
              else flush T1 cap h t (k + fst p) (fst (snd p)) (snd (snd p)))) = Some r"
    show "\<exists>y'. snd (snd (snd p)) = Some y' \<and> E y'"
    proof (cases "p = (True, k, buf, x) \<or> p = (False, k, buf, x)")
      case False
      from False body obtain pos n l b1 x1 where rd: "bio_read_at T buf pos n y = Inr (l, b1, x1)"
        "p = (False, k, b1, x1) \<or> flush T cap h t (k + l) b1 x1 = Some r"
        unfolding eq Let_def by (fastforce elim!: bindO_elim split: if_split_asm)
      show ?thesis using rd(2) read [OF rd(1) eq(3)] IH [of T cap h t "k + l" b1 x1 r] eq(4) by auto
    qed (use eq in auto)
  qed
  then show ?thesis using assms(2) by simp
qed

text \<open>One call of the loop of \<open>TrySendAsync\<close>: it fails, or it moves the records of all queued messages to the send TLS buffer.\<close>

lemma established_loop:
  assumes T: "tls_laws T V" and E: "established T V C E" and S: "session_ok pr s"
    and y: "Ssl s = Some y" "E y" "pending V y = []" and L: "send_loop T pr s = Some (Inr (True, s'))"
  shows "\<exists>y'. Ssl s' = Some y' \<and> E y' \<and> pending V y' = [] \<and> accepted V y' = accepted V y @ sendAppQueue s \<and>
    sendAppQueue s' = [] \<and> tls_out s' = tls_out s @ records C (accepted V y) (sendAppQueue s)"
proof -
  obtain y1 where W: "write_queue T (sendAppQueue s) (Some y) = Inr (SendSuccess, [], Some y1)" "E y1"
    "pending V y1 = records C (accepted V y) (sendAppQueue s)" "accepted V y1 = accepted V y @ sendAppQueue s"
    using established_queue [OF T E y(2), of "sendAppQueue s"] y(3) by auto
  obtain r s1 y' q r1 where P: "TryProcessSendBuffers T pr s = Some (Inr (r, s1))" "Ssl s1 = Some y'" "r1 = SendSuccess"
    "r = (if r1 \<noteq> SendFailed \<and> length (tls_out s @ pending V y1) < BufferCapacity pr then r1 else SendFailed)"
    "accepted V y' = accepted V y @ q" "sendAppQueue s = q" "sendAppQueue s1 = []"
    "tls_out s1 = (if r = SendFailed then tls_out s else tls_out s @ pending V y1)" "r \<noteq> SendFailed \<longrightarrow> pending V y' = []"
    by (rule send_spec [OF T S y(1)]) (simp add: W(1))
  have "r \<noteq> WantProcessReceiveBuffers" using P(3,4) by simp
  then have r: "r = SendSuccess" "s' = s1" using L P(1) by (cases r; simp add: send_loop.simps [of T pr s])+
  have "\<exists>y'. Ssl s1 = Some y' \<and> E y'"
    using P(1) W(1) r(1) y(1) unfolding TryProcessSendBuffers_def
    by (auto simp: Let_def elim!: bindO_elim split: if_splits dest!: established_flush [OF E W(2)])
  then show ?thesis using P r W(3) by auto
qed

text \<open>
  Nothing is lost: unless the session is closing or about to be, what the engine has accepted, followed by the queue, is what
  was pushed, and the records of what it has accepted were produced.
\<close>

definition nothing_lost ::
    "'t tls_view \<Rightarrow> (u8 list list \<Rightarrow> u8 list \<Rightarrow> u8 list) \<Rightarrow> ('t \<Rightarrow> bool) \<Rightarrow> u8 list list \<Rightarrow> 't sender \<Rightarrow> bool" where
  "nothing_lost V C E before d \<longleftrightarrow> shouldClose (sess d) \<or> somewhere (\<lambda>p. p = Failing \<or> p = Broken) (threadOf d) \<or>
     (\<exists>y ms. Ssl (sess d) = Some y \<and> E y \<and> pending V y = [] \<and> accepted V y = before @ ms \<and>
        pushed d = ms @ sendAppQueue (sess d) \<and> produced d = records C before ms)"

text \<open>A step that touches neither the engine nor the queue.\<close>

lemma nothing_lost_keep:
  assumes "nothing_lost V C E before d" and "threadOf d t \<noteq> Failing" "threadOf d t \<noteq> Broken"
    and "threadOf d' = (threadOf d)(t := p)" and "shouldClose (sess d) \<longrightarrow> shouldClose (sess d')"
    and "Ssl (sess d') = Ssl (sess d)" and "pushed d' = pushed d @ new" and "sendAppQueue (sess d') = sendAppQueue (sess d) @ new"
    and "produced d' = produced d"
  shows "nothing_lost V C E before d'"
proof -
  have "somewhere (\<lambda>p. p = Failing \<or> p = Broken) (threadOf d) \<Longrightarrow> somewhere (\<lambda>p. p = Failing \<or> p = Broken) (threadOf d')"
    using assms(2-4) by (cases "p = Failing \<or> p = Broken") simp_all
  then show ?thesis using assms(1,5-9) by (auto simp: nothing_lost_def)
qed

lemma nothing_lost_broken: "threadOf d' t = Failing \<or> threadOf d' t = Broken \<Longrightarrow> nothing_lost V C E before d'"
  by (auto simp: nothing_lost_def somewhere_def)

lemma request_step_nothing_lost:
  assumes "request_step pr t d d'" and D: "nothing_lost V C E before d"
  shows "nothing_lost V C E before d'"
  using assms(1)
proof cases
  case (push ty body s')
  then show ?thesis
    by (intro nothing_lost_keep [OF D, of t _ Pushed "[frame (ty, body)]"]) (auto simp: PushMessage_eq split: if_splits)
next
  case (initiate overlapped s')
  then show ?thesis
    by (intro nothing_lost_keep [OF D, of t _ "if overlapped then Posting else Idle" "[]"])
      (auto simp: InitiateSendAsync_def set_online_def split: if_splits)
next
  case post
  then show ?thesis by (intro nothing_lost_keep [OF D, of t _ Idle "[]"]) simp_all
next
  case (take_request n)
  then show ?thesis by (intro nothing_lost_keep [OF D, of t _ Initiated "[]"]) simp_all
next
  case initiated
  then show ?thesis by (intro nothing_lost_keep [OF D, of t _ Trying "[]"]) (simp_all add: PostInitiateSend_def set_online_def)
qed

lemma completion_step_nothing_lost:
  assumes "completion_step pr t d d'" and D: "nothing_lost V C E before d"
  shows "nothing_lost V C E before d'"
  using assms(1)
proof cases
  case (take_send bs rest k)
  then show ?thesis by (intro nothing_lost_keep [OF D, of t _ "Completed k" "[]"]) simp_all
next
  case (take_failed bs rest)
  then show ?thesis by (intro nothing_lost_broken [of _ t]) simp
next
  case (clears k)
  then show ?thesis by (intro nothing_lost_keep [OF D, of t _ "Advancing k" "[]"]) (simp_all add: clear_send_def set_online_def)
next
  case (advances k)
  then show ?thesis by (intro nothing_lost_keep [OF D, of t _ Trying "[]"]) (simp_all add: advance_head_def)
qed

lemma send_step_nothing_lost:
  assumes "send_step T pr t d d'" and D: "nothing_lost V C E before d" and T: "tls_laws T V" and E: "established T V C E"
    and S: "session_ok pr (sess d)"
  shows "nothing_lost V C E before d'"
  using assms(1)
proof cases
  case (begins r s')
  then show ?thesis
    by (intro nothing_lost_keep [OF D, of t _ "case r of None \<Rightarrow> Processing | Some ok \<Rightarrow> if ok then Idle else Broken" "[]"])
      (auto simp: begin_send_def set_online_def split: if_splits)
next
  case (process ok s')
  show ?thesis
  proof (cases "ok \<and> \<not> shouldClose (sess d) \<and> \<not> somewhere (\<lambda>p. p = Failing \<or> p = Broken) (threadOf d)")
    case True
    then obtain y ms where y: "Ssl (sess d) = Some y" "E y" "pending V y = []" "accepted V y = before @ ms"
      "pushed d = ms @ sendAppQueue (sess d)" "produced d = records C before ms" using D by (auto simp: nothing_lost_def)
    obtain y' where "Ssl s' = Some y'" "E y'" "pending V y' = []" "accepted V y' = accepted V y @ sendAppQueue (sess d)"
      "sendAppQueue s' = []" "tls_out s' = tls_out (sess d) @ records C (accepted V y) (sendAppQueue (sess d))"
      using established_loop [OF T E S y(1-3), of s'] process(3) True by auto
    then have "\<exists>y ms. Ssl (sess d') = Some y \<and> E y \<and> pending V y = [] \<and> accepted V y = before @ ms \<and>
        pushed d' = ms @ sendAppQueue (sess d') \<and> produced d' = records C before ms"
      using y process(1) by (intro exI [of _ y'] exI [of _ "ms @ sendAppQueue (sess d)"]) (simp add: records_append)
    then show ?thesis unfolding nothing_lost_def by blast
  next
    case False
    have f: "shouldClose s' = shouldClose (sess d)" using send_loop_flags [OF process(3)] by (simp add: same_flags_def)
    have "somewhere (\<lambda>p. p = Failing \<or> p = Broken) ((threadOf d)(t := p)) =
        somewhere (\<lambda>p. p = Failing \<or> p = Broken) (threadOf d)" if "p \<noteq> Failing" "p \<noteq> Broken" for p
      using that process(2) by simp
    then show ?thesis using False process(1) f nothing_lost_broken [of d' t] by (cases ok) (auto simp: nothing_lost_def)
  qed
next
  case hand_over
  then show ?thesis by (intro nothing_lost_keep [OF D, of t _ Idle "[]"]) simp_all
next
  case refused
  then show ?thesis by (intro nothing_lost_broken [of _ t]) simp
next
  case fails
  then show ?thesis by (intro nothing_lost_broken [of _ t]) simp
next
  case cleans_up
  then show ?thesis by (simp add: nothing_lost_def Close_def Cleanup_def Let_def)
qed

lemma orderly_nothing_lost:
  assumes s: "orderly_step T pr d d'" and D: "nothing_lost V C E before d" "order_ok pr c d" and TE: "tls_laws T V" "established T V C E"
  shows "nothing_lost V C E before d'"
proof -
  have S: "session_ok pr (sess d)" using D(2) by (simp add: order_ok_def)
  from s obtain t where "thread_step T pr t d d'" by (auto simp: orderly_step_def drive_step_iff)
  then show ?thesis
    unfolding thread_step_iff by (blast intro: request_step_nothing_lost [OF _ D(1)] send_step_nothing_lost [OF _ D(1) TE S]
        completion_step_nothing_lost [OF _ D(1)])
qed

interpretation complete: step_system "orderly_step T pr"
    "\<lambda>d. tls_laws T V \<and> established T V C E \<and> (\<exists>c. order_ok pr c d) \<and> drive_ok d \<and> nothing_lost V C E before d"
  for T pr V C E before
proof (unfold_locales, elim conjE exE)
  fix s s' c
  assume s: "orderly_step T pr s s'" and L: "tls_laws T V" "established T V C E" and O: "order_ok pr c s"
    and D: "drive_ok s" and N: "nothing_lost V C E before s"
  have "drive_ok s'" using s D by (auto simp: orderly_step_def intro: drive_step_ok)
  then show "tls_laws T V \<and> established T V C E \<and> (\<exists>c. order_ok pr c s') \<and> drive_ok s' \<and> nothing_lost V C E before s'"
    using L orderly_step_order [OF s O L(1)] orderly_nothing_lost [OF s N O L] by blast
qed

section \<open>Runs\<close>

text \<open>A push and its request, up to \<open>TrySendAsync\<close>; and \<open>TrySendAsync\<close> up to \<open>WSASend\<close>.\<close>

abbreviation works :: "'t tls \<Rightarrow> session_protocol \<Rightarrow> nat \<Rightarrow> 't sender \<Rightarrow> 't sender \<Rightarrow> bool" where
  "works T pr t \<equiv> (thread_step T pr t)\<^sup>*\<^sup>*"

lemma works_step:
  "works T pr t d d' \<Longrightarrow> request_step pr t d' d'' \<Longrightarrow> works T pr t d d''"
  "works T pr t d d' \<Longrightarrow> send_step T pr t d' d'' \<Longrightarrow> works T pr t d d''"
  "works T pr t d d' \<Longrightarrow> completion_step pr t d' d'' \<Longrightarrow> works T pr t d d''"
  by (blast intro: rtranclp.rtrancl_into_rtrancl thread_step.intros)+

lemma works_drive: "works T pr t d d' \<Longrightarrow> (drive_step T pr)\<^sup>*\<^sup>* d d'"
  by (induction rule: rtranclp_induct) (auto intro: rtranclp.rtrancl_into_rtrancl by_thread)

text \<open>A thread that works alone is orderly.\<close>

lemma thread_step_others: "thread_step T pr t d d' \<Longrightarrow> u \<noteq> t \<Longrightarrow> threadOf d' u = threadOf d u"
  by (auto simp: thread_step_iff elim!: request_step.cases send_step.cases completion_step.cases)

lemma works_orderly:
  assumes "works T pr t d d'" and idle: "\<And>u. u \<noteq> t \<Longrightarrow> threadOf d u = Idle"
  shows "(orderly_step T pr)\<^sup>*\<^sup>* d d' \<and> (\<forall>u. u \<noteq> t \<longrightarrow> threadOf d' u = Idle)"
  using assms(1)
proof (induction rule: rtranclp_induct)
  case base
  then show ?case using idle by simp
next
  case (step e e')
  have "threadOf e u \<noteq> Advancing k" if "threadOf e v = Trying" for u v k
    using step.IH that by (cases "u = t"; cases "v = t") auto
  then have "orderly_step T pr e e'" using by_thread [OF step.hyps(2)] by (auto simp: orderly_step_def)
  then show ?case using step.IH thread_step_others [OF step.hyps(2)] by (auto intro: rtranclp.rtrancl_into_rtrancl)
qed

lemma request_run:
  assumes "threadOf d t = Idle" and "PushMessage pr ty body (sess d) = Inr s'" and "\<not> isIoOnline s' IoType_InitiateSend"
  shows "works T pr t d (goes t Trying (d\<lparr>sess := s', pushed := pushed d @ [frame (ty, body)]\<rparr>))"
proof -
  let ?d1 = "goes t Pushed (d\<lparr>sess := s', pushed := pushed d @ [frame (ty, body)]\<rparr>)"
  let ?s2 = "set_online IoType_InitiateSend True s'"
  let ?d2 = "goes t Posting (?d1\<lparr>sess := ?s2\<rparr>)"
  let ?d3 = "goes t Idle (?d2\<lparr>requests := Suc (requests ?d2)\<rparr>)"
  let ?d4 = "goes t Initiated (?d3\<lparr>requests := requests d\<rparr>)"
  let ?d5 = "goes t Trying (?d4\<lparr>sess := PostInitiateSend ?s2\<rparr>)"
  have "request_step pr t d ?d1" by (rule push [OF assms(1,2)])
  note r = works_step(1) [OF rtranclp.rtrancl_refl this, of T]
  have "request_step pr t ?d1 (goes t (if True then Posting else Idle) (?d1\<lparr>sess := ?s2\<rparr>))"
    using assms(3) by (intro initiate) (simp_all add: InitiateSendAsync_def)
  then have "request_step pr t ?d1 ?d2" by simp
  note r = works_step(1) [OF r this]
  have "request_step pr t ?d2 ?d3" by (rule post) simp
  note r = works_step(1) [OF r this]
  have "request_step pr t ?d3 ?d4" by (rule take_request) simp_all
  note r = works_step(1) [OF r this]
  have "request_step pr t ?d4 (goes t Trying (?d4\<lparr>sess := PostInitiateSend (sess ?d4)\<rparr>))" by (rule initiated) simp
  then have "request_step pr t ?d4 ?d5" by simp
  note r = works_step(1) [OF r this]
  have "PostInitiateSend ?s2 = s'"
    using assms(3) by (cases s') (auto simp: PostInitiateSend_def set_online_def fun_upd_idem)
  then have "?d5 = goes t Trying (d\<lparr>sess := s', pushed := pushed d @ [frame (ty, body)]\<rparr>)" by simp
  then show ?thesis using r by simp
qed

lemma send_run:
  assumes "threadOf d t = Trying" and "begin_send (sess d) = (None, s1)" and "send_loop T pr s1 = Some (Inr (True, s2))"
    and "tls_out s2 = tls_out s1 @ Q"
  shows "works T pr t d (goes t Idle (d\<lparr>sess := s2, produced := produced d @ Q, sends := sends d @ [window_bytes pr s2]\<rparr>))"
proof -
  let ?d1 = "goes t Processing (d\<lparr>sess := s1\<rparr>)"
  let ?d2 = "goes t Sending (?d1\<lparr>sess := s2, produced := produced d @ Q\<rparr>)"
  have "send_step T pr t d (goes t (case None of None \<Rightarrow> Processing | Some ok \<Rightarrow> if ok then Idle else Broken) (d\<lparr>sess := s1\<rparr>))"
    by (rule begins [OF assms(1,2)])
  then have "send_step T pr t d ?d1" by simp
  note r = works_step(2) [OF rtranclp.rtrancl_refl this]
  have "send_step T pr t ?d1 (goes t (if True then Sending else Failing)
      (?d1\<lparr>sess := s2, produced := produced ?d1 @ drop (length (tls_out (sess ?d1))) (tls_out s2)\<rparr>))"
    using assms(3) by (intro process) simp_all
  then have "send_step T pr t ?d1 ?d2" using assms(4) by simp
  note r = works_step(2) [OF r this]
  have "send_step T pr t ?d2 (goes t Idle (?d2\<lparr>sends := sends ?d2 @ [window_bytes pr (sess ?d2)]\<rparr>))" by (rule hand_over) simp
  note r = works_step(2) [OF r this]
  then show ?thesis by simp
qed

section \<open>Properties\<close>

text \<open>
  C5.  No queued message is forgotten, however the threads interleave: when the completion port owes nothing for sending, no
  thread is at work and the session is not closing, then the message queue and the send TLS buffer are empty and the flags of
  both operations are off.
\<close>

theorem no_message_forgotten:
  assumes "(drive_step T pr)\<^sup>*\<^sup>* (new_sender s) d" and "isIoOnline s = (\<lambda>io. False)" and "\<not> unsent s"
    and "\<forall>t. threadOf d t = Idle" and "requests d = 0" and "sends d = []" and "\<not> shouldClose (sess d)"
  shows "sendAppQueue (sess d) = [] \<and> sendTlsBufferHead (sess d) = sendTlsBufferTail (sess d) \<and>
    \<not> isIoOnline (sess d) IoType_Send \<and> \<not> isIoOnline (sess d) IoType_InitiateSend"
  using drive.steps_ok [OF assms(1) new_sender_ok [OF assms(2,3)]] assms(4-7) by (simp add: drive_ok_def somewhere_def unsent_def)

text \<open>
  C6.  What is sent is what was produced, in order and without repetition, as long as no thread begins to send while another
  one is between the two halves of \<open>TryPostSend\<close>: the bytes sent, followed by those of the send TLS buffer less the ones whose
  completion is being handled, are the bytes that were put into the buffer.
\<close>

theorem bytes_in_order:
  assumes "(orderly_step T pr)\<^sup>*\<^sup>* (new_sender s) d" and "tls_laws T V"
    and "session_ok pr s" and "tls_out s = []" and "\<not> isIoOnline s IoType_Send"
  shows "\<exists>n \<le> length (tls_out (sess d)). wire d @ drop n (tls_out (sess d)) = produced d"
  using orderly.steps_ok [OF assms(1), of V] new_sender_order [OF assms(3-5)] assms(2) by (auto simp: order_ok_def)

text \<open>
  C7.  Every message is sent.  After the handshake, as long as no thread begins to send while another one is between the halves of
  \<open>TryPostSend\<close>: when the completion port owes nothing for sending, no thread is at work and the session is not closing, then the
  bytes sent are the records of all messages that were pushed, in the order of the pushes, once each and complete.
\<close>

theorem messages_sent:
  assumes "(orderly_step T pr)\<^sup>*\<^sup>* (new_sender s) d" and "tls_laws T V" and "established T V C E"
    and "session_ok pr s" and "tls_out s = []" and "isIoOnline s = (\<lambda>io. False)" and "\<not> unsent s"
    and "Ssl s = Some y" and "E y" and "pending V y = []"
    and "\<forall>t. threadOf d t = Idle" and "requests d = 0" and "sends d = []" and "\<not> shouldClose (sess d)"
  shows "wire d = records C (accepted V y) (pushed d)"
proof -
  have "order_ok pr Free (new_sender s)" using assms(4-6) by (simp add: new_sender_order)
  moreover have "nothing_lost V C E (accepted V y) (new_sender s)"
    using assms(7-10) by (auto simp: nothing_lost_def new_sender_def unsent_def)
  ultimately obtain c where c: "order_ok pr c d" "drive_ok d" "nothing_lost V C E (accepted V y) d"
    using complete.steps_ok [OF assms(1), of V C E "accepted V y"] new_sender_ok [OF assms(6,7)] assms(2,3) by blast
  have empty: "sendAppQueue (sess d) = []" "tls_out (sess d) = []"
    using c(2) assms(11-14) by (auto simp: drive_ok_def unsent_def somewhere_def tls_out_def ring_content_def ring_size_def ring_bytes_def)
  have "wire d = produced d" using c(1) empty(2) by (simp add: order_ok_def)
  moreover have "produced d = records C (accepted V y) (pushed d)"
    using c(3) assms(11,14) empty(1) by (auto simp: nothing_lost_def somewhere_def)
  ultimately show ?thesis by simp
qed

text \<open>A session after its handshake, and two messages of four bytes.\<close>

definition greeted :: "null_state session" where
  "greeted = new_session demo_protocol (null_start\<lparr>nFed := [1]\<rparr>) 7 ''Auth''"

lemma tls_out_set [simp]: "tls_out (set_online io b s) = tls_out s"
  by (simp add: tls_out_def set_online_def)

lemma two_frames: "frame (1, []) = [0, 1, 0, 0]" "frame (2, []) = [0, 2, 0, 0]"
  by code_simp+

text \<open>The session when one message has been given to the engine and its bytes are in the send TLS buffer, and when two have.\<close>

definition sent_once :: "null_state session" where
  "sent_once = greeted\<lparr>SendTlsBuffer := [0, 1, 0, 0] @ replicate 12 0, sendTlsBufferTail := 4,
     Ssl := Some \<lparr>nFed = [1], nDelivered = [], nAccepted = [[0, 1, 0, 0]], nPending = []\<rparr>\<rparr>"

definition sent_twice :: "null_state session" where
  "sent_twice = greeted\<lparr>SendTlsBuffer := [0, 1, 0, 0, 0, 2, 0, 0] @ replicate 8 0, sendTlsBufferTail := 8,
     Ssl := Some \<lparr>nFed = [1], nDelivered = [], nAccepted = [[0, 1, 0, 0], [0, 2, 0, 0]], nPending = []\<rparr>\<rparr>"

lemma null_sends:
  "SSL_write null_tls m y = (if nFed y = [] then (Some SSL_ERROR_WANT_READ, y)
     else (None, y\<lparr>nAccepted := nAccepted y @ [m], nPending := nPending y @ m\<rparr>))"
  "BIO_pending null_tls y = length (nPending y)"
  "BIO_read null_tls n y = (take n (nPending y), y\<lparr>nPending := drop n (nPending y)\<rparr>)"
  by (simp_all add: null_tls_def)

lemmas send_eval = null_sends send_loop.simps [of null_tls] flush_bio.simps [of null_tls] TryProcessSendBuffers_def bio_read_at_def store_bytes_def
  null_start_def greeted_def new_session_def demo_protocol_def BufferCapacity_def set_online_def Let_def

lemma first_send:
  "send_loop null_tls demo_protocol (set_online IoType_Send True (greeted\<lparr>sendAppQueue := [[0, 1, 0, 0]]\<rparr>)) =
     Some (Inr (True, set_online IoType_Send True sent_once))"
  by (simp add: send_eval sent_once_def)

lemma second_send:
  "send_loop null_tls demo_protocol (set_online IoType_Send True (sent_once\<lparr>sendAppQueue := [[0, 2, 0, 0]]\<rparr>)) =
     Some (Inr (True, set_online IoType_Send True sent_twice))"
  by (simp add: send_eval sent_once_def sent_twice_def)

lemma windows:
  "window_bytes demo_protocol (set_online IoType_Send True sent_once) = [0, 1, 0, 0]"
  "window_bytes demo_protocol (set_online IoType_Send True sent_twice) = [0, 1, 0, 0, 0, 2, 0, 0]"
  "tls_out sent_once = [0, 1, 0, 0]"
  "tls_out sent_twice = [0, 1, 0, 0, 0, 2, 0, 0]"
  by (simp_all add: window_bytes_def send_window_def sent_once_def sent_twice_def greeted_def new_session_def demo_protocol_def
      BufferCapacity_def set_online_def tls_out_def ring_content_def ring_size_def ring_bytes_def upt_rec Let_def)

lemma demo_begins:
  "begin_send (greeted\<lparr>sendAppQueue := [m]\<rparr>) = (None, set_online IoType_Send True (greeted\<lparr>sendAppQueue := [m]\<rparr>))"
  "begin_send (sent_once\<lparr>sendAppQueue := [m]\<rparr>) = (None, set_online IoType_Send True (sent_once\<lparr>sendAppQueue := [m]\<rparr>))"
  "tls_out (greeted\<lparr>sendAppQueue := [m]\<rparr>) = []" "tls_out (sent_once\<lparr>sendAppQueue := [m]\<rparr>) = tls_out sent_once"
  by (simp_all add: begin_send_def greeted_def new_session_def sent_once_def tls_out_def ring_content_def ring_size_def ring_bytes_def)

text \<open>The first message: pushed, sent and completed by one thread, which is then between the halves of \<open>TryPostSend\<close>.\<close>

definition half_posted :: "null_state sender" where
  "half_posted = goes 0 (Advancing 4) ((new_sender sent_once)\<lparr>wire := [0, 1, 0, 0], produced := [0, 1, 0, 0], pushed := [[0, 1, 0, 0]]\<rparr>)"

lemma first_run: "works null_tls demo_protocol 0 (new_sender greeted) half_posted"
proof -
  let ?on = "set_online IoType_Send True" and ?B = "[0, 1, 0, 0] :: u8 list"
  let ?start = "new_sender greeted"
  let ?p1 = "goes 0 Trying (?start\<lparr>sess := greeted\<lparr>sendAppQueue := [?B]\<rparr>, pushed := [?B]\<rparr>)"
  let ?s1 = "goes 0 Idle (?p1\<lparr>sess := ?on sent_once, produced := ?B, sends := [?B]\<rparr>)"
  let ?c1 = "goes 0 (Completed 4) (?s1\<lparr>sends := [], wire := ?B\<rparr>)"
  let ?W = "works null_tls demo_protocol 0"
  note session = greeted_def new_session_def sent_once_def
  have "PushMessage demo_protocol 1 [] greeted = Inr (greeted\<lparr>sendAppQueue := [?B]\<rparr>)"
    by (simp add: PushMessage_eq two_frames demo_protocol_def sizeof_MessageHeader_def session)
  then have r1: "?W ?start ?p1" using request_run [of ?start 0 demo_protocol 1 "[]" "greeted\<lparr>sendAppQueue := [?B]\<rparr>" null_tls]
    by (simp add: new_sender_def session two_frames)
  have r2: "?W ?p1 ?s1"
    using send_run [of ?p1 0 "?on (greeted\<lparr>sendAppQueue := [?B]\<rparr>)" null_tls demo_protocol "?on sent_once" ?B] first_send windows
    by (simp add: new_sender_def demo_begins)
  have r3: "?W ?s1 ?c1"
    using works_step(3) [OF rtranclp.rtrancl_refl take_send [of ?s1 0 ?B "[]" 4]] by (simp add: new_sender_def)
  have r4: "?W ?c1 half_posted"
    using works_step(3) [OF rtranclp.rtrancl_refl clears [of ?c1 0 4]]
    by (simp add: half_posted_def new_sender_def clear_send_def set_online_def session fun_upd_idem)
  show ?thesis by (rule rtranclp_trans [OF r1 rtranclp_trans [OF r2 rtranclp_trans [OF r3 r4]]])
qed

text \<open>It goes on alone: the head is advanced, and there is nothing more to send.\<close>

definition all_sent :: "null_state sender" where
  "all_sent = (new_sender (advance_head demo_protocol 4 sent_once))\<lparr>wire := [0, 1, 0, 0], produced := [0, 1, 0, 0], pushed := [[0, 1, 0, 0]]\<rparr>"

lemma alone_run: "works null_tls demo_protocol 0 (new_sender greeted) all_sent"
proof -
  let ?d = "goes 0 Trying all_sent"
  have "completion_step demo_protocol 0 half_posted ?d"
    using advances [of half_posted 0 4 demo_protocol] by (simp add: half_posted_def all_sent_def new_sender_def)
  note r = works_step(3) [OF first_run this]
  have "begin_send (sess ?d) = (Some True, sess ?d)"
    by (simp add: begin_send_def all_sent_def new_sender_def sent_once_def greeted_def new_session_def advance_head_def demo_protocol_def BufferCapacity_def)
  from begins [OF _ this, of 0 null_tls demo_protocol] have "send_step null_tls demo_protocol 0 ?d all_sent"
    by (simp add: all_sent_def new_sender_def fun_upd_idem)
  from works_step(2) [OF r this] show ?thesis .
qed

lemma greeted_facts:
  "isIoOnline greeted = (\<lambda>io. False)" "\<not> unsent greeted" "session_ok demo_protocol greeted" "tls_out greeted = []"
  "\<not> isIoOnline greeted io" "\<not> shouldClose greeted"
  using session_ok_new [OF demo_facts(1), of "null_start\<lparr>nFed := [1]\<rparr>" 7 "''Auth''"] by (simp_all add: greeted_def new_session_def unsent_def)

theorem no_message_forgotten_witness:
  "sendAppQueue (sess all_sent) = [] \<and> sendTlsBufferHead (sess all_sent) = sendTlsBufferTail (sess all_sent) \<and> wire all_sent \<noteq> []"
proof -
  have "\<not> shouldClose (sess all_sent)"
    by (simp add: all_sent_def new_sender_def sent_once_def greeted_facts)
  then show ?thesis
    using no_message_forgotten [OF works_drive [OF alone_run] greeted_facts(1,2)] by (simp add: all_sent_def new_sender_def)
qed

theorem bytes_in_order_witness:
  "\<exists>n \<le> length (tls_out (sess half_posted)). wire half_posted @ drop n (tls_out (sess half_posted)) = produced half_posted"
proof -
  have "(orderly_step null_tls demo_protocol)\<^sup>*\<^sup>* (new_sender greeted) half_posted"
    using works_orderly [OF first_run] by (simp add: new_sender_def)
  from bytes_in_order [OF this null_laws greeted_facts(3-5)] show ?thesis .
qed

lemma greeted_engine:
  "established null_tls null_view (\<lambda>before m. m) (\<lambda>y. nFed y \<noteq> [])"
  "Ssl greeted = Some (null_start\<lparr>nFed := [1]\<rparr>)" "accepted null_view (null_start\<lparr>nFed := [1]\<rparr>) = []"
  by (simp_all add: established_def null_sends null_view_def greeted_def new_session_def null_start_def)

theorem messages_sent_witness:
  "wire all_sent = records (\<lambda>before m. m) [] (pushed all_sent) \<and> pushed all_sent = [frame (1, [])]"
proof -
  have "(orderly_step null_tls demo_protocol)\<^sup>*\<^sup>* (new_sender greeted) all_sent"
    using works_orderly [OF alone_run] by (simp add: new_sender_def)
  from messages_sent [OF this null_laws greeted_engine(1) greeted_facts(3,4,1,2) greeted_engine(2)]
  have "wire all_sent = records (\<lambda>before m. m) (accepted null_view (null_start\<lparr>nFed := [1]\<rparr>)) (pushed all_sent)"
    by (simp add: all_sent_def new_sender_def null_view_def null_start_def sent_once_def greeted_facts advance_head_def)
  then show ?thesis by (simp add: greeted_engine(3) two_frames all_sent_def)
qed

text \<open>
  C23.  The order of the two halves matters.  \<open>TryPostSend\<close> switches the flag off before it advances the head of the send TLS
  buffer; a request handled in between by another worker thread sends from the old head.  From a new session the threads can
  reach a state in which the bytes of the first message have been sent twice.
\<close>

theorem bytes_sent_twice:
  "\<exists>d. (drive_step null_tls demo_protocol)\<^sup>*\<^sup>* (new_sender greeted) d \<and>
     produced d = frame (1, []) @ frame (2, []) \<and> wire d = frame (1, []) @ frame (1, []) @ frame (2, [])"
proof -
  let ?on = "set_online IoType_Send True" and ?B = "[0, 1, 0, 0] :: u8 list" and ?C = "[0, 2, 0, 0] :: u8 list"
  let ?p2 = "goes 1 Trying (half_posted\<lparr>sess := sent_once\<lparr>sendAppQueue := [?C]\<rparr>, pushed := [?B, ?C]\<rparr>)"
  let ?s2 = "goes 1 Idle (?p2\<lparr>sess := ?on sent_twice, produced := ?B @ ?C, sends := [?B @ ?C]\<rparr>)"
  let ?c2 = "goes 1 (Completed 8) (?s2\<lparr>sends := [], wire := ?B @ ?B @ ?C\<rparr>)"
  let ?W = "works null_tls demo_protocol 1"
  have "PushMessage demo_protocol 2 [] sent_once = Inr (sent_once\<lparr>sendAppQueue := [?C]\<rparr>)"
    by (simp add: PushMessage_eq two_frames demo_protocol_def sizeof_MessageHeader_def sent_once_def greeted_def new_session_def)
  then have r5: "?W half_posted ?p2"
    using request_run [of half_posted 1 demo_protocol 2 "[]" "sent_once\<lparr>sendAppQueue := [?C]\<rparr>" null_tls]
    by (simp add: half_posted_def new_sender_def sent_once_def greeted_facts two_frames)
  have r6: "?W ?p2 ?s2"
    using send_run [of ?p2 1 "?on (sent_once\<lparr>sendAppQueue := [?C]\<rparr>)" null_tls demo_protocol "?on sent_twice" ?C] second_send windows
    by (simp add: half_posted_def new_sender_def demo_begins)
  have r7: "?W ?s2 ?c2"
    using works_step(3) [OF rtranclp.rtrancl_refl take_send [of ?s2 1 "?B @ ?C" "[]" 8]] by (simp add: half_posted_def new_sender_def)
  note run = rtranclp_trans [OF works_drive [OF first_run] works_drive [OF rtranclp_trans [OF r5 rtranclp_trans [OF r6 r7]]]]
  show ?thesis unfolding two_frames by (rule exI, rule conjI, rule run) simp_all
qed

end
