(* ===== verification/Io_Steps.thy ===== *)
theory Io_Steps
  imports Send_Steps
begin

text \<open>
  The overlapped operations of one session under any number of threads, each method of \<open>Session\<close> cut where it releases a
  mutex: setting the flag, the buffers, the call of WinSock, clearing the flag, the two halves of \<open>Close\<close>.  Any thread may call any
  method and may take any completion.  The flags give at most one operation of each kind, and the answer of \<open>Close\<close> is final
  for receiving and sending.
\<close>

section \<open>Steps\<close>

text \<open>
  Where a thread is.  Receiving: the flag is set and \<open>WSARecv\<close> has not been called; a completion of so many bytes is in hand; its
  flag is cleared; the two places in the loop of \<open>TryPostReceive\<close>.  Sending: the two places in the loop of \<open>TrySendAsync\<close>, before
  \<open>WSASend\<close>, and the halves of \<open>TryPostSend\<close>.  A request to send: before \<open>PostQueuedCompletionStatus\<close>, and in hand.  For every
  kind: before the flag is cleared after a failure, and a failed completion in hand.  \<open>Closing\<close> is between the halves of \<open>Close\<close>.
\<close>

datatype io_pc =
    Away | Offering | Received nat | Filled nat | Reading | Answering | Writing | Listening | Handing | Sent nat | Emptied nat
  | Requesting | Requested | Releasing io_type | Failed io_type | Closing

text \<open>
  \<open>owed\<close> counts the operations that WinSock, or the port in the case of a request, has accepted and whose completion has not been
  taken.  \<open>closed\<close> says that some call of \<open>Close\<close> has answered true.  The code has neither.
\<close>

record 't io_run =
  ses :: "'t session"
  place :: "nat \<Rightarrow> io_pc"
  owed :: "io_type \<Rightarrow> nat"
  closed :: bool

definition new_io :: "'t session \<Rightarrow> 't io_run" where
  "new_io s = \<lparr>ses = s, place = (\<lambda>t. Away), owed = (\<lambda>io. 0), closed = False\<rparr>"

abbreviation move :: "nat \<Rightarrow> io_pc \<Rightarrow> 't io_run \<Rightarrow> 't io_run" where
  "move t p d \<equiv> d\<lparr>place := (place d)(t := p)\<rparr>"

text \<open>\<open>TryReceiveAsync\<close> and \<open>TryPostReceive\<close>.\<close>

inductive receiving_step :: "'t tls \<Rightarrow> session_protocol \<Rightarrow> nat \<Rightarrow> 't io_run \<Rightarrow> 't io_run \<Rightarrow> bool" for T pr t where
  start_receive: "place d t = Away \<Longrightarrow> begin_receive (ses d) = (go, s') \<Longrightarrow>
    receiving_step T pr t d (move t (if go then Offering else Away) (d\<lparr>ses := s'\<rparr>))"
| no_room: "place d t = Offering \<Longrightarrow> receive_window pr (ses d) = None \<Longrightarrow>
    receiving_step T pr t d (move t (Releasing IoType_Receive) d)"
| recv: "place d t = Offering \<Longrightarrow> receive_window pr (ses d) = Some w \<Longrightarrow>
    receiving_step T pr t d (move t Away (d\<lparr>owed := (owed d)(IoType_Receive := Suc (owed d IoType_Receive))\<rparr>))"
| recv_refused: "place d t = Offering \<Longrightarrow> receive_window pr (ses d) = Some w \<Longrightarrow>
    receiving_step T pr t d (move t (Releasing IoType_Receive) d)"
| take_received: "place d t = Away \<Longrightarrow> owed d IoType_Receive = Suc k \<Longrightarrow>
    receiving_step T pr t d (move t (Received n) (d\<lparr>owed := (owed d)(IoType_Receive := k)\<rparr>))"
| clear_received: "place d t = Received n \<Longrightarrow>
    receiving_step T pr t d (move t (Filled n) (d\<lparr>ses := set_online IoType_Receive False (ses d)\<rparr>))"
| fill: "place d t = Filled n \<Longrightarrow> receiving_step T pr t d (move t Reading (d\<lparr>ses := advance_tail pr n (ses d)\<rparr>))"
| reads: "place d t = Reading \<Longrightarrow> TryProcessReceiveBuffers T pr (ses d) = Some (Inr (r, s')) \<Longrightarrow>
    receiving_step T pr t d (move t (if r = WantProcessSendBuffers then Answering else Away) (d\<lparr>ses := s'\<rparr>))"
| answers: "place d t = Answering \<Longrightarrow> TryProcessSendBuffers T pr (ses d) = Some (Inr (r, s')) \<Longrightarrow>
    receiving_step T pr t d (move t (if r = SendSuccess then Reading else Away) (d\<lparr>ses := s'\<rparr>))"

text \<open>\<open>TrySendAsync\<close> and \<open>TryPostSend\<close>.\<close>

inductive sending_step :: "'t tls \<Rightarrow> session_protocol \<Rightarrow> nat \<Rightarrow> 't io_run \<Rightarrow> 't io_run \<Rightarrow> bool" for T pr t where
  start_send: "place d t = Away \<Longrightarrow> begin_send (ses d) = (r, s') \<Longrightarrow>
    sending_step T pr t d (move t (if r = None then Writing else Away) (d\<lparr>ses := s'\<rparr>))"
| writes: "place d t = Writing \<Longrightarrow> TryProcessSendBuffers T pr (ses d) = Some (Inr (r, s')) \<Longrightarrow>
    sending_step T pr t d (move t (case r of SendSuccess \<Rightarrow> Handing | SendFailed \<Rightarrow> Releasing IoType_Send
      | WantProcessReceiveBuffers \<Rightarrow> Listening) (d\<lparr>ses := s'\<rparr>))"
| listens: "place d t = Listening \<Longrightarrow> TryProcessReceiveBuffers T pr (ses d) = Some (Inr (r, s')) \<Longrightarrow>
    sending_step T pr t d (move t (case r of WantProcessSendBuffers \<Rightarrow> Handing | ReceiveFailed \<Rightarrow> Releasing IoType_Send
      | ReceiveSuccess \<Rightarrow> Writing) (d\<lparr>ses := s'\<rparr>))"
| hands: "place d t = Handing \<Longrightarrow>
    sending_step T pr t d (move t Away (d\<lparr>owed := (owed d)(IoType_Send := Suc (owed d IoType_Send))\<rparr>))"
| hands_refused: "place d t = Handing \<Longrightarrow> sending_step T pr t d (move t (Releasing IoType_Send) d)"
| take_sent: "place d t = Away \<Longrightarrow> owed d IoType_Send = Suc k \<Longrightarrow>
    sending_step T pr t d (move t (Sent n) (d\<lparr>owed := (owed d)(IoType_Send := k)\<rparr>))"
| clear_sent: "place d t = Sent n \<Longrightarrow> sending_step T pr t d (move t (Emptied n) (d\<lparr>ses := clear_send (ses d)\<rparr>))"
| empties: "place d t = Emptied n \<Longrightarrow> sending_step T pr t d (move t Away (d\<lparr>ses := advance_head pr n (ses d)\<rparr>))"

text \<open>Requests to send, failures, the messages, and \<open>Close\<close> in its two halves.\<close>

inductive other_step :: "session_protocol \<Rightarrow> nat \<Rightarrow> 't io_run \<Rightarrow> 't io_run \<Rightarrow> bool" for pr t where
  request: "place d t = Away \<Longrightarrow> InitiateSendAsync (ses d) = (overlapped, s') \<Longrightarrow>
    other_step pr t d (move t (if overlapped then Requesting else Away) (d\<lparr>ses := s'\<rparr>))"
| post_request: "place d t = Requesting \<Longrightarrow>
    other_step pr t d (move t Away (d\<lparr>owed := (owed d)(IoType_InitiateSend := Suc (owed d IoType_InitiateSend))\<rparr>))"
| take_requested: "place d t = Away \<Longrightarrow> owed d IoType_InitiateSend = Suc k \<Longrightarrow>
    other_step pr t d (move t Requested (d\<lparr>owed := (owed d)(IoType_InitiateSend := k)\<rparr>))"
| requested: "place d t = Requested \<Longrightarrow> other_step pr t d (move t Away (d\<lparr>ses := PostInitiateSend (ses d)\<rparr>))"
| release: "place d t = Releasing io \<Longrightarrow> other_step pr t d (move t Away (d\<lparr>ses := set_online io False (ses d)\<rparr>))"
| take_failure: "place d t = Away \<Longrightarrow> owed d io = Suc k \<Longrightarrow>
    other_step pr t d (move t (Failed io) (d\<lparr>owed := (owed d)(io := k)\<rparr>))"
| failure: "place d t = Failed io \<Longrightarrow> other_step pr t d (move t Away (d\<lparr>ses := PostIoFailed io (ses d)\<rparr>))"
| push_message: "place d t = Away \<Longrightarrow> PushMessage pr ty body (ses d) = Inr s' \<Longrightarrow> other_step pr t d (d\<lparr>ses := s'\<rparr>)"
| peek_message: "place d t = Away \<Longrightarrow> PeekReceivedMessage pr (ses d) = Inr (m, s') \<Longrightarrow> other_step pr t d (d\<lparr>ses := s'\<rparr>)"
| pop_message: "place d t = Away \<Longrightarrow> other_step pr t d (d\<lparr>ses := PopReceivedMessage pr n (ses d)\<rparr>)"
| clean_up: "place d t = Away \<Longrightarrow> other_step pr t d (move t Closing (d\<lparr>ses := Cleanup (ses d)\<rparr>))"
| answer_closing: "place d t = Closing \<Longrightarrow>
    other_step pr t d (move t Away (d\<lparr>closed := (closed d \<or> answer_close (ses d))\<rparr>))"

inductive io_step :: "'t tls \<Rightarrow> session_protocol \<Rightarrow> 't io_run \<Rightarrow> 't io_run \<Rightarrow> bool" for T pr where
  by_receiving: "receiving_step T pr t d d' \<Longrightarrow> io_step T pr d d'"
| by_sending: "sending_step T pr t d d' \<Longrightarrow> io_step T pr d d'"
| by_other: "other_step pr t d d' \<Longrightarrow> io_step T pr d d'"

inductive_simps io_step_iff: "io_step T pr d d'"

section \<open>One owner of each flag\<close>

text \<open>The operation that a thread has begun, or whose completion it has in hand.\<close>

fun operation :: "io_pc \<Rightarrow> io_type option" where
  "operation Offering = Some IoType_Receive"
| "operation (Received n) = Some IoType_Receive"
| "operation Writing = Some IoType_Send"
| "operation Listening = Some IoType_Send"
| "operation Handing = Some IoType_Send"
| "operation (Sent n) = Some IoType_Send"
| "operation Requesting = Some IoType_InitiateSend"
| "operation Requested = Some IoType_InitiateSend"
| "operation (Releasing io) = Some io"
| "operation (Failed io) = Some io"
| "operation p = None"

text \<open>A flag is on exactly when its operation is in flight, or else with exactly one thread.\<close>

definition slot :: "bool \<Rightarrow> nat \<Rightarrow> (nat \<Rightarrow> bool) \<Rightarrow> bool" where
  "slot on w h \<longleftrightarrow> (if on then w = 1 \<and> (\<forall>t. \<not> h t) \<or> w = 0 \<and> (\<exists>t. h t \<and> (\<forall>u. h u \<longrightarrow> u = t)) else w = 0 \<and> (\<forall>t. \<not> h t))"

lemma slot_moves:
  "slot False w h \<Longrightarrow> slot True w (h(t := True))"
  "slot on w h \<Longrightarrow> h t \<Longrightarrow> slot False w (h(t := False))"
  "slot on w h \<Longrightarrow> h t \<Longrightarrow> slot on (Suc w) (h(t := False))"
  "slot on (Suc w) h \<Longrightarrow> slot on w (h(t := True))"
  by (auto simp: slot_def split: if_splits)

definition slots :: "'t io_run \<Rightarrow> bool" where
  "slots d \<longleftrightarrow> (\<forall>io. slot (isIoOnline (ses d) io) (owed d io) (\<lambda>t. operation (place d t) = Some io))"

lemma operation_upd: "(\<lambda>u. operation (((place d)(t := q)) u) = Some io) =
    (\<lambda>u. operation (place d u) = Some io)(t := operation q = Some io)"
  by (simp add: fun_eq_iff)

text \<open>A thread goes on with its operation, takes a flag, clears it, gives the operation to WinSock, or takes its completion.\<close>

lemma slots_keep:
  assumes "slots d" and "operation (place d t) = operation q" and "isIoOnline s' = isIoOnline (ses d)"
  shows "slots (move t q (d\<lparr>ses := s'\<rparr>))"
proof -
  have "(\<lambda>u. operation (((place d)(t := q)) u) = Some k) = (\<lambda>u. operation (place d u) = Some k)" for k
    using assms(2) by (simp add: fun_eq_iff)
  then show ?thesis using assms(1,3) by (simp add: slots_def del: fun_upd_apply)
qed

lemma slots_take:
  assumes "slots d" and "operation (place d t) = None" and "operation q = Some io" and "\<not> isIoOnline (ses d) io"
    and "isIoOnline s' = (isIoOnline (ses d))(io := True)"
  shows "slots (move t q (d\<lparr>ses := s'\<rparr>))"
  unfolding slots_def
proof
  fix k
  let ?h = "\<lambda>k u. operation (place d u) = Some k"
  have s: "slot (isIoOnline (ses d) k) (owed d k) (?h k)" using assms(1) by (simp add: slots_def)
  have "slot (isIoOnline s' k) (owed d k) ((?h k)(t := operation q = Some k))"
  proof (cases "k = io")
    case True
    then show ?thesis using s assms(3-5) slot_moves(1) [of "owed d k" "?h k" t] by simp
  next
    case False
    then have "(?h k)(t := operation q = Some k) = ?h k" using assms(2,3) by (simp add: fun_upd_idem)
    then show ?thesis using s False assms(5) by simp
  qed
  then show "slot (isIoOnline (ses (move t q (d\<lparr>ses := s'\<rparr>))) k) (owed (move t q (d\<lparr>ses := s'\<rparr>)) k)
      (\<lambda>u. operation (place (move t q (d\<lparr>ses := s'\<rparr>)) u) = Some k)" by (simp add: operation_upd del: fun_upd_apply)
qed

lemma slots_clear:
  assumes "slots d" and "operation (place d t) = Some io" and "operation q = None"
    and "isIoOnline s' = (isIoOnline (ses d))(io := False)"
  shows "slots (move t q (d\<lparr>ses := s'\<rparr>))"
  unfolding slots_def
proof
  fix k
  let ?h = "\<lambda>k u. operation (place d u) = Some k"
  have s: "slot (isIoOnline (ses d) k) (owed d k) (?h k)" using assms(1) by (simp add: slots_def)
  have "slot (isIoOnline s' k) (owed d k) ((?h k)(t := operation q = Some k))"
  proof (cases "k = io")
    case True
    then show ?thesis using slot_moves(2) [OF s, of t] assms(2-4) by simp
  next
    case False
    then have "(?h k)(t := operation q = Some k) = ?h k" using assms(2,3) by (simp add: fun_upd_idem)
    then show ?thesis using s False assms(4) by simp
  qed
  then show "slot (isIoOnline (ses (move t q (d\<lparr>ses := s'\<rparr>))) k) (owed (move t q (d\<lparr>ses := s'\<rparr>)) k)
      (\<lambda>u. operation (place (move t q (d\<lparr>ses := s'\<rparr>)) u) = Some k)" by (simp add: operation_upd del: fun_upd_apply)
qed

lemma slots_give:
  assumes "slots d" and "operation (place d t) = Some io" and "operation q = None"
  shows "slots (move t q (d\<lparr>owed := (owed d)(io := Suc (owed d io))\<rparr>))" (is "slots ?d")
  unfolding slots_def
proof
  fix k
  let ?h = "\<lambda>k u. operation (place d u) = Some k"
  have s: "slot (isIoOnline (ses d) k) (owed d k) (?h k)" using assms(1) by (simp add: slots_def)
  have "slot (isIoOnline (ses d) k) (((owed d)(io := Suc (owed d io))) k) ((?h k)(t := operation q = Some k))"
  proof (cases "k = io")
    case True
    then show ?thesis using slot_moves(3) [OF s, of t] assms(2,3) by simp
  next
    case False
    then have "(?h k)(t := operation q = Some k) = ?h k" using assms(2,3) by (simp add: fun_upd_idem)
    then show ?thesis using s False by simp
  qed
  then show "slot (isIoOnline (ses ?d) k) (owed ?d k) (\<lambda>u. operation (place ?d u) = Some k)" by (simp add: operation_upd del: fun_upd_apply)
qed

lemma slots_get:
  assumes "slots d" and "operation (place d t) = None" and "operation q = Some io" and "owed d io = Suc w"
  shows "slots (move t q (d\<lparr>owed := (owed d)(io := w)\<rparr>))" (is "slots ?d")
  unfolding slots_def
proof
  fix k
  let ?h = "\<lambda>k u. operation (place d u) = Some k"
  have s: "slot (isIoOnline (ses d) k) (owed d k) (?h k)" using assms(1) by (simp add: slots_def)
  have "slot (isIoOnline (ses d) k) (((owed d)(io := w)) k) ((?h k)(t := operation q = Some k))"
  proof (cases "k = io")
    case True
    then show ?thesis using s slot_moves(4) [of _ w "?h k" t] assms(3,4) by simp
  next
    case False
    then have "(?h k)(t := operation q = Some k) = ?h k" using assms(2,3) by (simp add: fun_upd_idem)
    then show ?thesis using s False by simp
  qed
  then show "slot (isIoOnline (ses ?d) k) (owed ?d k) (\<lambda>u. operation (place ?d u) = Some k)" by (simp add: operation_upd del: fun_upd_apply)
qed

section \<open>Closing\<close>

text \<open>
  Only \<open>Cleanup\<close> sets \<open>shouldClose\<close> and nothing resets it; once it is set, no flag of a receive or a send is taken, so an answer
  true stays right for these two.
\<close>

definition final :: "'t session \<Rightarrow> bool" where
  "final s \<longleftrightarrow> shouldClose s \<and> \<not> isIoOnline s IoType_Receive \<and> \<not> isIoOnline s IoType_Send"

definition closing_ok :: "'t io_run \<Rightarrow> bool" where
  "closing_ok d \<longleftrightarrow> (closed d \<longrightarrow> final (ses d)) \<and> (\<forall>t. place d t = Closing \<longrightarrow> shouldClose (ses d))"

definition io_ok :: "'t io_run \<Rightarrow> bool" where
  "io_ok d \<longleftrightarrow> slots d \<and> closing_ok d"

lemma closing_keep:
  assumes "closing_ok d" and "q \<noteq> Closing" and "shouldClose (ses d) \<Longrightarrow> shouldClose s'" and "final (ses d) \<Longrightarrow> final s'"
  shows "closing_ok (move t q (d\<lparr>ses := s'\<rparr>))"
  using assms by (auto simp: closing_ok_def)

lemma closing_owed [simp]: "closing_ok (d\<lparr>owed := w\<rparr>) = closing_ok d"
  by (simp add: closing_ok_def)

lemma final_same: "same_flags s s' \<Longrightarrow> final s' = final s"
  by (simp add: final_def same_flags_def)

lemma final_off: "final s \<Longrightarrow> final (set_online io False s)"
  by (simp add: final_def)

lemma begin_receive_flags:
  "begin_receive s = (go, s') \<Longrightarrow> shouldClose s' = shouldClose s \<and>
     (if go then \<not> shouldClose s \<and> \<not> isIoOnline s IoType_Receive \<and> isIoOnline s' = (isIoOnline s)(IoType_Receive := True) else s' = s)"
  by (auto simp: begin_receive_def split: if_splits)

lemma begin_send_flags:
  "begin_send s = (r, s') \<Longrightarrow> shouldClose s' = shouldClose s \<and>
     (if r = None then \<not> shouldClose s \<and> \<not> isIoOnline s IoType_Send \<and> isIoOnline s' = (isIoOnline s)(IoType_Send := True)
      else isIoOnline s' = isIoOnline s)"
  by (auto simp: begin_send_def Let_def split: if_splits)

section \<open>Every step\<close>

lemma io_keep:
  assumes "io_ok d" and "operation (place d t) = operation q" and "q \<noteq> Closing" and "isIoOnline s' = isIoOnline (ses d)"
    and "shouldClose s' = shouldClose (ses d)"
  shows "io_ok (move t q (d\<lparr>ses := s'\<rparr>))"
proof -
  have "final s' = final (ses d)" using assms(4,5) by (simp add: final_def)
  then show ?thesis using assms slots_keep [of d t q s'] closing_keep [of d q s' t] by (simp add: io_ok_def)
qed

lemma io_stay: "io_ok d \<Longrightarrow> operation (place d t) = operation q \<Longrightarrow> q \<noteq> Closing \<Longrightarrow> io_ok (move t q d)"
  using io_keep [of d t q "ses d"] by simp

lemma io_take:
  assumes "io_ok d" and "operation (place d t) = None" and "operation q = Some io" and "\<not> isIoOnline (ses d) io"
    and "isIoOnline s' = (isIoOnline (ses d))(io := True)" and "shouldClose s' = shouldClose (ses d)"
    and "shouldClose (ses d) \<Longrightarrow> io = IoType_InitiateSend"
  shows "io_ok (move t q (d\<lparr>ses := s'\<rparr>))"
proof -
  have "q \<noteq> Closing" using assms(3) by auto
  moreover have "final (ses d) \<Longrightarrow> final s'" using assms(5-7) by (auto simp: final_def)
  ultimately show ?thesis using assms slots_take [of d t q io s'] closing_keep [of d q s' t] by (simp add: io_ok_def)
qed

lemma io_clear:
  assumes "io_ok d" and "operation (place d t) = Some io" and "operation q = None" and "q \<noteq> Closing"
    and "isIoOnline s' = (isIoOnline (ses d))(io := False)" and "shouldClose s' = shouldClose (ses d)"
  shows "io_ok (move t q (d\<lparr>ses := s'\<rparr>))"
proof -
  have "final (ses d) \<Longrightarrow> final s'" using assms(5,6) by (simp add: final_def)
  then show ?thesis using assms slots_clear [of d t io q s'] closing_keep [of d q s' t] by (simp add: io_ok_def)
qed

lemma closing_move: "closing_ok d \<Longrightarrow> q \<noteq> Closing \<Longrightarrow> closing_ok (move t q d)"
  by (auto simp: closing_ok_def)

lemma io_give:
  assumes "io_ok d" and "operation (place d t) = Some io" and "operation q = None" and "q \<noteq> Closing"
  shows "io_ok (move t q (d\<lparr>owed := (owed d)(io := Suc (owed d io))\<rparr>))"
  using assms slots_give [of d t io q] closing_move [of "d\<lparr>owed := (owed d)(io := Suc (owed d io))\<rparr>" q t]
  by (simp add: io_ok_def)

lemma io_get:
  assumes "io_ok d" and "operation (place d t) = None" and "operation q = Some io" and "owed d io = Suc w"
  shows "io_ok (move t q (d\<lparr>owed := (owed d)(io := w)\<rparr>))"
proof -
  have "q \<noteq> Closing" using assms(3) by auto
  then show ?thesis
    using assms slots_get [of d t q io w] closing_move [of "d\<lparr>owed := (owed d)(io := w)\<rparr>" q t] by (simp add: io_ok_def)
qed

lemma buffers_flags:
  "TryProcessReceiveBuffers T pr s = Some (Inr (r, s')) \<Longrightarrow> isIoOnline s' = isIoOnline s \<and> shouldClose s' = shouldClose s"
  "TryProcessSendBuffers T pr s = Some (Inr (w, s')) \<Longrightarrow> isIoOnline s' = isIoOnline s \<and> shouldClose s' = shouldClose s"
  by (drule receive_flags, simp add: same_flags_def) (drule send_flags, simp add: same_flags_def)

lemma receiving_step_ok:
  assumes "receiving_step T pr t d d'" and "io_ok d"
  shows "io_ok d'"
  using assms(1)
proof cases
  case (start_receive go s')
  note F = begin_receive_flags [OF start_receive(3)]
  show ?thesis
  proof (cases go)
    case True
    then show ?thesis using start_receive(2) F unfolding start_receive(1) by (intro io_take [OF assms(2), where io = IoType_Receive]) simp_all
  next
    case False
    then show ?thesis using start_receive(2) F unfolding start_receive(1) by (intro io_keep [OF assms(2)]) simp_all
  qed
next
  case no_room
  then show ?thesis using assms(2) by (simp add: io_stay)
next
  case (recv w)
  then show ?thesis unfolding recv(1) by (intro io_give [OF assms(2)]) simp_all
next
  case (recv_refused w)
  then show ?thesis using assms(2) by (simp add: io_stay)
next
  case (take_received k n)
  then show ?thesis unfolding take_received(1) by (intro io_get [OF assms(2)]) simp_all
next
  case (clear_received n)
  then show ?thesis unfolding clear_received(1) by (intro io_clear [OF assms(2)]) simp_all
next
  case (fill n)
  then show ?thesis unfolding fill(1) by (intro io_keep [OF assms(2)]) (simp_all add: advance_tail_def)
next
  case (reads r s')
  then show ?thesis using buffers_flags(1) [OF reads(3)] unfolding reads(1) by (intro io_keep [OF assms(2)]) simp_all
next
  case (answers r s')
  then show ?thesis using buffers_flags(2) [OF answers(3)] unfolding answers(1) by (intro io_keep [OF assms(2)]) simp_all
qed

lemma sending_step_ok:
  assumes "sending_step T pr t d d'" and "io_ok d"
  shows "io_ok d'"
  using assms(1)
proof cases
  case (start_send r s')
  note F = begin_send_flags [OF start_send(3)]
  show ?thesis
  proof (cases "r = None")
    case True
    then show ?thesis using start_send(2) F unfolding start_send(1) by (intro io_take [OF assms(2), where io = IoType_Send]) simp_all
  next
    case False
    then show ?thesis using start_send(2) F unfolding start_send(1) by (intro io_keep [OF assms(2)]) simp_all
  qed
next
  case (writes r s')
  then show ?thesis using buffers_flags(2) [OF writes(3)] unfolding writes(1)
    by (intro io_keep [OF assms(2)]) (simp_all split: SendBuffersProcessResult.split)
next
  case (listens r s')
  then show ?thesis using buffers_flags(1) [OF listens(3)] unfolding listens(1)
    by (intro io_keep [OF assms(2)]) (simp_all split: ReceiveBuffersProcessResult.split)
next
  case hands
  then show ?thesis unfolding hands(1) by (intro io_give [OF assms(2)]) simp_all
next
  case hands_refused
  then show ?thesis using assms(2) by (simp add: io_stay)
next
  case (take_sent k n)
  then show ?thesis unfolding take_sent(1) by (intro io_get [OF assms(2)]) simp_all
next
  case (clear_sent n)
  then show ?thesis unfolding clear_sent(1) by (intro io_clear [OF assms(2)]) (simp_all add: clear_send_def)
next
  case (empties n)
  then show ?thesis unfolding empties(1) by (intro io_keep [OF assms(2)]) (simp_all add: advance_head_def)
qed

lemma io_same: "io_ok d \<Longrightarrow> isIoOnline s' = isIoOnline (ses d) \<Longrightarrow> shouldClose s' = shouldClose (ses d) \<Longrightarrow>
    io_ok (d\<lparr>ses := s'\<rparr>)"
  by (simp add: io_ok_def slots_def closing_ok_def final_def)

lemma peek_body_closing: "peek_body pr s h = Inr (m, s') \<Longrightarrow> shouldClose s' = shouldClose s"
  by (auto simp: peek_body_def Let_def bindR_eq_Inr split: option.splits if_splits prod.splits)

lemma peek_flags: "PeekReceivedMessage pr s = Inr (m, s') \<Longrightarrow> isIoOnline s' = isIoOnline s \<and> shouldClose s' = shouldClose s"
  by (auto simp: PeekReceivedMessage_def bindR_eq_Inr dest: peek_body_flags peek_body_closing split: option.splits)

lemma push_flags: "PushMessage pr ty body s = Inr s' \<Longrightarrow> isIoOnline s' = isIoOnline s \<and> shouldClose s' = shouldClose s"
  by (auto simp: PushMessage_def Let_def bindR_eq_Inr split: if_splits)

lemma other_step_ok:
  assumes "other_step pr t d d'" and "io_ok d"
  shows "io_ok d'"
  using assms(1)
proof cases
  case (request overlapped s')
  show ?thesis
  proof (cases overlapped)
    case True
    then show ?thesis using request(2,3) unfolding request(1)
      by (intro io_take [OF assms(2), where io = IoType_InitiateSend]) (auto simp: InitiateSendAsync_def split: if_splits)
  next
    case False
    then show ?thesis using request(2,3) unfolding request(1)
      by (intro io_keep [OF assms(2)]) (auto simp: InitiateSendAsync_def split: if_splits)
  qed
next
  case post_request
  then show ?thesis unfolding post_request(1) by (intro io_give [OF assms(2)]) simp_all
next
  case (take_requested k)
  then show ?thesis unfolding take_requested(1) by (intro io_get [OF assms(2)]) simp_all
next
  case requested
  then show ?thesis unfolding requested(1)
    by (intro io_clear [OF assms(2), where io = IoType_InitiateSend]) (simp_all add: PostInitiateSend_def)
next
  case (release io)
  then show ?thesis unfolding release(1) by (intro io_clear [OF assms(2), where io = io]) simp_all
next
  case (take_failure io k)
  then show ?thesis unfolding take_failure(1) by (intro io_get [OF assms(2)]) simp_all
next
  case (failure io)
  then show ?thesis unfolding failure(1)
    by (intro io_clear [OF assms(2), where io = io]) (simp_all add: PostIoFailed_def)
next
  case (push_message ty body s')
  then show ?thesis using push_flags [OF push_message(3)] assms(2) by (simp add: io_same)
next
  case (peek_message m s')
  then show ?thesis using peek_flags [OF peek_message(3)] assms(2) by (simp add: io_same)
next
  case (pop_message n)
  then show ?thesis using assms(2) by (simp add: io_same PopReceivedMessage_def)
next
  case clean_up
  have C: "isIoOnline (Cleanup (ses d)) = isIoOnline (ses d)" "shouldClose (Cleanup (ses d))" by (simp_all add: Cleanup_def)
  have "slots d'" using clean_up assms(2) C(1) unfolding clean_up(1) by (intro slots_keep) (simp_all add: io_ok_def)
  moreover have "closing_ok d'" using clean_up(1) assms(2) C by (auto simp: io_ok_def closing_ok_def final_def)
  ultimately show ?thesis by (simp add: io_ok_def)
next
  case answer_closing
  have S: "shouldClose (ses d)" using answer_closing(2) assms(2) unfolding io_ok_def closing_ok_def by blast
  have "slots (move t Away d)" using answer_closing(2) assms(2) slots_keep [of d t Away "ses d"] by (simp add: io_ok_def)
  then have "slots d'" using answer_closing(1) by (simp add: slots_def)
  moreover have "closing_ok d'" using S answer_closing(1) assms(2) by (auto simp: io_ok_def closing_ok_def final_def)
  ultimately show ?thesis by (simp add: io_ok_def)
qed

lemma io_step_ok: "io_step T pr d d' \<Longrightarrow> io_ok d \<Longrightarrow> io_ok d'"
  by (auto simp: io_step_iff intro: receiving_step_ok sending_step_ok other_step_ok)

interpretation io: step_system "io_step T pr" io_ok for T pr
  by unfold_locales (rule io_step_ok)

lemma new_io_ok: "io_ok (new_io (new_session pr y c a))"
  by (simp add: io_ok_def slots_def slot_def closing_ok_def new_io_def new_session_def)

lemma slot_facts:
  assumes "slot on w h"
  shows "w \<le> 1" "h t \<Longrightarrow> h u \<Longrightarrow> t = u" "w = 1 \<Longrightarrow> \<not> h t" "on \<longleftrightarrow> w = 1 \<or> (\<exists>t. h t)"
proof -
  show "w \<le> 1" "w = 1 \<Longrightarrow> \<not> h t" using assms by (auto simp: slot_def split: if_splits)
  show "t = u" if "h t" "h u" using assms that by (auto simp: slot_def split: if_splits)
  show "on \<longleftrightarrow> w = 1 \<or> (\<exists>t. h t)" using assms by (auto simp: slot_def split: if_splits)
qed

section \<open>Properties\<close>

text \<open>
  C4. The operations of a session, under any number of threads and any interleaving of the parts of its methods.  Of each kind at most
  one operation is accepted by WinSock or the port and not completed, or begun or being completed by a thread, never two of
  these.  \<open>Close\<close> answers true exactly when at that moment there is none of any kind.  Once it has answered true, there is never again
  a receive or a send: none with WinSock, none with a thread, and no thread between the check of \<open>shouldClose\<close> and WinSock.  A
  request to send may still come (\<open>InitiateSendAsync\<close> does not look at \<open>shouldClose\<close>).
\<close>

theorem io_exclusive:
  assumes "(io_step T pr)\<^sup>*\<^sup>* (new_io (new_session pr y c a)) d"
  shows "owed d io \<le> 1 \<and> (\<forall>t u. operation (place d t) = Some io \<and> operation (place d u) = Some io \<longrightarrow> t = u) \<and>
    (owed d io = 1 \<longrightarrow> (\<forall>t. operation (place d t) \<noteq> Some io)) \<and>
    (answer_close (ses d) \<longleftrightarrow> (\<forall>io. owed d io = 0 \<and> (\<forall>t. operation (place d t) \<noteq> Some io))) \<and>
    (closed d \<and> io \<noteq> IoType_InitiateSend \<longrightarrow> owed d io = 0 \<and> (\<forall>t. operation (place d t) \<noteq> Some io))"
proof -
  have I: "io_ok d" using io.steps_ok [OF assms new_io_ok] .
  have s: "slot (isIoOnline (ses d) k) (owed d k) (\<lambda>t. operation (place d t) = Some k)" for k
    using I by (simp add: io_ok_def slots_def)
  have off: "\<not> isIoOnline (ses d) k \<longleftrightarrow> owed d k = 0 \<and> (\<forall>t. operation (place d t) \<noteq> Some k)" for k
    using slot_facts(1,4) [OF s [of k]] by auto
  have "\<not> isIoOnline (ses d) io" if "closed d" "io \<noteq> IoType_InitiateSend"
    using I that by (cases io) (simp_all add: io_ok_def closing_ok_def final_def)
  then show ?thesis using slot_facts(1-3) [OF s [of io]] off by simp
qed

text \<open>A receive is posted; another thread begins to close; the receive fails and is completed; the answer is true.\<close>

definition closed_run :: "null_state io_run" where
  "closed_run = (let s = Cleanup (new_session demo_protocol null_start 7 ''Auth'')
     in \<lparr>ses = s, place = (\<lambda>t. Away), owed = (\<lambda>io. 0), closed = True\<rparr>)"

lemma closed_run_reached:
  "(io_step null_tls demo_protocol)\<^sup>*\<^sup>* (new_io (new_session demo_protocol null_start 7 ''Auth'')) closed_run"
proof -
  let ?s = "new_session demo_protocol null_start 7 ''Auth''" and ?step = "io_step null_tls demo_protocol"
  let ?on = "set_online IoType_Receive True ?s"
  define d1 where "d1 = move 0 Offering ((new_io ?s)\<lparr>ses := ?on\<rparr>)"
  define d2 where "d2 = move 0 Away (d1\<lparr>owed := (owed d1)(IoType_Receive := Suc (owed d1 IoType_Receive))\<rparr>)"
  define d3 where "d3 = move 1 Closing (d2\<lparr>ses := Cleanup (ses d2)\<rparr>)"
  define d4 where "d4 = move 0 (Failed IoType_Receive) (d3\<lparr>owed := (owed d3)(IoType_Receive := 0)\<rparr>)"
  define d5 where "d5 = move 0 Away (d4\<lparr>ses := PostIoFailed IoType_Receive (ses d4)\<rparr>)"
  define d6 where "d6 = move 1 Away (d5\<lparr>closed := (closed d5 \<or> answer_close (ses d5))\<rparr>)"
  note defs = d1_def d2_def d3_def d4_def d5_def d6_def
  have "begin_receive ?s = (True, ?on)" by (simp add: begin_receive_def new_session_def)
  then have 1: "?step (new_io ?s) d1"
    using start_receive [of "new_io ?s" 0 True ?on null_tls demo_protocol] by (auto simp: d1_def new_io_def intro: by_receiving)
  have "receive_window demo_protocol ?on = Some (0, 16)"
    by (simp add: receive_window_def new_session_def set_online_def BufferCapacity_def GetRingBufferSize_def demo_protocol_def)
  then have 2: "?step d1 d2" using recv [of d1 0 demo_protocol "(0, 16)" null_tls] by (auto simp: d1_def d2_def intro: by_receiving)
  have 3: "?step d2 d3" using clean_up [of d2 1 demo_protocol] by (auto simp: d1_def d2_def d3_def new_io_def intro: by_other)
  have 4: "?step d3 d4" using take_failure [of d3 0 IoType_Receive 0 demo_protocol]
    by (auto simp: d1_def d2_def d3_def d4_def new_io_def intro: by_other)
  have 5: "?step d4 d5" using failure [of d4 0 IoType_Receive demo_protocol] by (auto simp: d4_def d5_def intro: by_other)
  have 6: "?step d5 d6" using answer_closing [of d5 1 demo_protocol]
    by (auto simp: d3_def d4_def d5_def d6_def intro: by_other)
  have e: "closed_run = d6"
    by (simp add: defs closed_run_def new_io_def Cleanup_def PostIoFailed_def set_online_def new_session_def fun_eq_iff)
  have r: "?step\<^sup>*\<^sup>* (new_io ?s) d6"
    by (rule converse_rtranclp_into_rtranclp, rule 1, rule converse_rtranclp_into_rtranclp, rule 2,
      rule converse_rtranclp_into_rtranclp, rule 3, rule converse_rtranclp_into_rtranclp, rule 4,
      rule converse_rtranclp_into_rtranclp, rule 5, rule converse_rtranclp_into_rtranclp, rule 6, rule rtranclp.rtrancl_refl)
  show ?thesis unfolding e by (rule r)
qed

theorem io_exclusive_witness:
  "closed closed_run \<and> owed closed_run IoType_Receive = 0 \<and> (\<forall>t. operation (place closed_run t) \<noteq> Some IoType_Receive)"
  using io_exclusive [OF closed_run_reached, of IoType_Receive] by (simp add: closed_run_def)

end
