(* ===== verification/Recv_Steps.thy ===== *)
theory Recv_Steps
  imports Session_Io
begin

text \<open>
  The receiving of a session by several worker threads, in finer steps than in \<open>Net_Server\<close>.  \<open>NetworkServer::PostReceive\<close>
  posts the next receive before its loop over the complete messages.  The next completion may therefore come to another thread,
  which enters the same loop while the first one is still in it: \<open>sessionsMutex_\<close> is only locked shared, and
  \<open>PeekReceivedMessage\<close> and \<open>PopReceivedMessage\<close> lock nothing.  Two theorems: while the loop is not entered by two threads, each
  message goes to the actor once, in order; if it is, a message is delivered twice.
\<close>

section \<open>Steps\<close>

text \<open>
  Where a worker thread is: before a completion; after \<open>TryPostReceive\<close>, with whether it is to receive again; at the head of the
  loop; with a message that it has copied; after pushing it, before \<open>PopReceivedMessage\<close> for so many bytes.
\<close>

datatype recv_pc = Waiting | Processed bool | Looking | Holding u16 u16 "u8 list" | Popping nat

text \<open>
  \<open>mailbox\<close> are the messages that were pushed to the actor, \<open>plain\<close> is the plaintext that was put into the application buffer;
  the code has no such variable.
\<close>

record 't receiver =
  rsess :: "'t session"
  worker :: "nat \<Rightarrow> recv_pc"
  mailbox :: "(u16 \<times> u8 list) list"
  plain :: "u8 list"

definition new_receiver :: "'t session \<Rightarrow> 't receiver" where
  "new_receiver s = \<lparr>rsess = s, worker = (\<lambda>t. Waiting), mailbox = [], plain = []\<rparr>"

abbreviation moves :: "nat \<Rightarrow> recv_pc \<Rightarrow> 't receiver \<Rightarrow> 't receiver" where
  "moves t p r \<equiv> r\<lparr>worker := (worker r)(t := p)\<rparr>"

text \<open>
  A completion: the network has written bytes where \<open>TryReceiveAsync\<close> asked for them, and \<open>TryPostReceive\<close> handles them.  Then
  the next receive, with the answer of \<open>WSARecv\<close>, and the loop.  What follows the loop of the last receive of a session, its
  clean-up, is left out.
\<close>

inductive recv_step :: "'t tls \<Rightarrow> session_protocol \<Rightarrow> nat \<Rightarrow> 't receiver \<Rightarrow> 't receiver \<Rightarrow> bool" for T pr t where
  completes: "worker r t = Waiting \<Longrightarrow> isIoOnline (rsess r) IoType_Receive \<Longrightarrow>
    length bs \<le> BufferCapacity pr - receiveTlsBufferTail (rsess r) \<Longrightarrow>
    store_bytes (ReceiveTlsBuffer (rsess r)) (receiveTlsBufferTail (rsess r)) bs = Inr buf \<Longrightarrow>
    TryPostReceive T pr (length bs) ((rsess r)\<lparr>ReceiveTlsBuffer := buf\<rparr>) = Some (Inr (ok, s')) \<Longrightarrow>
    recv_step T pr t r (moves t (Processed (ok \<and> 0 < length bs))
      (r\<lparr>rsess := s', plain := plain r @ drop (length (app_content (rsess r))) (app_content s')\<rparr>))"
| reposts: "worker r t = Processed again \<Longrightarrow>
    (if again then TryReceiveAsync pr recvOk (rsess r) else (None, rsess r)) = (posted, s') \<Longrightarrow>
    recv_step T pr t r (moves t Looking (r\<lparr>rsess := s'\<rparr>))"
| looks: "worker r t = Looking \<Longrightarrow> PeekReceivedMessage pr (rsess r) = Inr (m, s') \<Longrightarrow>
    recv_step T pr t r (moves t (case m of None \<Rightarrow> Waiting | Some (ty, k, body) \<Rightarrow> Holding ty k body) (r\<lparr>rsess := s'\<rparr>))"
| pushes: "worker r t = Holding ty k body \<Longrightarrow>
    recv_step T pr t r (moves t (Popping (MessageHeaderSize pr + unat k)) (r\<lparr>mailbox := mailbox r @ [(ty, body)]\<rparr>))"
| pops: "worker r t = Popping n \<Longrightarrow>
    recv_step T pr t r (moves t Looking (r\<lparr>rsess := PopReceivedMessage pr n (rsess r)\<rparr>))"

inductive any_recv_step :: "'t tls \<Rightarrow> session_protocol \<Rightarrow> 't receiver \<Rightarrow> 't receiver \<Rightarrow> bool" for T pr where
  by_worker: "recv_step T pr t r r' \<Longrightarrow> any_recv_step T pr r r'"

text \<open>A step in which no thread enters the loop while another one is in it.\<close>

definition in_loop :: "recv_pc \<Rightarrow> bool" where
  "in_loop p \<longleftrightarrow> (case p of Looking \<Rightarrow> True | Holding ty k body \<Rightarrow> True | Popping n \<Rightarrow> True | _ \<Rightarrow> False)"

lemma in_loop_simps [simp]:
  "\<not> in_loop Waiting" "\<not> in_loop (Processed b)" "in_loop Looking" "in_loop (Holding ty k body)" "in_loop (Popping n)"
  by (simp_all add: in_loop_def)

definition one_by_one :: "'t tls \<Rightarrow> session_protocol \<Rightarrow> 't receiver \<Rightarrow> 't receiver \<Rightarrow> bool" where
  "one_by_one T pr r r' \<longleftrightarrow> any_recv_step T pr r r' \<and>
     (\<forall>t u b. worker r t = Processed b \<and> worker r' t = Looking \<longrightarrow> \<not> in_loop (worker r u))"

section \<open>Each message once\<close>

text \<open>The bytes that a thread in the loop has delivered but not yet popped.\<close>

definition delivered_bytes :: "recv_pc \<Rightarrow> nat" where
  "delivered_bytes p = (case p of Popping n \<Rightarrow> n | _ \<Rightarrow> 0)"

lemma delivered_bytes_simps [simp]:
  "delivered_bytes Waiting = 0" "delivered_bytes (Processed b) = 0" "delivered_bytes Looking = 0"
  "delivered_bytes (Holding ty k body) = 0" "delivered_bytes (Popping n) = n"
  by (simp_all add: delivered_bytes_def)

text \<open>
  The messages of the plaintext are those in the mailbox and the frames of the rest of the application buffer.  A thread that
  holds a message holds the first frame; frames wait only if somebody will look.
\<close>

definition accounted :: "(u16 \<times> u8 list) list \<Rightarrow> u8 list \<Rightarrow> u8 list \<Rightarrow> bool" where
  "accounted ms rest P \<longleftrightarrow> frames P = (ms @ fst (frames rest), snd (frames rest))"

text \<open>\<open>h\<close> is the thread in the loop.\<close>

definition stage :: "nat option \<Rightarrow> 't receiver \<Rightarrow> recv_pc" where
  "stage h r = (case h of None \<Rightarrow> Waiting | Some t \<Rightarrow> worker r t)"

lemma stage_simps [simp]: "stage None r = Waiting" "stage (Some t) r = worker r t"
  by (simp_all add: stage_def)

definition recv_ok :: "session_protocol \<Rightarrow> nat option \<Rightarrow> 't receiver \<Rightarrow> bool" where
  "recv_ok pr h r \<longleftrightarrow> session_ok pr (rsess r) \<and> tls_in (rsess r) = [] \<and> Ssl (rsess r) \<noteq> None \<and>
     (\<forall>u. in_loop (worker r u) \<longleftrightarrow> h = Some u) \<and>
     (\<forall>ty k body. stage h r = Holding ty k body \<longrightarrow> next_frame (app_content (rsess r)) = Some (ty, k, body)) \<and>
     delivered_bytes (stage h r) \<le> length (app_content (rsess r)) \<and>
     accounted (mailbox r) (drop (delivered_bytes (stage h r)) (app_content (rsess r))) (plain r) \<and>
     ((\<forall>t. worker r t = Waiting) \<longrightarrow> next_frame (app_content (rsess r)) = None)"

lemma accounted_more: "accounted ms c P \<Longrightarrow> accounted ms (c @ Q) (P @ Q)"
  unfolding accounted_def by (subst frames_append [of P Q], subst (1 2) frames_append [of c Q]) simp

lemma accounted_next:
  "accounted ms c P \<Longrightarrow> next_frame c = Some (ty, k, body) \<Longrightarrow> accounted (ms @ [(ty, body)]) (drop (4 + unat k) c) P"
  unfolding accounted_def using frames_step [of c ty k body] by simp

lemma recv_okD:
  assumes "recv_ok pr h r"
  shows "session_ok pr (rsess r)" "app_ok pr (rsess r)" "tls_in (rsess r) = []" "\<exists>y. Ssl (rsess r) = Some y"
    "in_loop (worker r u) \<longleftrightarrow> h = Some u"
    "worker r t = Holding ty k body \<Longrightarrow> next_frame (app_content (rsess r)) = Some (ty, k, body)"
    "delivered_bytes (stage h r) \<le> length (app_content (rsess r))"
    "accounted (mailbox r) (drop (delivered_bytes (stage h r)) (app_content (rsess r))) (plain r)"
proof -
  show "worker r t = Holding ty k body \<Longrightarrow> next_frame (app_content (rsess r)) = Some (ty, k, body)"
    using assms in_loop_simps(4) [of ty k body] unfolding recv_ok_def by (metis stage_simps(2))
qed (use assms in \<open>auto simp: recv_ok_def session_ok_def\<close>)

lemma peek_result:
  assumes "app_ok pr s" and "protocol_ok pr" and "PeekReceivedMessage pr s = Inr (m, s')"
  shows "m = next_frame (app_content s)" "s' = s \<or> (\<exists>pop. length pop = MessageMaxSize pr \<and> s' = s\<lparr>ReceiveContiguousPopBuffer := pop\<rparr>)"
  using peek_spec [OF assms(1,2)] assms(3) by (auto split: option.splits prod.splits if_splits)

lemma pop_session_ok: "session_ok pr s \<Longrightarrow> n \<le> length (app_content s) \<Longrightarrow> session_ok pr (PopReceivedMessage pr n s)"
  using pop_ok(1) [of pr s n] by (simp add: session_ok_def PopReceivedMessage_def)

lemma recv_step_ok:
  assumes st: "recv_step T pr t r r'" and R: "recv_ok pr h r" and T: "tls_laws T V" "\<not> wants_write T" and P: "protocol_ok pr"
    and o: "\<And>u b. worker r t = Processed b \<Longrightarrow> worker r' t = Looking \<Longrightarrow> \<not> in_loop (worker r u)"
  shows "\<exists>h. recv_ok pr h r'"
proof -
  note D = recv_okD [OF R]
  from st show ?thesis
  proof cases
    case (completes bs buf ok s')
    obtain y where "Ssl (rsess r) = Some y" using D(4) by blast
    from block_received [OF T D(1) this D(3) completes(4,5)] completes(6) obtain y' Q where
      "Ssl s' = Some y'" "session_ok pr s'" "tls_in s' = []"
      "app_content s' = (if ok then app_content (rsess r) @ Q else app_content (rsess r))"
      by (metis (no_types, lifting) Pair_inject option.inject sum.inject(2))
    then obtain Q' where s': "Ssl s' \<noteq> None" "session_ok pr s'" "tls_in s' = []" "app_content s' = app_content (rsess r) @ Q'"
      by (metis append.right_neutral option.distinct(1))
    have "h \<noteq> Some t" using D(5) [of t] completes(2) by simp
    then have g: "stage h r' = stage h r" using completes(1) by (cases h) simp_all
    have "next_frame (app_content s') = Some f" if "next_frame (app_content (rsess r)) = Some f" for f
      using s'(4) next_frame_append [OF that] by simp
    moreover have "accounted (mailbox r) (drop (delivered_bytes (stage h r)) (app_content s')) (plain r @ Q')"
      using accounted_more [OF D(8), of Q'] D(7) s'(4) by simp
    ultimately have "recv_ok pr h r'" using R s' D(7) g unfolding recv_ok_def completes(1)
      using completes(2) \<open>h \<noteq> Some t\<close> by (auto split: if_splits)
    then show ?thesis ..
  next
    case (reposts again recvOk posted s')
    have s': "s' = rsess r \<or> (\<exists>b. s' = set_online IoType_Receive b (rsess r))"
      using reposts(3) by (auto simp: TryReceiveAsync_def Let_def set_online_def split: if_splits)
    have "h = None" using o [OF reposts(2)] D(5) reposts(1) by (cases h) auto
    then have "recv_ok pr (Some t) r'" using R s' unfolding recv_ok_def reposts(1)
      by (auto simp: set_online_def session_ok_def app_ok_def tls_in_def app_content_def)
    then show ?thesis ..
  next
    case (looks m s')
    have h: "h = Some t" using D(5) [of t] looks(2) by simp
    have s': "session_ok pr s'" "tls_in s' = []" "Ssl s' = Ssl (rsess r)" "app_content s' = app_content (rsess r)"
      using peek_result(2) [OF D(2) P looks(3)] D(1,3)
      by (auto simp: session_ok_def app_ok_def tls_in_def app_content_def)
    show ?thesis
    proof (cases m)
      case None
      then have "next_frame (app_content (rsess r)) = None" using peek_result(1) [OF D(2) P looks(3)] by simp
      then have "recv_ok pr None r'" using R s' h looks(2) None unfolding recv_ok_def looks(1) by auto
      then show ?thesis ..
    next
      case (Some f)
      obtain ty k body where f: "f = (ty, k, body)" by (cases f)
      have "next_frame (app_content (rsess r)) = Some (ty, k, body)"
        using peek_result(1) [OF D(2) P looks(3)] Some f by simp
      then have "recv_ok pr (Some t) r'" using R s' h looks(2) Some f unfolding recv_ok_def looks(1)
        by (auto split: if_splits)
      then show ?thesis ..
    qed
  next
    case (pushes ty k body)
    have h: "h = Some t" using D(5) [of t] pushes(2) by simp
    have f: "next_frame (app_content (rsess r)) = Some (ty, k, body)" by (rule D(6) [OF pushes(2)])
    have "accounted (mailbox r @ [(ty, body)]) (drop (4 + unat k) (app_content (rsess r))) (plain r)"
      using accounted_next [OF _ f] D(8) h pushes(2) by simp
    moreover have "MessageHeaderSize pr = 4" using P by (simp add: protocol_ok_def sizeof_MessageHeader_def)
    moreover have "4 + unat k \<le> length (app_content (rsess r))" using next_frame_Some [OF f] by blast
    ultimately have "recv_ok pr (Some t) r'" using R h pushes(2) unfolding recv_ok_def pushes(1)
      by (auto split: if_splits)
    then show ?thesis ..
  next
    case (pops n)
    have h: "h = Some t" using D(5) [of t] pops(2) by simp
    then have n: "n \<le> length (app_content (rsess r))" using D(7) pops(2) by simp
    let ?s = "PopReceivedMessage pr n (rsess r)"
    have "session_ok pr ?s" "app_content ?s = drop n (app_content (rsess r))" "tls_in ?s = []" "Ssl ?s = Ssl (rsess r)"
      using pop_session_ok [OF D(1) n] pop_ok(2) [OF D(2) n] D(3) by (simp_all add: PopReceivedMessage_def tls_in_def)
    then have "recv_ok pr (Some t) r'" using R h pops(2) unfolding recv_ok_def pops(1)
      by (auto split: if_splits)
    then show ?thesis ..
  qed
qed

lemma one_by_one_ok:
  assumes s: "one_by_one T pr r r'" and R: "recv_ok pr h r" and T: "tls_laws T V" "\<not> wants_write T" and P: "protocol_ok pr"
  shows "\<exists>h. recv_ok pr h r'"
proof -
  obtain t where t: "recv_step T pr t r r'" using s by (auto simp: one_by_one_def elim: any_recv_step.cases)
  have "\<not> in_loop (worker r u)" if "worker r t = Processed b" "worker r' t = Looking" for u b
    using s that by (auto simp: one_by_one_def)
  then show ?thesis by (rule recv_step_ok [OF t R T P])
qed

interpretation recv: step_system "one_by_one T pr"
  "\<lambda>r. tls_laws T V \<and> \<not> wants_write T \<and> protocol_ok pr \<and> (\<exists>h. recv_ok pr h r)" for T pr V
  by unfold_locales (use one_by_one_ok in blast)

lemma new_receiver_ok:
  "session_ok pr s \<Longrightarrow> tls_in s = [] \<Longrightarrow> Ssl s = Some y \<Longrightarrow> app_content s = [] \<Longrightarrow> recv_ok pr None (new_receiver s)"
  by (simp add: recv_ok_def new_receiver_def accounted_def frames.simps)

section \<open>Properties\<close>

text \<open>
  C18.  Each message once.  As long as no thread enters the loop of \<open>PostReceive\<close> while another one is in it, the messages
  pushed to the actor are the complete frames of the plaintext received, in order and without repetition; none is missing
  when all threads wait for completions.
\<close>

theorem messages_once:
  assumes "(one_by_one T pr)\<^sup>*\<^sup>* (new_receiver s) r" and "tls_laws T V" and "\<not> wants_write T" and "protocol_ok pr"
    and "session_ok pr s" and "tls_in s = []" and "Ssl s = Some y" and "app_content s = []"
  shows "\<exists>rest. fst (frames (plain r)) = mailbox r @ rest \<and> ((\<forall>t. worker r t = Waiting) \<longrightarrow> rest = [])"
proof -
  obtain h where R: "recv_ok pr h r" using recv.steps_ok [OF assms(1), of V] new_receiver_ok [OF assms(5-8)] assms(2-4) by blast
  let ?rest = "drop (delivered_bytes (stage h r)) (app_content (rsess r))"
  have "fst (frames (plain r)) = mailbox r @ fst (frames ?rest)" using recv_okD(8) [OF R] by (simp add: accounted_def)
  moreover have "fst (frames ?rest) = []" if w: "\<forall>t. worker r t = Waiting"
  proof -
    have "next_frame (app_content (rsess r)) = None" "delivered_bytes (stage h r) = 0"
      using R w by (auto simp: recv_ok_def stage_def split: option.split)
    then show ?thesis by (simp add: frames.simps)
  qed
  ultimately show ?thesis by blast
qed

text \<open>A session that waits for bytes; when it has received one frame of four bytes; and one byte more.\<close>

definition awaiting :: "null_state session" where
  "awaiting = set_online IoType_Receive True (new_session demo_protocol null_start 7 ''Auth'')"

definition one_frame :: "null_state session" where
  "one_frame = (new_session demo_protocol null_start 7 ''Auth'')
     \<lparr>Ssl := Some \<lparr>nFed = [0, 3, 0, 0], nDelivered = [0, 3, 0, 0], nAccepted = [], nPending = []\<rparr>,
      ReceiveTlsBuffer := [0, 3, 0, 0] @ replicate 12 0, receiveTlsBufferHead := 4, receiveTlsBufferTail := 4,
      ReceiveAppBuffer := [0, 3, 0, 0] @ replicate 12 0, receiveAppBufferTail := 4\<rparr>"

definition one_more :: "null_state session" where
  "one_more = (new_session demo_protocol null_start 7 ''Auth'')
     \<lparr>Ssl := Some \<lparr>nFed = [0, 3, 0, 0, 0], nDelivered = [0, 3, 0, 0, 0], nAccepted = [], nPending = []\<rparr>,
      ReceiveTlsBuffer := [0, 3, 0, 0, 0] @ replicate 11 0, receiveTlsBufferHead := 5, receiveTlsBufferTail := 5,
      ReceiveAppBuffer := [0, 3, 0, 0, 0] @ replicate 11 0, receiveAppBufferTail := 5\<rparr>"

lemma null_receives:
  "BIO_write null_tls bs y = (int (length bs), y\<lparr>nFed := nFed y @ bs\<rparr>)"
  "SSL_read null_tls n y = (let rest = drop (length (nDelivered y)) (nFed y) in
     if rest = [] \<or> n = 0 then (Inl SSL_ERROR_WANT_READ, y)
     else (Inr (take n rest), y\<lparr>nDelivered := nDelivered y @ take n rest\<rparr>))"
  by (simp_all add: null_tls_def)

lemmas receive_eval = null_receives post_receive_loop.simps [of null_tls] feed_bio.simps [of null_tls] read_app.simps [of null_tls]
  TryProcessReceiveBuffers_def TryPostReceive_def bio_write_at_def ssl_read_at_def store_bytes_def load_bytes_def
  null_start_def new_session_def demo_protocol_def BufferCapacity_def set_online_def Let_def crash_cond_def

lemma first_block:
  "TryPostReceive null_tls demo_protocol 4 (awaiting\<lparr>ReceiveTlsBuffer := [0, 3, 0, 0] @ replicate 12 0\<rparr>) = Some (Inr (True, one_frame))"
  by (simp add: receive_eval awaiting_def one_frame_def fun_upd_idem)

lemma second_block:
  "TryPostReceive null_tls demo_protocol 1 ((set_online IoType_Receive True one_frame)\<lparr>ReceiveTlsBuffer := [0, 3, 0, 0, 0] @ replicate 11 0\<rparr>) =
     Some (Inr (True, one_more))"
  by (simp add: receive_eval one_frame_def one_more_def fun_upd_idem)

lemma next_posted:
  "TryReceiveAsync demo_protocol True one_frame = (Some (4, 12), set_online IoType_Receive True one_frame)"
  "TryReceiveAsync demo_protocol True one_more = (Some (5, 11), set_online IoType_Receive True one_more)"
  by (simp_all add: TryReceiveAsync_def one_frame_def one_more_def new_session_def BufferCapacity_def GetRingBufferSize_def demo_protocol_def Let_def)

lemma first_place:
  "isIoOnline awaiting IoType_Receive" "4 \<le> BufferCapacity demo_protocol - receiveTlsBufferTail awaiting"
  "store_bytes (ReceiveTlsBuffer awaiting) (receiveTlsBufferTail awaiting) [0, 3, 0, 0] = Inr ([0, 3, 0, 0] @ replicate 12 0)"
  by (simp_all add: awaiting_def new_session_def BufferCapacity_def demo_protocol_def set_online_def store_bytes_def)

lemma second_place:
  "1 \<le> BufferCapacity demo_protocol - receiveTlsBufferTail (set_online IoType_Receive True one_frame)"
  "store_bytes (ReceiveTlsBuffer (set_online IoType_Receive True one_frame)) (receiveTlsBufferTail (set_online IoType_Receive True one_frame)) [0] =
     Inr ([0, 3, 0, 0, 0] @ replicate 11 0)"
  by (simp_all add: one_frame_def new_session_def BufferCapacity_def demo_protocol_def set_online_def store_bytes_def)

lemma header_words: "Htons (word16 0 0) = 0" "Htons (word16 0 3) = 3"
  by code_simp+

lemma same_message:
  "PeekReceivedMessage demo_protocol (set_online IoType_Receive True one_frame) = Inr (Some (3, 0, []), set_online IoType_Receive True one_frame)"
  "PeekReceivedMessage demo_protocol (set_online IoType_Receive True one_more) = Inr (Some (3, 0, []), set_online IoType_Receive True one_more)"
  by (simp_all add: PeekReceivedMessage_def GetReadableSizes_eq ring_size_def one_frame_def one_more_def new_session_def BufferCapacity_def
      demo_protocol_def set_online_def load_bytes_def header_words peek_body_def Let_def)

lemma contents: "app_content awaiting = []" "app_content one_frame = [0, 3, 0, 0]" "app_content one_more = [0, 3, 0, 0, 0]"
  "app_content (set_online io b s) = app_content s"
  by (simp_all add: awaiting_def one_frame_def one_more_def new_session_def BufferCapacity_def demo_protocol_def set_online_def
      app_content_def ring_content_def ring_size_def ring_bytes_def upt_rec)

text \<open>The first thread has copied the message, but not yet pushed and popped it.\<close>

definition first_held :: "null_state receiver" where
  "first_held = moves 0 (Holding 3 0 []) ((new_receiver (set_online IoType_Receive True one_frame))\<lparr>plain := [0, 3, 0, 0]\<rparr>)"

definition first_pushed :: "null_state receiver" where
  "first_pushed = moves 0 (Popping 4) (first_held\<lparr>mailbox := [(3, [])]\<rparr>)"

lemma held_run: "(one_by_one null_tls demo_protocol)\<^sup>*\<^sup>* (new_receiver awaiting) first_held"
proof -
  let ?on = "set_online IoType_Receive True" and ?R = "one_by_one null_tls demo_protocol"
  let ?r0 = "new_receiver awaiting"
  let ?r1 = "moves 0 (Processed True) (?r0\<lparr>rsess := one_frame, plain := [0, 3, 0, 0]\<rparr>)"
  let ?r2 = "moves 0 Looking (?r1\<lparr>rsess := ?on one_frame\<rparr>)"
  have l: "length [0, 3, 0, 0 :: u8] = 4" by simp
  have "recv_step null_tls demo_protocol 0 ?r0 ?r1"
    using completes [of ?r0 0 "[0, 3, 0, 0]" demo_protocol "[0, 3, 0, 0] @ replicate 12 0" null_tls True one_frame, unfolded l]
      first_block first_place by (simp add: new_receiver_def contents)
  from by_worker [OF this] have s1: "?R ?r0 ?r1" by (simp add: one_by_one_def new_receiver_def)
  have "recv_step null_tls demo_protocol 0 ?r1 ?r2"
    using reposts [of ?r1 0 True demo_protocol True "Some (4, 12)" "?on one_frame" null_tls] next_posted by simp
  from by_worker [OF this] have s2: "?R ?r1 ?r2" by (simp add: one_by_one_def new_receiver_def)
  have "recv_step null_tls demo_protocol 0 ?r2 first_held"
    using looks [of ?r2 0 demo_protocol "Some (3, 0, [])" "?on one_frame" null_tls] same_message
    by (simp add: first_held_def new_receiver_def)
  from by_worker [OF this] have s3: "?R ?r2 first_held" by (simp add: one_by_one_def first_held_def new_receiver_def)
  show ?thesis by (rule converse_rtranclp_into_rtranclp, rule s1, rule converse_rtranclp_into_rtranclp, rule s2, rule r_into_rtranclp, rule s3)
qed

lemma first_push: "recv_step null_tls demo_protocol 0 first_held first_pushed"
  using pushes [of first_held 0 3 0 "[]" null_tls demo_protocol] by (simp add: first_pushed_def first_held_def new_receiver_def demo_protocol_def)

lemma one_by_one_any: "(one_by_one T pr)\<^sup>*\<^sup>* r r' \<Longrightarrow> (any_recv_step T pr)\<^sup>*\<^sup>* r r'"
  by (rule rtranclp_mono [THEN predicate2D]) (auto simp: one_by_one_def)

lemma awaiting_facts:
  "session_ok demo_protocol awaiting" "tls_in awaiting = []" "Ssl awaiting = Some null_start" "app_content awaiting = []"
  using fresh_demo fresh_demo_receive(1) contents(1) by (simp_all add: awaiting_def)

theorem messages_once_witness:
  "mailbox first_pushed = [(3, [])] \<and> (\<exists>rest. fst (frames (plain first_pushed)) = mailbox first_pushed @ rest)"
proof -
  have "one_by_one null_tls demo_protocol first_held first_pushed"
    using by_worker [OF first_push] by (auto simp: one_by_one_def first_held_def first_pushed_def new_receiver_def)
  then have run: "(one_by_one null_tls demo_protocol)\<^sup>*\<^sup>* (new_receiver awaiting) first_pushed"
    by (rule rtranclp.rtrancl_into_rtrancl [OF held_run])
  show ?thesis
    using messages_once [OF run null_laws null_never_writes demo_facts(1) awaiting_facts] by (auto simp: first_pushed_def)
qed

text \<open>
  C19.  The order in \<open>PostReceive\<close> matters.  It posts the next receive before it looks for messages, so a second thread may
  find the message that the first one has copied and not yet popped.  A run of two threads in which the client sends one complete
  message and the actor gets it twice.
\<close>

theorem message_delivered_twice:
  "\<exists>r. (any_recv_step null_tls demo_protocol)\<^sup>*\<^sup>* (new_receiver awaiting) r \<and>
     plain r = frame (3, []) @ [0] \<and> mailbox r = [(3, []), (3, [])]"
proof -
  let ?on = "set_online IoType_Receive True" and ?S = "recv_step null_tls demo_protocol"
  let ?R = "(any_recv_step null_tls demo_protocol)\<^sup>*\<^sup>* (new_receiver awaiting)"
  let ?r4 = "moves 1 (Processed True) (first_held\<lparr>rsess := one_more, plain := [0, 3, 0, 0, 0]\<rparr>)"
  let ?r5 = "moves 1 Looking (?r4\<lparr>rsess := ?on one_more\<rparr>)"
  let ?r6 = "moves 1 (Holding 3 0 []) ?r5"
  let ?r7 = "moves 0 (Popping 4) (?r6\<lparr>mailbox := [(3, [])]\<rparr>)"
  let ?r8 = "moves 1 (Popping 4) (?r7\<lparr>mailbox := [(3, []), (3, [])]\<rparr>)"
  have st: "?S t r r' \<Longrightarrow> ?R r \<Longrightarrow> ?R r'" for t r r'
    by (blast intro: rtranclp.rtrancl_into_rtrancl by_worker)
  have l: "length [0 :: u8] = 1" by simp
  note start = first_held_def new_receiver_def demo_protocol_def
  have s4: "?S 1 first_held ?r4"
    using completes [of first_held 1 "[0]" demo_protocol "[0, 3, 0, 0, 0] @ replicate 11 0" null_tls True one_more, unfolded l]
      second_block second_place by (simp add: first_held_def new_receiver_def contents)
  have s5: "?S 1 ?r4 ?r5"
    using reposts [of ?r4 1 True demo_protocol True "Some (5, 11)" "?on one_more" null_tls] next_posted by simp
  have s6: "?S 1 ?r5 ?r6"
    using looks [of ?r5 1 demo_protocol "Some (3, 0, [])" "?on one_more" null_tls] same_message by simp
  have s7: "?S 0 ?r6 ?r7" using pushes [of ?r6 0 3 0 "[]" null_tls demo_protocol] by (simp add: start)
  have s8: "?S 1 ?r7 ?r8" using pushes [of ?r7 1 3 0 "[]" null_tls demo_protocol] by (simp add: start)
  have "frame (3, []) = [0, 3, 0, 0]" by code_simp
  moreover have "?R ?r8"
    by (rule st [OF s8 st [OF s7 st [OF s6 st [OF s5 st [OF s4 one_by_one_any [OF held_run]]]]]])
  ultimately show ?thesis by (intro exI [of _ ?r8]) simp
qed

end
