(* ===== verification/Actors.thy ===== *)
theory Actors
  imports Interfaces
begin

text \<open>
  \<open>DynamicActor\<close> and \<open>Actor\<close> (Actor.h, Actor.cpp), \<open>ActorRegistry\<close> and \<open>ActorMessageDispatcher\<close>: message
  handlers by type index, the mailbox of two queues, and pushing to an actor by name.  First each
  operation as a function, then a run of an actor with other threads pushing in between.
\<close>

section \<open>State\<close>

text \<open>
  \<open>'m\<close> are the messages, \<open>'a\<close> is the state of the derived class.  A handler and \<open>Tick\<close> change this
  state or fault.
\<close>

type_synonym ('m, 'a) handler = "'m \<Rightarrow> 'a \<Rightarrow> 'a res"

record ('m, 'a) dynamic_actor =
  Name :: string
  pushIndex :: nat
  messageQueue :: "nat \<Rightarrow> 'm list"
  messageHandlers :: "u32 \<Rightarrow> ('m, 'a) handler option"
  derived :: 'a

text \<open>What a derived class overrides, and the type index a message carries.\<close>

record ('m, 'a) actor_class =
  TypeIndex :: "'m \<Rightarrow> u32"
  OnUnknownMessageReceived :: "('m, 'a) handler"
  Tick :: "'a \<Rightarrow> 'a res"

section \<open>Operations\<close>

definition RegisterHandler ::
    "u32 \<Rightarrow> ('m, 'a) handler \<Rightarrow> ('m, 'a) dynamic_actor \<Rightarrow> ('m, 'a) dynamic_actor res" where
  "RegisterHandler typeIndex h a =
     bindR (crash_cond (messageHandlers a typeIndex \<noteq> None)) (\<lambda>u.
       Inr (a\<lparr>messageHandlers := (messageHandlers a)(typeIndex \<mapsto> h)\<rparr>))"

primrec RegisterHandlers ::
    "(u32 \<times> ('m, 'a) handler) list \<Rightarrow> ('m, 'a) dynamic_actor \<Rightarrow> ('m, 'a) dynamic_actor res" where
  "RegisterHandlers [] a = Inr a"
| "RegisterHandlers (h # hs) a = bindR (RegisterHandler (fst h) (snd h) a) (RegisterHandlers hs)"

definition new_actor :: "string \<Rightarrow> (u32 \<times> ('m, 'a) handler) list \<Rightarrow> 'a \<Rightarrow> ('m, 'a) dynamic_actor res" where
  "new_actor nm hs x = RegisterHandlers hs
     \<lparr>Name = nm, pushIndex = 0, messageQueue = (\<lambda>i. []), messageHandlers = (\<lambda>i. None), derived = x\<rparr>"

text \<open>\<open>PushMessage\<close>; a null message is refused.\<close>

definition actor_PushMessage :: "'m option \<Rightarrow> ('m, 'a) dynamic_actor \<Rightarrow> ('m, 'a) dynamic_actor" where
  "actor_PushMessage message a =
     (case message of None \<Rightarrow> a
      | Some m \<Rightarrow> a\<lparr>messageQueue := (messageQueue a)(pushIndex a := messageQueue a (pushIndex a) @ [m])\<rparr>)"

definition swap_queues :: "('m, 'a) dynamic_actor \<Rightarrow> ('m, 'a) dynamic_actor" where
  "swap_queues a = (if messageQueue a (1 - pushIndex a) = [] then a\<lparr>pushIndex := 1 - pushIndex a\<rparr> else a)"

definition handle_message ::
    "('m, 'a) actor_class \<Rightarrow> 'm \<Rightarrow> ('m, 'a) dynamic_actor \<Rightarrow> ('m, 'a) dynamic_actor res" where
  "handle_message c m a =
     bindR ((case messageHandlers a (TypeIndex c m) of
               Some h \<Rightarrow> h m (derived a)
             | None \<Rightarrow> OnUnknownMessageReceived c m (derived a))) (\<lambda>x.
       Inr (a\<lparr>derived := x\<rparr>))"

primrec handle_messages ::
    "('m, 'a) actor_class \<Rightarrow> 'm list \<Rightarrow> ('m, 'a) dynamic_actor \<Rightarrow> ('m, 'a) dynamic_actor res" where
  "handle_messages c [] a = Inr a"
| "handle_messages c (m # ms) a = bindR (handle_message c m a) (handle_messages c ms)"

definition Run :: "('m, 'a) actor_class \<Rightarrow> ('m, 'a) dynamic_actor \<Rightarrow> ('m, 'a) dynamic_actor res" where
  "Run c a =
     (let a1 = swap_queues a
      in bindR (handle_messages c (messageQueue a1 (1 - pushIndex a1)) a1) (\<lambda>a2.
         let a3 = a2\<lparr>messageQueue := (messageQueue a2)(1 - pushIndex a2 := [])\<rparr>
         in bindR (Tick c (derived a3)) (\<lambda>x. Inr (a3\<lparr>derived := x\<rparr>))))"

text \<open>The registry: the actors by name.  Pushing to an unknown name fails.\<close>

type_synonym ('m, 'a) registry_of_actors = "string \<Rightarrow> ('m, 'a) dynamic_actor option"

definition TryPushMessageTo ::
    "string \<Rightarrow> 'm \<Rightarrow> ('m, 'a) registry_of_actors \<Rightarrow> bool \<times> ('m, 'a) registry_of_actors" where
  "TryPushMessageTo actorName message actors =
     (case actors actorName of None \<Rightarrow> (False, actors)
      | Some a \<Rightarrow> (True, actors(actorName \<mapsto> actor_PushMessage (Some message) a)))"

text \<open>What waits for the actors; pushing by name is what a client of the dispatcher relies on.\<close>

definition waiting :: "('m, 'a) dynamic_actor \<Rightarrow> 'm list" where
  "waiting a = messageQueue a (pushIndex a)"

definition inbox :: "('m, 'a) registry_of_actors \<Rightarrow> string \<Rightarrow> 'm list option" where
  "inbox actors nm = map_option waiting (actors nm)"

interpretation dispatcher: message_router TryPushMessageTo inbox
  by unfold_locales
    (auto simp: TryPushMessageTo_def inbox_def waiting_def actor_PushMessage_def fun_eq_iff split: option.splits)

section \<open>Registration\<close>

lemma RegisterHandlers_eq:
  "RegisterHandlers hs a =
     (if distinct (map fst hs) \<and> (\<forall>i\<in>set (map fst hs). messageHandlers a i = None)
      then Inr (a\<lparr>messageHandlers := messageHandlers a ++ map_of hs\<rparr>) else Inl Aborted)"
proof (induction hs arbitrary: a)
  case Nil
  then show ?case by simp
next
  case (Cons h hs)
  obtain i f where h: "h = (i, f)" by (cases h)
  show ?case
  proof (cases "messageHandlers a i = None")
    case False
    then show ?thesis by (auto simp: RegisterHandler_def h)
  next
    case True
    have "(messageHandlers a)(i \<mapsto> f) ++ map_of hs = messageHandlers a ++ map_of ((i, f) # hs)" if "i \<notin> fst ` set hs"
      using that by (auto simp: fun_eq_iff map_add_def split: option.splits
          dest: map_of_SomeD intro: rev_image_eqI)
    then show ?thesis using True by (auto simp: Cons.IH RegisterHandler_def h simp del: map_of.simps map_add_upd)
  qed
qed

section \<open>Type indices\<close>

text \<open>
  \<open>GetTypeIndex\<close> of Message.h: a counter that all message types share, and for each type a static that takes the next value
  on its first use.
\<close>

record 'k type_indices =
  nextTypeIndex :: u32
  index :: "'k \<Rightarrow> u32 option"

definition no_indices :: "'k type_indices" where
  "no_indices = \<lparr>nextTypeIndex = 0, index = (\<lambda>k. None)\<rparr>"

definition GetNextTypeIndex :: "'k type_indices \<Rightarrow> u32 \<times> 'k type_indices" where
  "GetNextTypeIndex s = (nextTypeIndex s, s\<lparr>nextTypeIndex := nextTypeIndex s + 1\<rparr>)"

definition GetTypeIndex :: "'k \<Rightarrow> 'k type_indices \<Rightarrow> u32 \<times> 'k type_indices" where
  "GetTypeIndex k s =
     (case index s k of
        Some i \<Rightarrow> (i, s)
      | None \<Rightarrow> (let (i, s') = GetNextTypeIndex s in (i, s'\<lparr>index := (index s')(k \<mapsto> i)\<rparr>)))"

text \<open>The first calls for the types \<open>ks\<close>, in this order, and what a later call returns.\<close>

primrec get_indices :: "'k list \<Rightarrow> 'k type_indices \<Rightarrow> 'k type_indices" where
  "get_indices [] s = s"
| "get_indices (k # ks) s = get_indices ks (snd (GetTypeIndex k s))"

definition type_index :: "'k type_indices \<Rightarrow> 'k \<Rightarrow> u32" where
  "type_index s k = fst (GetTypeIndex k s)"

definition indices_ok :: "'k type_indices \<Rightarrow> bool" where
  "indices_ok s \<longleftrightarrow> (\<exists>n. nextTypeIndex s = of_nat n \<and> finite (dom (index s)) \<and> card (dom (index s)) = n \<and>
     (n \<le> 2 ^ 32 \<longrightarrow> (\<forall>k i. index s k = Some i \<longrightarrow> unat i < n) \<and> inj_on (index s) (dom (index s))))"

lemma GetTypeIndex_ok:
  assumes "indices_ok s"
  shows "indices_ok (snd (GetTypeIndex k s)) \<and> dom (index (snd (GetTypeIndex k s))) = insert k (dom (index s)) \<and>
    (\<forall>k' i. index s k' = Some i \<longrightarrow> index (snd (GetTypeIndex k s)) k' = Some i)"
proof (cases "index s k")
  case (Some i)
  then show ?thesis using assms by (auto simp: GetTypeIndex_def insert_absorb)
next
  case None
  let ?s = "snd (GetTypeIndex k s)"
  obtain n where n: "nextTypeIndex s = of_nat n" "finite (dom (index s))" "card (dom (index s)) = n"
    "n \<le> 2 ^ 32 \<Longrightarrow> (\<forall>k i. index s k = Some i \<longrightarrow> unat i < n) \<and> inj_on (index s) (dom (index s))"
    using assms unfolding indices_ok_def by blast
  have s: "nextTypeIndex ?s = of_nat (Suc n)" "index ?s = (index s)(k \<mapsto> of_nat n)"
    using None n(1) by (simp_all add: GetTypeIndex_def GetNextTypeIndex_def add.commute)
  have k: "k \<notin> dom (index s)" using None by auto
  have d: "dom (index ?s) = insert k (dom (index s))" using s(2) by auto
  have "(\<forall>k i. index ?s k = Some i \<longrightarrow> unat i < Suc n) \<and> inj_on (index ?s) (dom (index ?s))" if "Suc n \<le> 2 ^ 32"
  proof -
    have u: "unat (of_nat n :: u32) = n" using that by (simp add: unsigned_of_nat take_bit_nat_eq_self)
    have old: "\<forall>k i. index s k = Some i \<longrightarrow> unat i < n" "inj_on (index s) (dom (index s))" using n(4) that by simp_all
    have "Some (of_nat n :: u32) \<notin> index s ` dom (index s)" using old(1) u by (metis imageE less_irrefl)
    then have "inj_on ((index s)(k \<mapsto> of_nat n)) (dom (index s))" "Some (of_nat n) \<notin> index s ` (dom (index s) - {k})"
      using old(2) by (auto intro: inj_on_fun_updI)
    moreover have "(index s)(k \<mapsto> of_nat n) ` (dom (index s) - {k}) = index s ` (dom (index s) - {k})"
      by (intro image_cong) auto
    ultimately have "inj_on ((index s)(k \<mapsto> of_nat n)) (insert k (dom (index s)))"
      unfolding inj_on_insert by (simp only: fun_upd_same simp_thms)
    then have "inj_on (index ?s) (dom (index ?s))" using d s(2) by simp
    moreover have "unat i < Suc n" if "index ?s k' = Some i" for k' i
      using that old(1) u unfolding s(2) by (cases "k' = k") (auto simp: less_Suc_eq)
    ultimately show ?thesis by blast
  qed
  moreover have "finite (dom (index ?s))" "card (dom (index ?s)) = Suc n" using n(2,3) k unfolding d by simp_all
  ultimately have "indices_ok ?s" unfolding indices_ok_def using s(1) by blast
  then show ?thesis using d s(2) k by auto
qed

lemma get_indices_ok:
  "indices_ok s \<Longrightarrow> indices_ok (get_indices ks s) \<and> dom (index (get_indices ks s)) = set ks \<union> dom (index s)"
proof (induction ks arbitrary: s)
  case (Cons k ks)
  then show ?case using GetTypeIndex_ok [OF Cons.prems, of k] by auto
qed simp

lemma no_indices_ok: "indices_ok no_indices"
  by (simp add: indices_ok_def no_indices_def)

lemma type_index_inj:
  assumes "card (set ks) \<le> 2 ^ 32"
  shows "inj_on (type_index (get_indices ks no_indices)) (set ks)"
proof -
  let ?s = "get_indices ks no_indices"
  have G: "indices_ok ?s" "dom (index ?s) = set ks"
    using get_indices_ok [OF no_indices_ok, of ks] by (simp_all add: no_indices_def)
  have eq: "index ?s k = Some (type_index ?s k)" if "k \<in> set ks" for k
    using that G(2) by (auto simp: type_index_def GetTypeIndex_def split: option.split)
  have "inj_on (index ?s) (set ks)" using G assms unfolding indices_ok_def by auto
  then show ?thesis using eq unfolding inj_on_def by metis
qed

section \<open>A run\<close>

text \<open>The derived state after handling messages one after the other.\<close>

primrec handled_state ::
    "('m, 'a) actor_class \<Rightarrow> (u32 \<Rightarrow> ('m, 'a) handler option) \<Rightarrow> 'm list \<Rightarrow> 'a \<Rightarrow> 'a res" where
  "handled_state c hs [] x = Inr x"
| "handled_state c hs (m # ms) x =
     bindR ((case hs (TypeIndex c m) of Some h \<Rightarrow> h m x | None \<Rightarrow> OnUnknownMessageReceived c m x))
       (handled_state c hs ms)"

lemma handle_messages_eq:
  "handle_messages c ms a = bindR (handled_state c (messageHandlers a) ms (derived a)) (\<lambda>x. Inr (a\<lparr>derived := x\<rparr>))"
  by (induction ms arbitrary: a) (simp_all add: handle_message_def bindR_assoc)

text \<open>Between two runs the queue that is not pushed to is empty.\<close>

definition mailbox_idle :: "('m, 'a) dynamic_actor \<Rightarrow> bool" where
  "mailbox_idle a \<longleftrightarrow> pushIndex a < 2 \<and> messageQueue a (1 - pushIndex a) = []"

lemma push_idle:
  "mailbox_idle a \<Longrightarrow> mailbox_idle (actor_PushMessage mo a)"
  "waiting (actor_PushMessage (Some m) a) = waiting a @ [m]"
  by (auto simp: mailbox_idle_def waiting_def actor_PushMessage_def less_2_cases_iff split: option.splits)

lemma Run_eq:
  assumes "mailbox_idle a"
  shows "Run c a = bindR (handled_state c (messageHandlers a) (waiting a) (derived a)) (\<lambda>x.
    bindR (Tick c x) (\<lambda>x'. Inr (a\<lparr>pushIndex := 1 - pushIndex a,
      messageQueue := (messageQueue a)(pushIndex a := []), derived := x'\<rparr>)))"
proof -
  have p: "1 - (1 - pushIndex a) = pushIndex a" using assms by (auto simp: mailbox_idle_def)
  have s: "swap_queues a = a\<lparr>pushIndex := 1 - pushIndex a\<rparr>"
    using assms by (simp add: swap_queues_def mailbox_idle_def)
  show ?thesis
    unfolding Run_def Let_def s handle_messages_eq bindR_assoc using p by (simp add: waiting_def)
qed

section \<open>Pushes during a run\<close>

text \<open>
  The steps of a run with pushes of other threads, or of the handlers, in between.  \<open>pc\<close> is the
  number of messages handled in the current run; \<open>pushed\<close> and \<open>handled\<close> record the order.
\<close>

record ('m, 'a) mailbox =
  box :: "('m, 'a) dynamic_actor"
  pc :: "nat option"
  pushed :: "'m list"
  handled :: "'m list"

definition new_mailbox :: "('m, 'a) dynamic_actor \<Rightarrow> ('m, 'a) mailbox" where
  "new_mailbox a = \<lparr>box = a, pc = None, pushed = [], handled = []\<rparr>"

definition read_queue :: "('m, 'a) dynamic_actor \<Rightarrow> 'm list" where
  "read_queue a = messageQueue a (1 - pushIndex a)"

inductive mailbox_step ::
    "('m, 'a) actor_class \<Rightarrow> ('m, 'a) mailbox \<Rightarrow> ('m, 'a) mailbox \<Rightarrow> bool" for c where
  push: "mailbox_step c b (b\<lparr>box := actor_PushMessage (Some m) (box b), pushed := pushed b @ [m]\<rparr>)"
| swap: "pc b = None \<Longrightarrow> mailbox_step c b (b\<lparr>box := swap_queues (box b), pc := Some 0\<rparr>)"
| handle: "pc b = Some k \<Longrightarrow> k < length (read_queue (box b)) \<Longrightarrow>
    handle_message c (read_queue (box b) ! k) (box b) = Inr a \<Longrightarrow>
    mailbox_step c b (b\<lparr>box := a, pc := Some (Suc k), handled := handled b @ [read_queue (box b) ! k]\<rparr>)"
| finish: "pc b = Some k \<Longrightarrow> k = length (read_queue (box b)) \<Longrightarrow> Tick c (derived (box b)) = Inr x \<Longrightarrow>
    mailbox_step c b (b\<lparr>box := (box b)\<lparr>messageQueue := (messageQueue (box b))(1 - pushIndex (box b) := []),
      derived := x\<rparr>, pc := None\<rparr>)"

definition mailbox_inv :: "('m, 'a) mailbox \<Rightarrow> bool" where
  "mailbox_inv b \<longleftrightarrow> pushIndex (box b) < 2 \<and>
     (case pc b of None \<Rightarrow> read_queue (box b) = [] | Some k \<Rightarrow> k \<le> length (read_queue (box b))) \<and>
     pushed b = handled b @ drop (case pc b of None \<Rightarrow> 0 | Some k \<Rightarrow> k) (read_queue (box b)) @ waiting (box b)"

lemma push_queues:
  assumes "pushIndex a < 2"
  shows "read_queue (actor_PushMessage (Some m) a) = read_queue a"
    "waiting (actor_PushMessage (Some m) a) = waiting a @ [m]"
    "pushIndex (actor_PushMessage (Some m) a) = pushIndex a"
  using assms by (auto simp: read_queue_def waiting_def actor_PushMessage_def less_2_cases_iff)

lemma swap_queues_eq:
  assumes "pushIndex a < 2" and "read_queue a = []"
  shows "read_queue (swap_queues a) = waiting a" "waiting (swap_queues a) = []" "pushIndex (swap_queues a) < 2"
  using assms by (auto simp: read_queue_def waiting_def swap_queues_def less_2_cases_iff)

lemma handle_message_queues:
  assumes "handle_message c m a = Inr a'"
  shows "read_queue a' = read_queue a" "waiting a' = waiting a" "pushIndex a' = pushIndex a"
  using assms by (auto simp: handle_message_def bindR_eq_Inr read_queue_def waiting_def)

lemma mailbox_step_inv:
  assumes "mailbox_step c b b'" and "mailbox_inv b"
  shows "mailbox_inv b'"
  using assms
proof (induction rule: mailbox_step.induct)
  case (push b m)
  then show ?case by (auto simp: mailbox_inv_def push_queues split: option.splits)
next
  case (swap b)
  then show ?case using swap_queues_eq [of "box b"] by (auto simp: mailbox_inv_def)
next
  case (handle b k a)
  note q = handle_message_queues [OF handle(3)]
  show ?case using handle q by (auto simp: mailbox_inv_def Cons_nth_drop_Suc [symmetric])
next
  case (finish b k x)
  then show ?case
    by (auto simp: mailbox_inv_def read_queue_def waiting_def less_2_cases_iff)
qed

interpretation mailbox: step_system "mailbox_step c" mailbox_inv for c
  by unfold_locales (rule mailbox_step_inv)

lemma RegisterHandlers_mailbox:
  "RegisterHandlers hs a = Inr a' \<Longrightarrow> pushIndex a' = pushIndex a \<and> messageQueue a' = messageQueue a"
  by (auto simp: RegisterHandlers_eq split: if_splits)

lemma new_mailbox_inv: "new_actor nm hs x = Inr a \<Longrightarrow> mailbox_inv (new_mailbox a)"
  unfolding new_actor_def
  by (drule RegisterHandlers_mailbox) (simp add: mailbox_inv_def new_mailbox_def read_queue_def waiting_def)

section \<open>Properties\<close>

text \<open>
  C14.  Mailbox order.  From the creation of an actor on, whatever threads push while it runs, the
  messages are handled in the order of their pushes, each one once: what has been pushed is what has
  been handled, then the rest of the current run, then the queue that waits for the next run.
\<close>

theorem mailbox_fifo:
  assumes "new_actor nm hs x = Inr a" and "(mailbox_step c)\<^sup>*\<^sup>* (new_mailbox a) b"
  shows "pushed b = handled b @ drop (case pc b of None \<Rightarrow> 0 | Some k \<Rightarrow> k) (read_queue (box b)) @ waiting (box b) \<and>
    (pc b = None \<longrightarrow> read_queue (box b) = [])"
  using mailbox.steps_ok [OF assms(2) new_mailbox_inv [OF assms(1)]] by (auto simp: mailbox_inv_def)

text \<open>
  \<open>Run\<close> between pushes: every message that waits is given, in order, to the handler registered for
  its type, or to \<open>OnUnknownMessageReceived\<close>; then the actor ticks, and nothing waits any more.  A
  fault of a handler is a fault of the run.  A handler type registered twice aborts the constructor.
\<close>

theorem actor_run:
  assumes "mailbox_idle a"
  shows "Run c a = bindR (handled_state c (messageHandlers a) (waiting a) (derived a)) (\<lambda>x.
      bindR (Tick c x) (\<lambda>x'. Inr (a\<lparr>pushIndex := 1 - pushIndex a,
        messageQueue := (messageQueue a)(pushIndex a := []), derived := x'\<rparr>))) \<and>
    (\<forall>a'. Run c a = Inr a' \<longrightarrow> mailbox_idle a' \<and> waiting a' = []) \<and>
    new_actor nm hs x =
      (if distinct (map fst hs)
       then Inr \<lparr>Name = nm, pushIndex = 0, messageQueue = \<lambda>i. [], messageHandlers = map_of hs, derived = x\<rparr>
       else Inl Aborted)"
proof -
  have "mailbox_idle a' \<and> waiting a' = []" if "Run c a = Inr a'" for a'
    using that assms unfolding Run_eq [OF assms]
    by (auto simp: bindR_eq_Inr mailbox_idle_def waiting_def less_2_cases_iff)
  then show ?thesis using Run_eq [OF assms] by (simp add: new_actor_def RegisterHandlers_eq map_add_def)
qed

definition log_class :: "(nat, nat list) actor_class" where
  "log_class = \<lparr>TypeIndex = \<lambda>m. if m < 10 then 0 else 1, OnUnknownMessageReceived = \<lambda>m x. Inl Aborted,
     Tick = Inr\<rparr>"

definition log_actor :: "(nat, nat list) dynamic_actor" where
  "log_actor = \<lparr>Name = ''A'', pushIndex = 0, messageQueue = \<lambda>i. [],
     messageHandlers = map_of [(0, \<lambda>m x. Inr (x @ [m]))], derived = []\<rparr>"

lemma log_actor_new: "new_actor ''A'' [(0, \<lambda>m x. Inr (x @ [m]))] [] = Inr log_actor"
  by (simp add: new_actor_def RegisterHandlers_eq log_actor_def map_add_def)

theorem mailbox_fifo_witness:
  "\<exists>b. (mailbox_step log_class)\<^sup>*\<^sup>* (new_mailbox log_actor) b \<and> pushed b = [3, 4] \<and> handled b = [3] \<and>
     pushed b = handled b @ drop (case pc b of None \<Rightarrow> 0 | Some k \<Rightarrow> k) (read_queue (box b)) @ waiting (box b)"
proof -
  define b1 where "b1 = (new_mailbox log_actor)\<lparr>box := actor_PushMessage (Some 3) log_actor, pushed := [3]\<rparr>"
  define b2 where "b2 = b1\<lparr>box := swap_queues (box b1), pc := Some 0\<rparr>"
  define b3 where "b3 = b2\<lparr>box := actor_PushMessage (Some 4) (box b2), pushed := [3, 4]\<rparr>"
  define b4 where "b4 = b3\<lparr>box := (box b3)\<lparr>derived := [3]\<rparr>, pc := Some 1, handled := [3]\<rparr>"
  have s1: "mailbox_step log_class (new_mailbox log_actor) b1"
    using mailbox_step.push [of log_class "new_mailbox log_actor" 3] by (simp add: new_mailbox_def b1_def)
  have s2: "mailbox_step log_class b1 b2"
    unfolding b2_def by (rule mailbox_step.swap) (simp add: b1_def new_mailbox_def)
  have s3: "mailbox_step log_class b2 b3"
    using mailbox_step.push [of log_class b2 4] by (simp add: b3_def b2_def b1_def)
  have v: "read_queue (box b3) = [3]" "pc b3 = Some 0" "handled b3 = []"
    "handle_message log_class 3 (box b3) = Inr ((box b3)\<lparr>derived := [3]\<rparr>)"
    by (simp_all add: b3_def b2_def b1_def new_mailbox_def read_queue_def swap_queues_def actor_PushMessage_def
        log_actor_def handle_message_def log_class_def)
  have s4: "mailbox_step log_class b3 b4"
    using mailbox_step.handle [of b3 0 log_class "(box b3)\<lparr>derived := [3]\<rparr>"] v by (simp add: b4_def)
  have r: "(mailbox_step log_class)\<^sup>*\<^sup>* (new_mailbox log_actor) b4"
    using s1 s2 s3 s4 by (meson rtranclp.rtrancl_into_rtrancl rtranclp.rtrancl_refl)
  have "pushed b4 = [3, 4]" "handled b4 = [3]" by (simp_all add: b4_def b3_def)
  with r mailbox_fifo [OF log_actor_new r] show ?thesis by (intro exI [of _ b4]) simp
qed

theorem actor_run_witness:
  "Run log_class (actor_PushMessage (Some 4) (actor_PushMessage (Some 3) log_actor)) =
     Inr (log_actor\<lparr>pushIndex := 1, derived := [3, 4]\<rparr>) \<and>
   Run log_class (actor_PushMessage (Some 12) log_actor) = Inl Aborted"
proof -
  have i: "mailbox_idle log_actor" by (simp add: mailbox_idle_def log_actor_def)
  note R = actor_run [OF push_idle(1) [OF push_idle(1) [OF i]], THEN conjunct1]
  note R1 = actor_run [OF push_idle(1) [OF i], THEN conjunct1]
  show ?thesis unfolding R R1
    by (simp add: actor_PushMessage_def log_actor_def waiting_def log_class_def fun_eq_iff)
qed

text \<open>
  C33.  Messages reach the handler of their own type.  With fewer than $2^{32}$ message types, whatever order their indices are
  first used in, an actor whose \<open>Accept\<close> list names no type twice is constructed, and the handler found for a message type
  of the list is the one given for it; other types have none.
\<close>

theorem handler_by_type:
  assumes "card (set ks) \<le> 2 ^ 32" and "set (map fst accepted) \<subseteq> set ks" and "distinct (map fst accepted)"
    and "s = get_indices ks no_indices"
  shows "\<exists>a. new_actor nm (map (\<lambda>(k, h). (type_index s k, h)) accepted) x = Inr a \<and>
    (\<forall>k\<in>set ks. messageHandlers a (type_index s k) = map_of accepted k)"
proof -
  let ?hs = "map (\<lambda>(k, h). (type_index s k, h)) accepted"
  have inj: "inj_on (type_index s) (set ks)" using type_index_inj [OF assms(1)] assms(4) by simp
  have "map fst ?hs = map (type_index s) (map fst accepted)" by (induction accepted) auto
  then have "distinct (map fst ?hs)" using inj_on_subset [OF inj assms(2)] assms(3)
    by (simp only: distinct_map [of "type_index s"] simp_thms)
  then have "new_actor nm ?hs x = Inr \<lparr>Name = nm, pushIndex = 0, messageQueue = \<lambda>i. [], messageHandlers = map_of ?hs, derived = x\<rparr>"
    by (simp add: new_actor_def RegisterHandlers_eq map_add_def)
  moreover have "map_of ?hs (type_index s k) = map_of accepted k" if "k \<in> set ks" for k
    using assms(2) that
  proof (induction accepted)
    case (Cons p ps)
    have "type_index s k = type_index s (fst p) \<longleftrightarrow> k = fst p"
      using inj Cons.prems by (auto simp: inj_on_def)
    then show ?case using Cons by (auto simp: split_beta)
  qed simp
  ultimately show ?thesis by simp
qed

theorem handler_by_type_witness:
  "\<exists>a. new_actor ''A'' [(type_index (get_indices [''Cts'', ''Disconnected''] no_indices) ''Disconnected'', \<lambda>m x. Inr (x + m))] 0 = Inr a \<and>
     messageHandlers a (type_index (get_indices [''Cts'', ''Disconnected''] no_indices) ''Cts'') = (None :: (nat, nat) handler option)"
proof -
  have "card (set [''Cts'', ''Disconnected'']) \<le> 2 ^ 32" by simp
  from handler_by_type [OF this, of "[(''Disconnected'', \<lambda>m x. Inr (x + m))]"] show ?thesis by fastforce
qed

end
