(* ===== verification/Db_Layer.thy ===== *)
theory Db_Layer
  imports Interfaces "HOL-Library.Multiset"
begin

text \<open>
  The Database directory: the pool of connections (DbConnectionPool, DbConnection) and the account
  queries (DbService_Account).  Connections and tables belong to pqxx and the database and are
  parameters.
\<close>

section \<open>The connection pool\<close>

record 'c db_pool =
  connections :: "'c list"

text \<open>
  The constructor opens \<open>maxConnections\<close> connections; \<open>connect\<close> is \<open>None\<close> where pqxx throws
  \<open>broken_connection\<close>.
\<close>

primrec open_connections :: "(nat \<Rightarrow> 'c option) \<Rightarrow> nat \<Rightarrow> 'c list res" where
  "open_connections connect 0 = Inr []"
| "open_connections connect (Suc n) =
     bindR (open_connections connect n) (\<lambda>cs. case connect n of None \<Rightarrow> Inl Aborted | Some c \<Rightarrow> Inr (cs @ [c]))"

definition new_db_pool :: "(nat \<Rightarrow> 'c option) \<Rightarrow> nat \<Rightarrow> 'c db_pool res" where
  "new_db_pool connect maxConnections =
     bindR (open_connections connect maxConnections) (\<lambda>cs. Inr \<lparr>connections = cs\<rparr>)"

text \<open>\<open>Acquire\<close> is \<open>None\<close> while the caller has to wait.\<close>

definition db_Acquire :: "'c db_pool \<Rightarrow> ('c \<times> 'c db_pool) option" where
  "db_Acquire p =
     (if connections p = [] then None
      else Some (last (connections p), p\<lparr>connections := butlast (connections p)\<rparr>))"

text \<open>\<open>Release\<close>, called by the destructor of \<open>DbConnection\<close>.\<close>

definition db_Release :: "'c \<Rightarrow> 'c db_pool \<Rightarrow> 'c db_pool" where
  "db_Release c p = p\<lparr>connections := connections p @ [c]\<rparr>"

text \<open>
  Threads that acquire and release; \<open>holds t\<close> are the connections of the \<open>DbConnection\<close> objects of
  thread \<open>t\<close>.
\<close>

inductive db_step :: "'c db_pool \<times> (nat \<Rightarrow> 'c list) \<Rightarrow> 'c db_pool \<times> (nat \<Rightarrow> 'c list) \<Rightarrow> bool" where
  acquire: "db_Acquire p = Some (c, p') \<Longrightarrow> db_step (p, holds) (p', holds(t := c # holds t))"
| release: "holds t = c # cs \<Longrightarrow> db_step (p, holds) (db_Release c p, holds(t := cs))"

definition held_by :: "nat \<Rightarrow> (nat \<Rightarrow> 'c list) \<Rightarrow> 'c multiset" where
  "held_by n holds = (\<Sum>t<n. mset (holds t))"

lemma held_by_upd:
  "t < n \<Longrightarrow> held_by n (holds(t := cs)) + mset (holds t) = held_by n holds + mset cs"
proof -
  assume t: "t < n"
  have "held_by n h = mset (h t) + (\<Sum>u\<in>{..<n} - {t}. mset (h u))" for h :: "nat \<Rightarrow> 'c list"
    unfolding held_by_def using t by (intro sum.remove) auto
  note split = this
  define R where "R = (\<Sum>u\<in>{..<n} - {t}. mset (holds u))"
  have "(\<Sum>u\<in>{..<n} - {t}. mset ((holds(t := cs)) u)) = R"
    unfolding R_def by (rule sum.cong) auto
  then have "held_by n (holds(t := cs)) = mset cs + R" using split [of "holds(t := cs)"] by simp
  moreover have "held_by n holds = mset (holds t) + R" unfolding R_def by (rule split)
  ultimately show ?thesis by (simp only: add.commute add.left_commute)
qed

text \<open>Threads beyond \<open>n\<close> never hold anything if they do not take part.\<close>

definition db_conserved :: "nat \<Rightarrow> 'c multiset \<Rightarrow> 'c db_pool \<times> (nat \<Rightarrow> 'c list) \<Rightarrow> bool" where
  "db_conserved n all s \<longleftrightarrow> mset (connections (fst s)) + held_by n (snd s) = all"

inductive db_steps :: "nat \<Rightarrow> 'c db_pool \<times> (nat \<Rightarrow> 'c list) \<Rightarrow> 'c db_pool \<times> (nat \<Rightarrow> 'c list) \<Rightarrow> bool" for n where
  db_refl: "db_steps n s s"
| db_next: "db_steps n s (p, holds) \<Longrightarrow> db_step (p, holds) (p', holds') \<Longrightarrow>
    (\<And>t. n \<le> t \<Longrightarrow> holds' t = holds t) \<Longrightarrow> db_steps n s (p', holds')"

lemma db_step_conserved:
  assumes "db_step (p, holds) (p', holds')" and "\<And>t. n \<le> t \<Longrightarrow> holds' t = holds t"
    and "db_conserved n all (p, holds)"
  shows "db_conserved n all (p', holds')"
  using assms(1)
proof cases
  case (acquire c t)
  have "length (holds' t) \<noteq> length (holds t)" using acquire(1) by simp
  then have "t < n" using assms(2) [of t] by (metis not_less)
  moreover have "connections p = connections p' @ [c]"
    using acquire(2) by (auto simp: db_Acquire_def split: if_splits)
  then have "mset (connections p) = mset (connections p') + {#c#}" by simp
  ultimately show ?thesis using assms(3) held_by_upd [of t n holds "c # holds t"] acquire(1)
    by (auto simp: db_conserved_def)
next
  case (release t c cs)
  have "length (holds' t) \<noteq> length (holds t)" using release(2,3) by simp
  then have "t < n" using assms(2) [of t] by (metis not_less)
  then show ?thesis using assms(3) held_by_upd [of t n holds cs] release
    by (auto simp: db_conserved_def db_Release_def)
qed

lemma db_steps_conserved: "db_steps n s s' \<Longrightarrow> db_conserved n all s \<Longrightarrow> db_conserved n all s'"
  by (induction rule: db_steps.induct) (auto intro: db_step_conserved)

lemma open_connections_eq:
  "open_connections connect n =
     (if \<forall>i<n. connect i \<noteq> None then Inr (map (\<lambda>i. the (connect i)) [0..<n]) else Inl Aborted)"
  by (induction n) (auto simp: less_Suc_eq split: option.splits)

section \<open>Accounts\<close>

text \<open>
  The statements of \<open>DbService_Account\<close>: the rows (id, password) of an account, whether it exists,
  and the insertion, which gives the number of affected rows or throws (\<open>None\<close>).
\<close>

record 'd account_db =
  SelectIdPassword :: "string \<Rightarrow> 'd \<Rightarrow> (u64 \<times> string) list"
  SelectExists :: "string \<Rightarrow> 'd \<Rightarrow> bool"
  InsertAccount :: "string \<Rightarrow> string \<Rightarrow> 'd \<Rightarrow> (nat \<times> 'd) option"

datatype CreateAccountResult = CreateSuccess | DuplicateId | UnknownError

definition GetAccountIdPasswordPair :: "'d account_db \<Rightarrow> string \<Rightarrow> 'd \<Rightarrow> (u64 \<times> string) option" where
  "GetAccountIdPasswordPair D account d =
     (case SelectIdPassword D account d of [] \<Rightarrow> None | row # rows \<Rightarrow> Some row)"

definition TryCreateAccount ::
    "'d account_db \<Rightarrow> string \<Rightarrow> string \<Rightarrow> 'd \<Rightarrow> (CreateAccountResult \<times> 'd) res" where
  "TryCreateAccount D account password d =
     (if SelectExists D account d then Inr (DuplicateId, d)
      else (case InsertAccount D account password d of
              None \<Rightarrow> Inl Aborted
            | Some (affectedRows, d') \<Rightarrow>
                Inr (if 0 < affectedRows then CreateSuccess else UnknownError, d')))"

text \<open>
  What SQL promises: \<open>EXISTS\<close> agrees with the rows, an insertion that affects a row adds this row
  and leaves the other accounts alone, and one that affects none changes nothing.
\<close>

definition db_laws :: "'d account_db \<Rightarrow> bool" where
  "db_laws D \<longleftrightarrow>
     (\<forall>a d. SelectExists D a d \<longleftrightarrow> SelectIdPassword D a d \<noteq> []) \<and>
     (\<forall>a p d n d'. InsertAccount D a p d = Some (n, d') \<longrightarrow>
        (if 0 < n then \<exists>i. mset (SelectIdPassword D a d') = add_mset (i, p) (mset (SelectIdPassword D a d))
         else d' = d) \<and>
        (\<forall>b. b \<noteq> a \<longrightarrow> SelectIdPassword D b d' = SelectIdPassword D b d))"

section \<open>Properties\<close>

text \<open>
  C36.  Connections are conserved.  Of \<open>n\<close> threads that acquire and release in any order, each
  connection that the constructor opened is at any time either in the pool or held by exactly one
  of them, and acquiring waits only while all of them are held.
\<close>

theorem connections_conserved:
  assumes "new_db_pool connect m = Inr p0" and "db_steps n (p0, \<lambda>t. []) (p, holds)"
  shows "mset (connections p) + (\<Sum>t<n. mset (holds t)) = mset (map (\<lambda>i. the (connect i)) [0..<m]) \<and>
    (db_Acquire p = None \<longleftrightarrow> (\<Sum>t<n. length (holds t)) = m)"
proof -
  have p0: "connections p0 = map (\<lambda>i. the (connect i)) [0..<m]"
    using assms(1) by (auto simp: new_db_pool_def open_connections_eq split: if_splits)
  have "db_conserved n (mset (connections p0)) (p0, \<lambda>t. [])" by (simp add: db_conserved_def held_by_def)
  from db_steps_conserved [OF assms(2) this]
  have e: "mset (connections p) + (\<Sum>t<n. mset (holds t)) = mset (map (\<lambda>i. the (connect i)) [0..<m])"
    by (simp add: db_conserved_def held_by_def p0)
  have "size (\<Sum>t<n. mset (holds t)) = (\<Sum>t<n. length (holds t))" by (induction n) auto
  then have "length (connections p) + (\<Sum>t<n. length (holds t)) = m"
    using arg_cong [OF e, of size] by simp
  then show ?thesis using e by (auto simp: db_Acquire_def)
qed

theorem connections_conserved_witness:
  "\<exists>p holds. db_steps 2 (\<lparr>connections = [10, 11 :: nat]\<rparr>, \<lambda>t. []) (p, holds) \<and> holds 1 = [11] \<and>
     mset (connections p) + (\<Sum>t<2. mset (holds t)) = {#10, 11#}"
proof -
  let ?p = "\<lparr>connections = [10, 11 :: nat]\<rparr>"
  have n: "new_db_pool (\<lambda>i. Some (10 + i)) 2 = Inr ?p" by (simp add: new_db_pool_def numeral_2_eq_2)
  have "db_step (?p, \<lambda>t. []) (\<lparr>connections = [10]\<rparr>, (\<lambda>t. [])(1 := [11]))"
    using db_step.acquire [of ?p 11 "\<lparr>connections = [10]\<rparr>" "\<lambda>t. []" 1] by (simp add: db_Acquire_def)
  then have s: "db_steps 2 (?p, \<lambda>t. []) (\<lparr>connections = [10]\<rparr>, (\<lambda>t. [])(1 := [11]))"
    by (intro db_next [OF db_refl]) auto
  from connections_conserved [OF n s] s show ?thesis
    by (intro exI [of _ "\<lparr>connections = [10]\<rparr>"] exI [of _ "(\<lambda>t. [])(1 := [11])"]) (simp add: upt_rec)
qed

text \<open>
  Creating and looking up an account.  Creating succeeds only for an account without rows; then
  the account has exactly one row, with the given password, looking it up finds it, creating it again
  reports a duplicate, and no other account changes.  An existing account is reported and nothing
  changes; an exception of the insertion ends the whole program.
\<close>

theorem create_then_lookup:
  assumes "db_laws D"
  shows "case TryCreateAccount D a p d of
      Inl e \<Rightarrow> e = Aborted \<and> InsertAccount D a p d = None
    | Inr (CreateSuccess, d') \<Rightarrow> GetAccountIdPasswordPair D a d = None \<and>
        (\<exists>i. GetAccountIdPasswordPair D a d' = Some (i, p)) \<and>
        TryCreateAccount D a q d' = Inr (DuplicateId, d') \<and>
        (\<forall>b. b \<noteq> a \<longrightarrow> GetAccountIdPasswordPair D b d' = GetAccountIdPasswordPair D b d)
    | Inr (r, d') \<Rightarrow> d' = d \<and> (r = DuplicateId \<longleftrightarrow> GetAccountIdPasswordPair D a d \<noteq> None)"
proof (cases "SelectExists D a d")
  case True
  then show ?thesis using assms
    by (auto simp: TryCreateAccount_def GetAccountIdPasswordPair_def db_laws_def split: list.splits)
next
  case False
  then have none: "SelectIdPassword D a d = []" using assms by (simp add: db_laws_def)
  show ?thesis
  proof (cases "InsertAccount D a p d")
    case None
    then show ?thesis using False by (simp add: TryCreateAccount_def)
  next
    case (Some r)
    obtain n d' where r: "r = (n, d')" by (cases r)
    note L = assms [unfolded db_laws_def, THEN conjunct2, rule_format, OF Some [unfolded r]]
    show ?thesis
    proof (cases "0 < n")
      case True
      then obtain i where "mset (SelectIdPassword D a d') = {#(i, p)#}" using L none by auto
      then have row: "SelectIdPassword D a d' = [(i, p)]" by simp
      then have "SelectExists D a d'" using assms by (simp add: db_laws_def)
      then show ?thesis using True False Some r row none L
        by (simp add: TryCreateAccount_def GetAccountIdPasswordPair_def)
    next
      case n: False
      then show ?thesis using False Some r L none
        by (simp add: TryCreateAccount_def GetAccountIdPasswordPair_def)
    qed
  qed
qed

text \<open>A table as a list of rows, for the witnesses.\<close>

definition list_db :: "(string \<times> u64 \<times> string) list account_db" where
  "list_db = \<lparr>SelectIdPassword = \<lambda>a d. map snd (filter (\<lambda>r. fst r = a) d),
     SelectExists = \<lambda>a d. \<exists>r\<in>set d. fst r = a,
     InsertAccount = \<lambda>a p d. Some (1, d @ [(a, of_nat (length d), p)])\<rparr>"

lemma list_db_laws: "db_laws list_db"
  by (auto simp: db_laws_def list_db_def filter_empty_conv)

theorem create_then_lookup_witness:
  "TryCreateAccount list_db ''rat'' ''pw'' [] = Inr (CreateSuccess, [(''rat'', 0, ''pw'')]) \<and>
   TryCreateAccount list_db ''rat'' ''qw'' [(''rat'', 0, ''pw'')] = Inr (DuplicateId, [(''rat'', 0, ''pw'')])"
proof
  show t: "TryCreateAccount list_db ''rat'' ''pw'' [] = Inr (CreateSuccess, [(''rat'', 0, ''pw'')])"
    by (simp add: TryCreateAccount_def list_db_def)
  then show "TryCreateAccount list_db ''rat'' ''qw'' [(''rat'', 0, ''pw'')] = Inr (DuplicateId, [(''rat'', 0, ''pw'')])"
    using create_then_lookup [OF list_db_laws, of "''rat''" "''pw''" "[]" "''qw''"] by simp
qed

end
