(* ===== verification/Auth.thy ===== *)
theory Auth
  imports Db_Layer
begin

text \<open>
  \<open>A_Auth\<close> (Actor/A_Auth.h, A_Auth.cpp) with the jobs of AuthJob.h: registration and login requests,
  the background queue of password jobs, the foreground queue of finished jobs, and the two maps that
  say which account is online in which session.  bcrypt and the database are parameters.
\<close>

section \<open>Jobs\<close>

text \<open>bcrypt: checking, salting and hashing, with the result codes of the C functions.\<close>

record crypt =
  checkpw :: "string \<Rightarrow> string \<Rightarrow> int"
  gensalt :: "nat \<Rightarrow> int \<times> string"
  hashpw :: "string \<Rightarrow> string \<Rightarrow> int \<times> string"

definition InvalidId :: u64 where
  "InvalidId = 0xFFFFFFFF"

record login_job =
  lContext :: u32
  lId :: u64
  RequestedPassword :: string
  SavedPassword :: string
  isPasswordMatch :: bool

record register_job =
  rContext :: u32
  rId :: string
  OriginalPassword :: string
  hashedPassword :: string

datatype auth_job = LoginJob login_job | RegisterJob register_job

definition new_login_job :: "u32 \<Rightarrow> u64 \<Rightarrow> string \<Rightarrow> string \<Rightarrow> auth_job" where
  "new_login_job context i requested saved = LoginJob \<lparr>lContext = context, lId = i,
     RequestedPassword = requested, SavedPassword = saved, isPasswordMatch = False\<rparr>"

definition new_register_job :: "u32 \<Rightarrow> string \<Rightarrow> string \<Rightarrow> auth_job" where
  "new_register_job context i password = RegisterJob \<lparr>rContext = context, rId = i,
     OriginalPassword = password, hashedPassword = []\<rparr>"

definition login_ExecuteBackgroundJob :: "crypt \<Rightarrow> login_job \<Rightarrow> login_job" where
  "login_ExecuteBackgroundJob B j =
     (let result = checkpw B (RequestedPassword j) (SavedPassword j)
      in j\<lparr>isPasswordMatch := lId j \<noteq> InvalidId \<and> result = 0\<rparr>)"

definition register_ExecuteBackgroundJob :: "crypt \<Rightarrow> register_job \<Rightarrow> register_job res" where
  "register_ExecuteBackgroundJob B j =
     (case gensalt B 12 of (r, salt) \<Rightarrow>
        bindR (crash_cond (r \<noteq> 0)) (\<lambda>u.
          case hashpw B (OriginalPassword j) salt of (r', h) \<Rightarrow>
            bindR (crash_cond (r' \<noteq> 0)) (\<lambda>u. Inr (j\<lparr>hashedPassword := h\<rparr>))))"

fun execute_job :: "crypt \<Rightarrow> auth_job \<Rightarrow> auth_job res" where
  "execute_job B (LoginJob j) = Inr (LoginJob (login_ExecuteBackgroundJob B j))"
| "execute_job B (RegisterJob j) = bindR (register_ExecuteBackgroundJob B j) (\<lambda>j'. Inr (RegisterJob j'))"

section \<open>State\<close>

text \<open>
  What the actor sends through the generated proxy.  The reasons stand for the texts of the
  responses, in the order of the code.
\<close>

datatype reason =
  NoReason | AccountTooShort | AccountTooLong | AccountInvalidChar | PasswordTooShort | PasswordTooLong
  | PasswordInvalidChar | DuplicateAccountName | UnknownErrorOccurred | AlreadyLoggedIn

datatype login_result = LoginFailure | LoginSuccess | DuplicateAccount | DuplicateContext

datatype reply =
    RegisterResponse u32 bool reason
  | LoginResponse u32 login_result
  | NotifyFatal u32 reason
  | Disconnect u32

record 'd auth =
  contextIdMap :: "u32 \<Rightarrow> u64 option"
  idContextMap :: "u64 \<Rightarrow> u32 option"
  foreground :: "auth_job list"
  background :: "auth_job list"
  accounts :: 'd
  sent :: "reply list"

definition new_auth :: "'d \<Rightarrow> 'd auth" where
  "new_auth d = \<lparr>contextIdMap = (\<lambda>c. None), idContextMap = (\<lambda>i. None), foreground = [], background = [],
     accounts = d, sent = []\<rparr>"

definition send_reply :: "reply \<Rightarrow> 'd auth \<Rightarrow> 'd auth" where
  "send_reply r s = s\<lparr>sent := sent s @ [r]\<rparr>"

section \<open>Requests\<close>

text \<open>The characters the two regular expressions allow, by code.\<close>

definition code_of :: "char \<Rightarrow> nat" where
  "code_of c = of_char c"

definition account_char :: "char \<Rightarrow> bool" where
  "account_char c \<longleftrightarrow> 97 \<le> code_of c \<and> code_of c \<le> 122 \<or> 48 \<le> code_of c \<and> code_of c \<le> 57 \<or> code_of c = 95"

definition password_char :: "char \<Rightarrow> bool" where
  "password_char c \<longleftrightarrow> 97 \<le> code_of c \<and> code_of c \<le> 122 \<or> 65 \<le> code_of c \<and> code_of c \<le> 90 \<or>
     48 \<le> code_of c \<and> code_of c \<le> 57 \<or>
     code_of c \<in> set [33, 64, 35, 36, 37, 94, 38, 42, 40, 41, 95, 43, 45, 61, 91, 93, 123, 125, 59, 39, 58, 34,
       92, 124, 44, 46, 60, 62, 47, 63]"

definition regex_search_not :: "(char \<Rightarrow> bool) \<Rightarrow> string \<Rightarrow> bool" where
  "regex_search_not allowed str \<longleftrightarrow> (\<exists>c\<in>set str. \<not> allowed c)"

definition OnRegisterRequest :: "u32 \<Rightarrow> string \<Rightarrow> string \<Rightarrow> 'd auth \<Rightarrow> 'd auth" where
  "OnRegisterRequest context account password s =
     (if length account < 6 then send_reply (RegisterResponse context False AccountTooShort) s
      else if 24 < length account then send_reply (RegisterResponse context False AccountTooLong) s
      else if regex_search_not account_char account
      then send_reply (RegisterResponse context False AccountInvalidChar) s
      else if length password < 8 then send_reply (RegisterResponse context False PasswordTooShort) s
      else if 32 < length password then send_reply (RegisterResponse context False PasswordTooLong) s
      else if regex_search_not password_char password
      then send_reply (RegisterResponse context False PasswordInvalidChar) s
      else s\<lparr>background := background s @ [new_register_job context account password]\<rparr>)"

definition EmptyHashedPassword :: string where
  "EmptyHashedPassword = ''$2a$12$YeNGaZyLvcdFapdGyzzBiubEj.LkPp/F0ZX0NydtGAvr6zGX6Cne6''"

definition OnLoginRequest :: "'d account_db \<Rightarrow> u32 \<Rightarrow> string \<Rightarrow> string \<Rightarrow> 'd auth \<Rightarrow> 'd auth" where
  "OnLoginRequest D context account password s =
     (if contextIdMap s context \<noteq> None
      then send_reply (Disconnect context) (send_reply (NotifyFatal context AlreadyLoggedIn) s)
      else (case GetAccountIdPasswordPair D account (accounts s) of
              Some (i, saved) \<Rightarrow> s\<lparr>background := background s @ [new_login_job context i password saved]\<rparr>
            | None \<Rightarrow> s\<lparr>background := background s @
                [new_login_job context InvalidId password EmptyHashedPassword]\<rparr>))"

text \<open>\<open>Handle(Msg_SessionDisconnected)\<close>.\<close>

definition HandleSessionDisconnected :: "u32 \<Rightarrow> 'd auth \<Rightarrow> 'd auth" where
  "HandleSessionDisconnected context s =
     (case contextIdMap s context of
        None \<Rightarrow> s
      | Some i \<Rightarrow> s\<lparr>idContextMap := (idContextMap s)(i := None),
                     contextIdMap := (contextIdMap s)(context := None)\<rparr>)"

text \<open>One round of \<open>AuthBackgroundThreadBody\<close>.\<close>

definition background_round :: "crypt \<Rightarrow> 'd auth \<Rightarrow> 'd auth res" where
  "background_round B s =
     (case background s of
        [] \<Rightarrow> Inr s
      | job # jobs \<Rightarrow>
          bindR (execute_job B job) (\<lambda>job'.
            Inr (s\<lparr>background := jobs, foreground := foreground s @ [job']\<rparr>)))"

section \<open>Tick\<close>

text \<open>The attempt to put an account online, with its three results.\<close>

datatype AuthenticationResult = AuthSuccess | AuthDuplicateContext | IdAlreadyOnline

definition add_context :: "u32 \<Rightarrow> u64 \<Rightarrow> 'd auth \<Rightarrow> AuthenticationResult \<times> 'd auth" where
  "add_context context i s =
     (if contextIdMap s context \<noteq> None then (AuthDuplicateContext, s)
      else if idContextMap s i \<noteq> None then (IdAlreadyOnline, s)
      else (AuthSuccess, s\<lparr>contextIdMap := (contextIdMap s)(context \<mapsto> i),
                            idContextMap := (idContextMap s)(i \<mapsto> context)\<rparr>))"

fun FailedReason :: "CreateAccountResult \<Rightarrow> reason" where
  "FailedReason CreateSuccess = NoReason"
| "FailedReason DuplicateId = DuplicateAccountName"
| "FailedReason UnknownError = UnknownErrorOccurred"

text \<open>One finished job; \<open>False\<close> where the code returns from \<open>Tick\<close>.\<close>

fun finish_job :: "'d account_db \<Rightarrow> auth_job \<Rightarrow> 'd auth \<Rightarrow> (bool \<times> 'd auth) res" where
  "finish_job D (LoginJob j) s =
     (if \<not> isPasswordMatch j then Inr (False, send_reply (LoginResponse (lContext j) LoginFailure) s)
      else (case add_context (lContext j) (lId j) s of
              (AuthSuccess, s') \<Rightarrow> Inr (True, send_reply (LoginResponse (lContext j) LoginSuccess) s')
            | (IdAlreadyOnline, s') \<Rightarrow> Inr (True, send_reply (LoginResponse (lContext j) DuplicateAccount) s')
            | (AuthDuplicateContext, s') \<Rightarrow> Inr (True, send_reply (LoginResponse (lContext j) DuplicateContext) s')))"
| "finish_job D (RegisterJob j) s =
     bindR (TryCreateAccount D (rId j) (hashedPassword j) (accounts s)) (\<lambda>(result, d').
       let s' = s\<lparr>accounts := d'\<rparr>
       in if result \<noteq> CreateSuccess
          then Inr (False, send_reply (RegisterResponse (rContext j) False (FailedReason result)) s')
          else Inr (True, send_reply (RegisterResponse (rContext j) True NoReason) s'))"

primrec tick_jobs :: "'d account_db \<Rightarrow> auth_job list \<Rightarrow> 'd auth \<Rightarrow> 'd auth res" where
  "tick_jobs D [] s = Inr (s\<lparr>foreground := []\<rparr>)"
| "tick_jobs D (job # jobs) s =
     bindR (finish_job D job s) (\<lambda>(continue, s').
       if continue then tick_jobs D jobs s' else Inr (s'\<lparr>foreground := jobs\<rparr>))"

definition auth_Tick :: "'d account_db \<Rightarrow> 'd auth \<Rightarrow> 'd auth res" where
  "auth_Tick D s = tick_jobs D (foreground s) s"

section \<open>Steps\<close>

text \<open>The actor and its background thread, in any order.\<close>

inductive auth_step :: "'d account_db \<Rightarrow> crypt \<Rightarrow> 'd auth \<Rightarrow> 'd auth \<Rightarrow> bool" for D B where
  register: "auth_step D B s (OnRegisterRequest context account password s)"
| login: "auth_step D B s (OnLoginRequest D context account password s)"
| disconnected: "auth_step D B s (HandleSessionDisconnected context s)"
| work: "background_round B s = Inr s' \<Longrightarrow> auth_step D B s s'"
| tick: "auth_Tick D s = Inr s' \<Longrightarrow> auth_step D B s s'"

inductive_cases auth_stepE: "auth_step D B s s'"

section \<open>The online maps\<close>

definition online_inverse :: "'d auth \<Rightarrow> bool" where
  "online_inverse s \<longleftrightarrow> (\<forall>c i. contextIdMap s c = Some i \<longleftrightarrow> idContextMap s i = Some c)"

lemma send_reply_maps [simp]:
  "contextIdMap (send_reply r s) = contextIdMap s" "idContextMap (send_reply r s) = idContextMap s"
  "background (send_reply r s) = background s" "foreground (send_reply r s) = foreground s"
  "accounts (send_reply r s) = accounts s"
  by (simp_all add: send_reply_def)

lemma online_inverse_maps:
  "contextIdMap s' = contextIdMap s \<Longrightarrow> idContextMap s' = idContextMap s \<Longrightarrow> online_inverse s \<Longrightarrow> online_inverse s'"
  by (simp add: online_inverse_def)

lemma add_context_inverse: "add_context c i s = (r, s') \<Longrightarrow> online_inverse s \<Longrightarrow> online_inverse s'"
  unfolding add_context_def online_inverse_def by (auto split: if_splits)

lemma disconnected_inverse: "online_inverse s \<Longrightarrow> online_inverse (HandleSessionDisconnected c s)"
proof (cases "contextIdMap s c")
  case None
  then show "online_inverse s \<Longrightarrow> ?thesis" by (simp add: HandleSessionDisconnected_def)
next
  case (Some i)
  assume I: "online_inverse s"
  then have "contextIdMap s d = Some i \<longleftrightarrow> d = c" "idContextMap s k = Some c \<longleftrightarrow> k = i" for d k
    using Some unfolding online_inverse_def by (metis option.inject)+
  moreover have "HandleSessionDisconnected c s = s\<lparr>idContextMap := (idContextMap s)(i := None),
      contextIdMap := (contextIdMap s)(c := None)\<rparr>"
    using Some by (simp add: HandleSessionDisconnected_def)
  ultimately show ?thesis using I by (auto simp: online_inverse_def)
qed

lemma finish_job_inverse: "finish_job D j s = Inr (b, s') \<Longrightarrow> online_inverse s \<Longrightarrow> online_inverse s'"
proof (cases j)
  case (LoginJob l)
  assume a: "finish_job D j s = Inr (b, s')" "online_inverse s"
  obtain r s1 where "add_context (lContext l) (lId l) s = (r, s1)" by fastforce
  then show ?thesis using a LoginJob add_context_inverse [of "lContext l" "lId l" s r s1]
    by (cases r) (auto split: if_splits intro: online_inverse_maps)
next
  case (RegisterJob r)
  assume "finish_job D j s = Inr (b, s')" "online_inverse s"
  then show ?thesis using RegisterJob
    by (auto simp: bindR_eq_Inr Let_def split: if_splits intro: online_inverse_maps [of _ s])
qed

lemma tick_jobs_inverse: "tick_jobs D jobs s = Inr s' \<Longrightarrow> online_inverse s \<Longrightarrow> online_inverse s'"
proof (induction jobs arbitrary: s)
  case Nil
  then show ?case by (auto intro: online_inverse_maps [of _ s])
next
  case (Cons j jobs)
  then obtain b s1 where f: "finish_job D j s = Inr (b, s1)"
    "(if b then tick_jobs D jobs s1 else Inr (s1\<lparr>foreground := jobs\<rparr>)) = Inr s'"
    by (auto simp: bindR_eq_Inr)
  have "online_inverse s1" using finish_job_inverse [OF f(1) Cons.prems(2)] .
  then show ?case using f(2) Cons.IH by (cases b) (auto intro: online_inverse_maps [of _ s1])
qed

lemma auth_step_inverse: "auth_step D B s s' \<Longrightarrow> online_inverse s \<Longrightarrow> online_inverse s'"
proof (induction rule: auth_step.induct)
  case (register s ctx account password)
  then show ?case by (intro online_inverse_maps [OF _ _ register]) (simp_all add: OnRegisterRequest_def)
next
  case (login s ctx account password)
  then show ?case
    by (intro online_inverse_maps [OF _ _ login]) (simp_all add: OnLoginRequest_def split: option.splits)
next
  case (disconnected ctx s)
  then show ?case by (rule disconnected_inverse)
next
  case (work s s')
  then show ?case
    by (auto simp: background_round_def bindR_eq_Inr split: list.splits intro: online_inverse_maps)
next
  case (tick s s')
  then show ?case unfolding auth_Tick_def by (auto intro: tick_jobs_inverse)
qed

interpretation auth_steps: step_system "auth_step D B" online_inverse for D B
  by unfold_locales (rule auth_step_inverse)

section \<open>One login\<close>

text \<open>The state after a login job of context \<open>c\<close> for account \<open>i\<close> has been finished.\<close>

definition login_result_state :: "crypt \<Rightarrow> u32 \<Rightarrow> u64 \<Rightarrow> string \<Rightarrow> string \<Rightarrow> 'd auth \<Rightarrow> 'd auth" where
  "login_result_state B c i password saved s =
     (if i = InvalidId \<or> checkpw B password saved \<noteq> 0 then send_reply (LoginResponse c LoginFailure) s
      else if contextIdMap s c \<noteq> None then send_reply (LoginResponse c DuplicateContext) s
      else if idContextMap s i \<noteq> None then send_reply (LoginResponse c DuplicateAccount) s
      else send_reply (LoginResponse c LoginSuccess)
        (s\<lparr>contextIdMap := (contextIdMap s)(c \<mapsto> i), idContextMap := (idContextMap s)(i \<mapsto> c)\<rparr>))"

lemma single_login:
  assumes "background s = [new_login_job c i password saved]" and "foreground s = []"
  shows "\<exists>s2. background_round B s = Inr s2 \<and>
    auth_Tick D s2 = Inr (login_result_state B c i password saved (s\<lparr>background := []\<rparr>))"
proof -
  define j where "j = login_ExecuteBackgroundJob B \<lparr>lContext = c, lId = i, RequestedPassword = password,
    SavedPassword = saved, isPasswordMatch = False\<rparr>"
  have j: "lContext j = c" "lId j = i" "isPasswordMatch j \<longleftrightarrow> i \<noteq> InvalidId \<and> checkpw B password saved = 0"
    by (simp_all add: j_def login_ExecuteBackgroundJob_def)
  let ?s2 = "s\<lparr>background := [], foreground := [LoginJob j]\<rparr>"
  have "background_round B s = Inr ?s2"
    using assms by (simp add: background_round_def new_login_job_def j_def)
  moreover have "auth_Tick D ?s2 = Inr (login_result_state B c i password saved (s\<lparr>background := []\<rparr>))"
    using assms(2) j
    by (auto simp: auth_Tick_def login_result_state_def add_context_def send_reply_def)
  ultimately show ?thesis by blast
qed

lemma single_register:
  assumes "background s = [new_register_job c a password]" and "foreground s = []"
    and "gensalt B 12 = (0, salt)" and "hashpw B password salt = (0, h)"
    and "TryCreateAccount D a h (accounts s) = Inr (CreateSuccess, d')"
  shows "\<exists>s2. background_round B s = Inr s2 \<and> auth_Tick D s2 =
    Inr (send_reply (RegisterResponse c True NoReason) (s\<lparr>background := [], accounts := d'\<rparr>))"
  using assms
  by (simp add: background_round_def new_register_job_def register_ExecuteBackgroundJob_def auth_Tick_def
      send_reply_def)

section \<open>Many jobs\<close>

text \<open>Rounds of the background thread, and ticks, one after the other.\<close>

primrec rounds :: "crypt \<Rightarrow> nat \<Rightarrow> 'd auth \<Rightarrow> 'd auth res" where
  "rounds B 0 s = Inr s"
| "rounds B (Suc k) s = bindR (background_round B s) (rounds B k)"

primrec ticks :: "'d account_db \<Rightarrow> nat \<Rightarrow> 'd auth \<Rightarrow> 'd auth res" where
  "ticks D 0 s = Inr s"
| "ticks D (Suc k) s = bindR (auth_Tick D s) (ticks D k)"

text \<open>What they amount to: every job is executed, and every job is finished, whether \<open>Tick\<close> returns after it or not.\<close>

primrec execute_all :: "crypt \<Rightarrow> auth_job list \<Rightarrow> auth_job list res" where
  "execute_all B [] = Inr []"
| "execute_all B (j # js) = bindR (execute_job B j) (\<lambda>j'. bindR (execute_all B js) (\<lambda>js'. Inr (j' # js')))"

primrec finish_all :: "'d account_db \<Rightarrow> auth_job list \<Rightarrow> 'd auth \<Rightarrow> 'd auth res" where
  "finish_all D [] s = Inr s"
| "finish_all D (j # js) s = bindR (finish_job D j s) (\<lambda>p. finish_all D js (snd p))"

lemma bindR_Inr_right: "bindR m Inr = m"
  by (cases m) simp_all

lemma queue_order [simp]: "s\<lparr>background := b, foreground := f\<rparr> = s\<lparr>foreground := f, background := b\<rparr>"
  by (cases s) simp

lemma execute_all_append:
  "execute_all B (xs @ ys) = bindR (execute_all B xs) (\<lambda>xs'. bindR (execute_all B ys) (\<lambda>ys'. Inr (xs' @ ys')))"
  by (induction xs) (simp_all add: bindR_assoc bindR_Inr_right)

lemma execute_all_length: "execute_all B xs = Inr ys \<Longrightarrow> length ys = length xs"
  by (induction xs arbitrary: ys) (auto simp: bindR_eq_Inr)

lemma finish_all_append: "finish_all D (xs @ ys) s = bindR (finish_all D xs s) (finish_all D ys)"
  by (induction xs arbitrary: s) (simp_all add: bindR_assoc)

lemma rounds_all:
  "execute_all B (background s) = Inr js' \<Longrightarrow> length (background s) \<le> k \<Longrightarrow>
   rounds B k s = Inr (s\<lparr>background := [], foreground := foreground s @ js'\<rparr>)"
proof (induction k arbitrary: s js')
  case 0
  then show ?case by simp
next
  case (Suc k)
  show ?case
  proof (cases "background s")
    case Nil
    then have "s\<lparr>background := [], foreground := foreground s\<rparr> = s" by simp
    then show ?thesis using Suc.IH [of s "[]"] Suc.prems(1) Nil by (simp add: background_round_def)
  next
    case (Cons j js)
    then obtain j' js2 where j: "execute_job B j = Inr j'" "execute_all B js = Inr js2" "js' = j' # js2"
      using Suc.prems(1) by (auto simp: bindR_eq_Inr)
    then show ?thesis
      using Suc.IH [of "s\<lparr>background := js, foreground := foreground s @ [j']\<rparr>" js2] Suc.prems(2) Cons
      by (simp add: background_round_def)
  qed
qed

lemma finish_job_queues:
  "finish_job D j (s\<lparr>foreground := f, background := b\<rparr>) =
     bindR (finish_job D j s) (\<lambda>p. Inr (fst p, (snd p)\<lparr>foreground := f, background := b\<rparr>))"
proof (cases j)
  case (LoginJob l)
  then show ?thesis by (simp add: add_context_def send_reply_def)
next
  case (RegisterJob r)
  then show ?thesis
    by (cases "TryCreateAccount D (rId r) (hashedPassword r) (accounts s)") (auto simp: Let_def send_reply_def)
qed

lemma tick_jobs_queues:
  "tick_jobs D js (s\<lparr>foreground := f, background := b\<rparr>) = tick_jobs D js (s\<lparr>foreground := f', background := b\<rparr>)"
proof (induction js arbitrary: s)
  case (Cons j js)
  show ?case
  proof (cases "finish_job D j s")
    case (Inr p)
    then show ?thesis using Cons.IH [of "snd p"] by (simp add: finish_job_queues split_beta)
  qed (simp add: finish_job_queues)
qed simp

text \<open>As many ticks as there are jobs finish them all: a tick that returns early only leaves the rest for the next one.\<close>

lemma ticks_idle: "ticks D k (s\<lparr>foreground := [], background := []\<rparr>) = Inr (s\<lparr>foreground := [], background := []\<rparr>)"
  by (induction k) (simp_all add: auth_Tick_def)

lemma ticks_all:
  "finish_all D js s = Inr t \<Longrightarrow> length js \<le> k \<Longrightarrow>
   ticks D k (s\<lparr>foreground := js, background := []\<rparr>) = Inr (t\<lparr>foreground := [], background := []\<rparr>)"
proof (induction js arbitrary: k s)
  case Nil
  then show ?case using ticks_idle by simp
next
  case (Cons j js)
  then obtain k' where k: "k = Suc k'" "length js \<le> k'" by (cases k) auto
  obtain go s1 where f: "finish_job D j s = Inr (go, s1)" "finish_all D js s1 = Inr t"
    using Cons.prems(1) by (auto simp: bindR_eq_Inr)
  let ?next = "s1\<lparr>foreground := js, background := []\<rparr>"
  have 1: "auth_Tick D (s\<lparr>foreground := j # js, background := []\<rparr>) = (if go then auth_Tick D ?next else Inr ?next)"
    using f(1) tick_jobs_queues [where D = D and js = js and s = s1 and f = "j # js" and b = "[]" and f' = js] by (simp add: auth_Tick_def finish_job_queues)
  show ?case
  proof (cases go)
    case False
    then show ?thesis using 1 k Cons.IH [OF f(2) k(2)] by simp
  next
    case True
    then show ?thesis using 1 k Cons.IH [OF f(2), of "Suc k'"] by simp
  qed
qed

text \<open>A context comes online only by a finished login of this context.\<close>

lemma finish_job_online:
  assumes "finish_job D j s = Inr (go, s')" and "contextIdMap s c = None" and "contextIdMap s' c \<noteq> None"
  shows "\<exists>l. j = LoginJob l \<and> lContext l = c \<and> isPasswordMatch l"
proof (cases j)
  case (LoginJob l)
  then show ?thesis using assms by (auto simp: add_context_def split: if_splits)
next
  case (RegisterJob r)
  then show ?thesis using assms by (auto simp: bindR_eq_Inr Let_def split: if_splits)
qed

lemma tick_jobs_online:
  "tick_jobs D js s = Inr s' \<Longrightarrow> contextIdMap s c = None \<Longrightarrow> contextIdMap s' c \<noteq> None \<Longrightarrow>
   \<exists>l. LoginJob l \<in> set js \<and> lContext l = c \<and> isPasswordMatch l"
proof (induction js arbitrary: s)
  case (Cons j js)
  then obtain go s1 where f: "finish_job D j s = Inr (go, s1)"
    "(if go then tick_jobs D js s1 else Inr (s1\<lparr>foreground := js\<rparr>)) = Inr s'"
    by (auto simp: bindR_eq_Inr)
  show ?case
  proof (cases "contextIdMap s1 c")
    case None
    then have "go" using f(2) Cons.prems(3) by (auto split: if_splits)
    then show ?thesis using Cons.IH [of s1] f(2) None Cons.prems(3) by auto
  next
    case (Some i)
    then show ?thesis using finish_job_online [OF f(1) Cons.prems(2)] by auto
  qed
qed auto

section \<open>Properties\<close>

text \<open>
  C9.  Who is online.  After any sequence of requests, disconnections, background rounds and ticks,
  the two maps are inverse to each other: no account is online in two sessions and no session has
  two accounts.
\<close>

theorem online_bijection:
  assumes "(auth_step D B)\<^sup>*\<^sup>* (new_auth d) s"
  shows "\<forall>c i. contextIdMap s c = Some i \<longleftrightarrow> idContextMap s i = Some c"
proof -
  have "online_inverse (new_auth d)" by (simp add: online_inverse_def new_auth_def)
  from auth_steps.steps_ok [OF assms this] show ?thesis by (simp add: online_inverse_def)
qed

text \<open>
  C34.  A login, from request to response, whatever is queued already.  A session that is online is told so and disconnected, and
  nothing is queued.  Otherwise one job is queued behind the others.  If executing and finishing the jobs before it does not fault,
  then with as many background rounds as there are jobs, and as many ticks (a tick that meets a failed job returns and leaves the
  rest to the next one), all jobs are finished in their order, this one last; its result depends on the state \<open>t\<close> that the others
  have left.  An unknown account, a wrong password, and an account with the id 0xFFFFFFFF, whatever the password, fail; a
  session that has come online meanwhile is a duplicate context, an account that is online a duplicate account; otherwise the
  session is online with this account.
\<close>

theorem login_outcome:
  assumes "execute_all B (background s) = Inr jobs" and "finish_all D (foreground s @ jobs) s = Inr t"
    and "length (background s) < k" and "length (foreground s) + length (background s) < m"
  shows "if contextIdMap s c \<noteq> None
    then OnLoginRequest D c a p s = send_reply (Disconnect c) (send_reply (NotifyFatal c AlreadyLoggedIn) s)
    else \<exists>s2. rounds B k (OnLoginRequest D c a p s) = Inr s2 \<and> ticks D m s2 = Inr
      ((case GetAccountIdPasswordPair D a (accounts s) of
         None \<Rightarrow> send_reply (LoginResponse c LoginFailure) t
       | Some (i, saved) \<Rightarrow>
           if i = 0xFFFFFFFF \<or> checkpw B p saved \<noteq> 0 then send_reply (LoginResponse c LoginFailure) t
           else if contextIdMap t c \<noteq> None then send_reply (LoginResponse c DuplicateContext) t
           else if idContextMap t i \<noteq> None then send_reply (LoginResponse c DuplicateAccount) t
           else send_reply (LoginResponse c LoginSuccess)
             (t\<lparr>contextIdMap := (contextIdMap t)(c \<mapsto> i), idContextMap := (idContextMap t)(i \<mapsto> c)\<rparr>))
         \<lparr>foreground := [], background := []\<rparr>)"
proof (cases "contextIdMap s c = None")
  case False
  then show ?thesis by (simp add: OnLoginRequest_def)
next
  case True
  obtain i saved where job: "OnLoginRequest D c a p s = s\<lparr>background := background s @ [new_login_job c i p saved]\<rparr>"
    "case GetAccountIdPasswordPair D a (accounts s) of None \<Rightarrow> i = InvalidId | Some q \<Rightarrow> q = (i, saved)"
    using True by (fastforce simp: OnLoginRequest_def split: option.splits)
  define j where "j = login_ExecuteBackgroundJob B \<lparr>lContext = c, lId = i, RequestedPassword = p,
    SavedPassword = saved, isPasswordMatch = False\<rparr>"
  let ?s1 = "s\<lparr>background := background s @ [new_login_job c i p saved]\<rparr>" and ?js = "foreground s @ jobs @ [LoginJob j]"
  have "execute_all B (background ?s1) = Inr (jobs @ [LoginJob j])"
    using assms(1) by (simp add: execute_all_append new_login_job_def j_def)
  then have r: "rounds B k ?s1 = Inr (s\<lparr>foreground := ?js, background := []\<rparr>)" using rounds_all [of B ?s1] assms(3) by simp
  have len: "length jobs = length (background s)" using assms(1) by (rule execute_all_length)
  obtain t' where f: "finish_job D (LoginJob j) t = Inr t'" by (cases "finish_job D (LoginJob j) t") (auto split: if_splits prod.splits AuthenticationResult.splits)
  then have "finish_all D ?js s = Inr (snd t')"
    using assms(2) finish_all_append [of D "foreground s @ jobs" "[LoginJob j]" s] by simp
  then have "ticks D m (s\<lparr>foreground := ?js, background := []\<rparr>) = Inr ((snd t')\<lparr>foreground := [], background := []\<rparr>)"
    using assms(4) len by (intro ticks_all) simp_all
  moreover have "snd t' = login_result_state B c i p saved t"
    using f by (auto simp: j_def login_ExecuteBackgroundJob_def login_result_state_def add_context_def)
  ultimately show ?thesis using True job r by (auto simp: login_result_state_def InvalidId_def split: option.splits)
qed

text \<open>
  Registration requests on every branch: a job is queued exactly if the account has 6 to 24
  characters, all of them lower case letters, digits or underscores, and the password 8 to 32
  characters, all of them allowed; otherwise there is one refusal and nothing else changes.
\<close>

theorem register_request:
  "if 6 \<le> length a \<and> length a \<le> 24 \<and> (\<forall>ch\<in>set a. account_char ch) \<and>
      8 \<le> length p \<and> length p \<le> 32 \<and> (\<forall>ch\<in>set p. password_char ch)
   then OnRegisterRequest c a p s = s\<lparr>background := background s @ [new_register_job c a p]\<rparr>
   else \<exists>r. OnRegisterRequest c a p s = send_reply (RegisterResponse c False r) s"
  by (auto simp: OnRegisterRequest_def regex_search_not_def)

text \<open>
  Register, then log in.  If bcrypt hashes and checks as documented, registering a new account on
  an idle actor succeeds, and a login from any session that is not online then finds the account
  under an id; unless this id is 0xFFFFFFFF or online, the password puts it online.
\<close>

theorem register_then_login:
  assumes "db_laws D" and "background s = []" and "foreground s = []"
    and "background (OnRegisterRequest c a p s) \<noteq> []"
    and "GetAccountIdPasswordPair D a (accounts s) = None"
    and "InsertAccount D a h (accounts s) = Some (n, d')" and "0 < n"
    and "gensalt B 12 = (0, salt)" and "hashpw B p salt = (0, h)" and "checkpw B p h = 0"
    and "contextIdMap s c' = None"
  shows "\<exists>s2 s3 i. background_round B (OnRegisterRequest c a p s) = Inr s2 \<and> auth_Tick D s2 = Inr s3 \<and>
    sent s3 = sent s @ [RegisterResponse c True NoReason] \<and>
    GetAccountIdPasswordPair D a (accounts s3) = Some (i, h) \<and>
    (\<exists>s4 s5. background_round B (OnLoginRequest D c' a p s3) = Inr s4 \<and> auth_Tick D s4 = Inr s5 \<and>
       (i \<noteq> 0xFFFFFFFF \<and> idContextMap s i = None \<longrightarrow>
          contextIdMap s5 c' = Some i \<and> last (sent s5) = LoginResponse c' LoginSuccess))"
proof -
  have r: "OnRegisterRequest c a p s = s\<lparr>background := [new_register_job c a p]\<rparr>"
    using assms(2,4) by (auto simp: OnRegisterRequest_def split: if_splits)
  have none: "SelectIdPassword D a (accounts s) = []"
    using assms(5) by (auto simp: GetAccountIdPasswordPair_def split: list.splits)
  then have cr: "TryCreateAccount D a h (accounts s) = Inr (CreateSuccess, d')"
    using assms(1,6,7) by (simp add: TryCreateAccount_def db_laws_def)
  have "\<exists>i. mset (SelectIdPassword D a d') = {#(i, h)#}"
    using assms(1,6,7) none unfolding db_laws_def by force
  then obtain i where i: "GetAccountIdPasswordPair D a d' = Some (i, h)"
    by (auto simp: GetAccountIdPasswordPair_def)
  let ?s3 = "send_reply (RegisterResponse c True NoReason) (s\<lparr>background := [], accounts := d'\<rparr>)"
  obtain s2 where s2: "background_round B (OnRegisterRequest c a p s) = Inr s2" "auth_Tick D s2 = Inr ?s3"
    using single_register [of "OnRegisterRequest c a p s" c a p B salt h D d'] assms(3,8,9) cr r by auto
  let ?s1 = "?s3\<lparr>background := [new_login_job c' i p h]\<rparr>"
  have l: "OnLoginRequest D c' a p ?s3 = ?s1" using assms(11) i by (simp add: OnLoginRequest_def)
  obtain s4 where s4: "background_round B ?s1 = Inr s4"
    "auth_Tick D s4 = Inr (login_result_state B c' i p h (?s1\<lparr>background := []\<rparr>))"
    using single_login [of ?s1 c' i p h B D] assms(3) by auto
  have "i \<noteq> 0xFFFFFFFF \<and> idContextMap s i = None \<longrightarrow>
      contextIdMap (login_result_state B c' i p h (?s1\<lparr>background := []\<rparr>)) c' = Some i \<and>
      last (sent (login_result_state B c' i p h (?s1\<lparr>background := []\<rparr>))) = LoginResponse c' LoginSuccess"
    using assms(10,11) by (auto simp: login_result_state_def InvalidId_def send_reply_def)
  then show ?thesis using s2 s4 l i
    by (intro exI [of _ s2] exI [of _ ?s3] exI [of _ i]) (auto simp: send_reply_def)
qed

text \<open>
  C35.  A session that disconnects while its login is being checked.  Its disconnection is handled
  before the job is finished and finds nothing to remove; the job then puts the dead session online.
  From then on every login of this account from another session is refused as a duplicate.
\<close>

theorem login_after_disconnect:
  assumes "background s = []" and "foreground s = []" and "contextIdMap s c = None"
    and "GetAccountIdPasswordPair D a (accounts s) = Some (i, saved)" and "idContextMap s i = None"
    and "i \<noteq> InvalidId" and "checkpw B p saved = 0"
  shows "\<exists>s2 s3. background_round B (HandleSessionDisconnected c (OnLoginRequest D c a p s)) = Inr s2 \<and>
    auth_Tick D s2 = Inr s3 \<and> contextIdMap s3 c = Some i \<and>
    (\<forall>c'. contextIdMap s3 c' = None \<longrightarrow> (\<exists>s4. background_round B (OnLoginRequest D c' a p s3) = Inr s4 \<and>
       auth_Tick D s4 = Inr (send_reply (LoginResponse c' DuplicateAccount) s3)))"
proof -
  let ?s1 = "s\<lparr>background := [new_login_job c i p saved]\<rparr>"
  have r: "HandleSessionDisconnected c (OnLoginRequest D c a p s) = ?s1"
    using assms by (simp add: OnLoginRequest_def HandleSessionDisconnected_def)
  define s3 where "s3 = send_reply (LoginResponse c LoginSuccess)
    (s\<lparr>contextIdMap := (contextIdMap s)(c \<mapsto> i), idContextMap := (idContextMap s)(i \<mapsto> c)\<rparr>)"
  have "login_result_state B c i p saved (?s1\<lparr>background := []\<rparr>) = s3"
    using assms by (simp add: login_result_state_def s3_def send_reply_def)
  then obtain s2 where s2: "background_round B ?s1 = Inr s2" "auth_Tick D s2 = Inr s3"
    using single_login [of ?s1 c i p saved B D] assms(2) by auto
  have "\<exists>s4. background_round B (OnLoginRequest D c' a p s3) = Inr s4 \<and>
      auth_Tick D s4 = Inr (send_reply (LoginResponse c' DuplicateAccount) s3)" if c': "contextIdMap s3 c' = None" for c'
  proof -
    let ?t = "s3\<lparr>background := [new_login_job c' i p saved]\<rparr>"
    have "OnLoginRequest D c' a p s3 = ?t" using assms c' by (simp add: OnLoginRequest_def s3_def)
    moreover have "login_result_state B c' i p saved (?t\<lparr>background := []\<rparr>) =
        send_reply (LoginResponse c' DuplicateAccount) s3"
      using assms c' by (simp add: login_result_state_def s3_def send_reply_def split: if_splits)
    ultimately show ?thesis using single_login [of ?t c' i p saved B D] assms(2) by (auto simp: s3_def)
  qed
  then show ?thesis using r s2 by (intro exI [of _ s2] exI [of _ s3]) (simp add: s3_def)
qed


text \<open>A bcrypt without strength, for the witnesses.\<close>

definition plain_crypt :: crypt where
  "plain_crypt = \<lparr>checkpw = \<lambda>p h. if h = p then 0 else 1, gensalt = \<lambda>n. (0, ''s''), hashpw = \<lambda>p salt. (0, p)\<rparr>"

definition one_account :: "(string \<times> u64 \<times> string) list auth" where
  "one_account = new_auth [(''ratkin'', 4, ''password'')]"

lemma one_account_facts:
  "background one_account = []" "foreground one_account = []" "contextIdMap one_account c = None"
  "idContextMap one_account i = None" "checkpw plain_crypt p p = 0"
  "GetAccountIdPasswordPair list_db ''ratkin'' (accounts one_account) = Some (4, ''password'')"
  "GetAccountIdPasswordPair list_db ''hamster'' (accounts one_account) = None"
  "gensalt plain_crypt 12 = (0, ''s'')" "hashpw plain_crypt p ''s'' = (0, p)"
  "InsertAccount list_db ''hamster'' p (accounts one_account) =
     Some (1, [(''ratkin'', 4, ''password''), (''hamster'', 1, p)])" "4 \<noteq> InvalidId"
  by (simp_all add: one_account_def new_auth_def plain_crypt_def GetAccountIdPasswordPair_def list_db_def
      InvalidId_def)

theorem online_bijection_witness:
  "\<exists>s. (auth_step list_db plain_crypt)\<^sup>*\<^sup>* one_account s \<and> contextIdMap s 7 = Some 4 \<and> idContextMap s 4 = Some 7"
proof -
  let ?s1 = "one_account\<lparr>background := [new_login_job 7 4 ''password'' ''password'']\<rparr>"
  let ?s3 = "login_result_state plain_crypt 7 4 ''password'' ''password'' (?s1\<lparr>background := []\<rparr>)"
  have "OnLoginRequest list_db 7 ''ratkin'' ''password'' one_account = ?s1"
    by (simp add: OnLoginRequest_def one_account_facts)
  then have a: "auth_step list_db plain_crypt one_account ?s1" by (metis auth_step.login)
  obtain s2 where s2: "background_round plain_crypt ?s1 = Inr s2" "auth_Tick list_db s2 = Inr ?s3"
    using single_login [of ?s1 7 4 "''password''" "''password''"] one_account_facts(2) by auto
  have r: "(auth_step list_db plain_crypt)\<^sup>*\<^sup>* one_account ?s3"
    using a auth_step.work [OF s2(1)] auth_step.tick [OF s2(2)]
    by (meson rtranclp.rtrancl_into_rtrancl rtranclp.rtrancl_refl)
  have "contextIdMap ?s3 7 = Some 4" by (simp add: login_result_state_def one_account_facts)
  moreover have "idContextMap ?s3 4 = Some 7"
    using online_bijection [OF r [unfolded one_account_def]] calculation by (simp add: one_account_def)
  ultimately show ?thesis using r by blast
qed

text \<open>
  A failed login of session 9 is finished and a login of session 7 waits when session 7 asks again: the first tick stops after the
  failure, the second brings session 7 online and finds it online already.
\<close>

theorem login_outcome_witness:
  "\<exists>s2 s3. rounds plain_crypt 2 (OnLoginRequest list_db 7 ''ratkin'' ''password''
       (one_account\<lparr>foreground := [LoginJob \<lparr>lContext = 9, lId = 4, RequestedPassword = ''x'', SavedPassword = ''y'', isPasswordMatch = False\<rparr>],
         background := [new_login_job 7 4 ''password'' ''password'']\<rparr>)) = Inr s2 \<and> ticks list_db 3 s2 = Inr s3 \<and>
     sent s3 = [LoginResponse 9 LoginFailure, LoginResponse 7 LoginSuccess, LoginResponse 7 DuplicateContext]"
proof -
  let ?f = "LoginJob \<lparr>lContext = 9, lId = 4, RequestedPassword = ''x'', SavedPassword = ''y'', isPasswordMatch = False\<rparr>"
  let ?j = "LoginJob \<lparr>lContext = 7, lId = 4, RequestedPassword = ''password'', SavedPassword = ''password'', isPasswordMatch = True\<rparr>"
  let ?s = "one_account\<lparr>foreground := [?f], background := [new_login_job 7 4 ''password'' ''password'']\<rparr>"
  let ?t = "?s\<lparr>contextIdMap := [7 \<mapsto> 4], idContextMap := [4 \<mapsto> 7], sent := [LoginResponse 9 LoginFailure, LoginResponse 7 LoginSuccess]\<rparr>"
  have x: "execute_all plain_crypt (background ?s) = Inr [?j]"
    by (simp add: new_login_job_def login_ExecuteBackgroundJob_def plain_crypt_def InvalidId_def)
  have y: "finish_all list_db (foreground ?s @ [?j]) ?s = Inr ?t"
    by (simp add: add_context_def send_reply_def one_account_def new_auth_def fun_eq_iff)
  from login_outcome [OF x y, of 2 3 7 "''ratkin''" "''password''"] show ?thesis
    by (auto simp: one_account_facts plain_crypt_def send_reply_def)
qed

theorem register_then_login_witness:
  "\<exists>s2 s3. background_round plain_crypt (OnRegisterRequest 7 ''hamster'' ''password'' one_account) = Inr s2 \<and>
     auth_Tick list_db s2 = Inr s3 \<and> sent s3 = [RegisterResponse 7 True NoReason]"
proof -
  have "background (OnRegisterRequest 7 ''hamster'' ''password'' one_account) \<noteq> []"
    by (simp add: OnRegisterRequest_def regex_search_not_def account_char_def password_char_def code_of_def
        one_account_facts)
  from register_then_login [OF list_db_laws one_account_facts(1,2) this one_account_facts(7)
      one_account_facts(10) zero_less_one one_account_facts(8,9,5) one_account_facts(3) [of 9]]
  show ?thesis by (auto simp: one_account_def new_auth_def)
qed

theorem login_after_disconnect_witness:
  "\<exists>s2 s3. background_round plain_crypt
       (HandleSessionDisconnected 7 (OnLoginRequest list_db 7 ''ratkin'' ''password'' one_account)) = Inr s2 \<and>
     auth_Tick list_db s2 = Inr s3 \<and> contextIdMap s3 7 = Some 4"
  using login_after_disconnect [OF one_account_facts(1-3,6,4,11,5)] by blast

theorem register_request_witness:
  "OnRegisterRequest 3 ''tester_1'' ''abcdefgh'' one_account =
     one_account\<lparr>background := background one_account @ [new_register_job 3 ''tester_1'' ''abcdefgh'']\<rparr>"
  using register_request [of "''tester_1''" "''abcdefgh''" 3 one_account]
  by (simp add: account_char_def password_char_def code_of_def)

end
