(* ===== verification/Net_Server.thy ===== *)
theory Net_Server
  imports Session_Io Actors
begin

text \<open>
  \<open>NetworkServer\<close> (NetworkServer.h, NetworkServer.cpp): the sessions by context, the handlers of the completions, and the
  clean-up of a session, over the sessions of \<open>Session_Io\<close> and the dispatcher of \<open>Actors\<close>.  What WinSock and OpenSSL
  answer is given by arguments.
\<close>

section \<open>State\<close>

text \<open>The messages the server sends to actors: context, type, body size and body of a client message; a lost session.\<close>

datatype net_message = Msg_Cts u32 u16 u16 "u8 list" | Msg_SessionDisconnected u32

record ('t, 'a) network =
  InitialAssociatedActor :: string
  newContext :: u32
  sessions :: "u32 \<Rightarrow> 't session option"
  actors :: "(net_message, 'a) registry_of_actors"

definition new_network :: "string \<Rightarrow> (net_message, 'a) registry_of_actors \<Rightarrow> ('t, 'a) network" where
  "new_network initialAssociatedActor dispatcher =
     \<lparr>InitialAssociatedActor = initialAssociatedActor, newContext = 0, sessions = (\<lambda>c. None), actors = dispatcher\<rparr>"

definition put_session :: "u32 \<Rightarrow> 't session \<Rightarrow> ('t, 'a) network \<Rightarrow> ('t, 'a) network" where
  "put_session c s n = n\<lparr>sessions := (sessions n)(c \<mapsto> s)\<rparr>"

text \<open>
  A handler reaches its session through the pointer in the overlapped structure, which is part of the session: after the
  session has been erased both are gone.
\<close>

definition live_session :: "u32 \<Rightarrow> ('t, 'a) network \<Rightarrow> 't session res" where
  "live_session c n = (case sessions n c of None \<Rightarrow> Inl UseAfterFree | Some s \<Rightarrow> Inr s)"

section \<open>Cleaning a session up\<close>

text \<open>
  \<open>SessionCleanupRoutine\<close> in its parts: closing the session, which says whether to go on; taking it out of the map under the lock,
  which gives the actor to tell; telling this actor, without the lock.  \<open>locked\<close>: the calling thread holds \<open>sessionsMutex_\<close> already.
\<close>

definition close_session :: "u32 \<Rightarrow> ('t, 'a) network \<Rightarrow> bool \<times> ('t, 'a) network" where
  "close_session context n =
     (case sessions n context of
        None \<Rightarrow> (False, n)
      | Some s \<Rightarrow> (let (closed, s') = Close s in (closed, put_session context s' n)))"

definition take_session :: "u32 \<Rightarrow> ('t, 'a) network \<Rightarrow> string option \<times> ('t, 'a) network" where
  "take_session context n =
     (case sessions n context of
        None \<Rightarrow> (None, n)
      | Some s \<Rightarrow> (Some (AssociatedActor s), n\<lparr>sessions := (sessions n)(context := None)\<rparr>))"

definition tell_disconnected :: "string \<Rightarrow> u32 \<Rightarrow> ('t, 'a) network \<Rightarrow> ('t, 'a) network res" where
  "tell_disconnected assosiatedActor context n =
     (let (pushed, acts) = TryPushMessageTo assosiatedActor (Msg_SessionDisconnected context) (actors n)
      in bindR (crash_cond (\<not> pushed)) (\<lambda>u. Inr (n\<lparr>actors := acts\<rparr>)))"

definition erase_session :: "u32 \<Rightarrow> ('t, 'a) network \<Rightarrow> (bool \<times> ('t, 'a) network) res" where
  "erase_session context n =
     (case take_session context n of
        (None, n1) \<Rightarrow> Inr (False, n1)
      | (Some assosiatedActor, n1) \<Rightarrow> bindR (tell_disconnected assosiatedActor context n1) (\<lambda>n2. Inr (True, n2)))"

lemma erase_session_eq:
  "erase_session context n =
     (case sessions n context of
        None \<Rightarrow> Inr (False, n)
      | Some s \<Rightarrow>
          let n1 = n\<lparr>sessions := (sessions n)(context := None)\<rparr>;
              (pushed, acts) = TryPushMessageTo (AssociatedActor s) (Msg_SessionDisconnected context) (actors n1)
          in bindR (crash_cond (\<not> pushed)) (\<lambda>u. Inr (True, n1\<lparr>actors := acts\<rparr>)))"
  by (simp add: erase_session_def take_session_def tell_disconnected_def Let_def bindR_assoc split_beta split: option.split)

definition SessionCleanupRoutine :: "bool \<Rightarrow> u32 \<Rightarrow> ('t, 'a) network \<Rightarrow> ('t, 'a) network res" where
  "SessionCleanupRoutine locked context n =
     (if locked then Inl SelfDeadlock
      else let (closed, n1) = close_session context n
           in if \<not> closed then Inr n1 else bindR (erase_session context n1) (\<lambda>p. Inr (snd p)))"

definition DisconnectSession :: "u32 \<Rightarrow> ('t, 'a) network \<Rightarrow> ('t, 'a) network res" where
  "DisconnectSession context n = SessionCleanupRoutine False context n"

section \<open>Accepting\<close>

text \<open>What the operating system and OpenSSL answer in \<open>PostAccept\<close>; \<open>handshake\<close> is the engine after \<open>SSL_accept\<close>.\<close>

record 't accept_env =
  sslCreated :: bool
  fdSet :: bool
  handshake :: "'t option"
  noDelaySet :: bool
  portCreated :: bool
  addressKnown :: bool

text \<open>
  \<open>PostAccept\<close> after the handshake: the context is counted up, the session is put into the map under the lock, and receives for
  the first time without it.
\<close>

definition take_context :: "('t, 'a) network \<Rightarrow> u32 \<times> ('t, 'a) network" where
  "take_context n = (newContext n, n\<lparr>newContext := newContext n + 1\<rparr>)"

definition emplace_session :: "session_protocol \<Rightarrow> 't \<Rightarrow> u32 \<Rightarrow> ('t, 'a) network \<Rightarrow> ('t, 'a) network res" where
  "emplace_session pr ssl context n =
     bindR (crash_cond (sessions n context \<noteq> None)) (\<lambda>u.
       Inr (put_session context (new_session pr ssl context (InitialAssociatedActor n)) n))"

definition first_receive :: "session_protocol \<Rightarrow> bool \<Rightarrow> u32 \<Rightarrow> ('t, 'a) network \<Rightarrow> (bool \<times> ('t, 'a) network) res" where
  "first_receive pr recvOk context n =
     bindR (live_session context n) (\<lambda>s.
       let (posted, s') = TryReceiveAsync pr recvOk s in Inr (posted \<noteq> None, put_session context s' n))"

text \<open>\<open>PostAccept\<close> up to the first receive: the context of the new session and whether it receives, if there is one.\<close>

definition accept_session :: "session_protocol \<Rightarrow> 't accept_env \<Rightarrow> bool \<Rightarrow> ('t, 'a) network \<Rightarrow>
    ((u32 \<times> bool) option \<times> ('t, 'a) network) res" where
  "accept_session pr env recvOk n =
     bindR (crash_cond (\<not> sslCreated env)) (\<lambda>u.
     bindR (crash_cond (\<not> fdSet env)) (\<lambda>u.
     case handshake env of
       None \<Rightarrow> Inr (None, n)
     | Some ssl \<Rightarrow>
         bindR (crash_cond (\<not> noDelaySet env)) (\<lambda>u.
         bindR (crash_cond (\<not> portCreated env)) (\<lambda>u.
         if \<not> addressKnown env then Inr (None, n)
         else
           let (context, n1) = take_context n
           in bindR (emplace_session pr ssl context n1) (\<lambda>n2.
              bindR (first_receive pr recvOk context n2) (\<lambda>(received, n3). Inr (Some (context, received), n3)))))))"

text \<open>When no other thread comes in between.\<close>

lemma enter_session:
  "(let (context, n1) = take_context n
    in bindR (emplace_session pr ssl context n1) (\<lambda>n2.
       bindR (first_receive pr recvOk context n2) (\<lambda>(received, n3). Inr (Some (context, received), n3)))) =
   (let context = newContext n; n1 = n\<lparr>newContext := context + 1\<rparr>;
        session = new_session pr ssl context (InitialAssociatedActor n)
    in bindR (crash_cond (sessions n1 context \<noteq> None)) (\<lambda>u.
       let (posted, session') = TryReceiveAsync pr recvOk session
       in Inr (Some (context, posted \<noteq> None), put_session context session' n1)))"
  by (simp add: take_context_def emplace_session_def first_receive_def live_session_def put_session_def
      bindR_assoc crash_cond_def Let_def split_beta)

lemma accept_session_eq:
  "accept_session pr env recvOk n =
     bindR (crash_cond (\<not> sslCreated env)) (\<lambda>u.
     bindR (crash_cond (\<not> fdSet env)) (\<lambda>u.
     case handshake env of
       None \<Rightarrow> Inr (None, n)
     | Some ssl \<Rightarrow>
         bindR (crash_cond (\<not> noDelaySet env)) (\<lambda>u.
         bindR (crash_cond (\<not> portCreated env)) (\<lambda>u.
         if \<not> addressKnown env then Inr (None, n)
         else
           let context = newContext n;
               n1 = n\<lparr>newContext := context + 1\<rparr>;
               session = new_session pr ssl context (InitialAssociatedActor n)
           in bindR (crash_cond (sessions n1 context \<noteq> None)) (\<lambda>u.
              let (posted, session') = TryReceiveAsync pr recvOk session
              in Inr (Some (context, posted \<noteq> None), put_session context session' n1))))))"
  unfolding accept_session_def enter_session by (rule refl)

definition PostAccept :: "session_protocol \<Rightarrow> 't accept_env \<Rightarrow> bool \<Rightarrow> ('t, 'a) network \<Rightarrow> ('t, 'a) network res" where
  "PostAccept pr env recvOk n =
     bindR (accept_session pr env recvOk n) (\<lambda>(accepted, n1).
       case accepted of
         Some (context, False) \<Rightarrow> SessionCleanupRoutine False context n1
       | _ \<Rightarrow> Inr n1)"

text \<open>\<open>PrepareAcceptSlot\<close> crashes if there is no socket or \<open>AcceptEx\<close> fails.\<close>

definition PrepareAcceptSlot :: "bool \<Rightarrow> bool \<Rightarrow> unit res" where
  "PrepareAcceptSlot socketCreated acceptPosted =
     bindR (crash_cond (\<not> socketCreated)) (\<lambda>u. crash_cond (\<not> acceptPosted))"

section \<open>Starting\<close>

text \<open>
  What the libraries answer in the constructor, in the order of the code: the completion port, the listening socket, the TLS
  context, its certificate, key and check, the address, the port of the socket, the option, \<open>bind\<close> and \<open>listen\<close>; then
  for each slot of the accept pool the answers in \<open>PrepareAcceptSlot\<close>.
\<close>

record start_env =
  iocpCreated :: bool
  listenSocketCreated :: bool
  sslCtxCreated :: bool
  certificateUsed :: bool
  privateKeyUsed :: bool
  privateKeyChecked :: bool
  addressParsed :: bool
  listenPortCreated :: bool
  reuseAddrSet :: bool
  bound :: bool
  listening :: bool
  slotAnswers :: "(bool \<times> bool) list"

primrec crash_conds :: "bool list \<Rightarrow> unit res" where
  "crash_conds [] = Inr ()"
| "crash_conds (c # cs) = bindR (crash_cond c) (\<lambda>u. crash_conds cs)"

primrec prepare_slots :: "(bool \<times> bool) list \<Rightarrow> unit res" where
  "prepare_slots [] = Inr ()"
| "prepare_slots (a # as) = bindR (PrepareAcceptSlot (fst a) (snd a)) (\<lambda>u. prepare_slots as)"

definition start_network :: "start_env \<Rightarrow> string \<Rightarrow> (net_message, 'a) registry_of_actors \<Rightarrow> ('t, 'a) network res" where
  "start_network env initialAssociatedActor dispatcher =
     bindR (crash_conds [\<not> iocpCreated env, \<not> listenSocketCreated env, \<not> sslCtxCreated env]) (\<lambda>u.
     bindR (crash_conds [\<not> certificateUsed env, \<not> privateKeyUsed env, \<not> privateKeyChecked env]) (\<lambda>u.
     bindR (crash_conds [\<not> addressParsed env, \<not> listenPortCreated env, \<not> reuseAddrSet env, \<not> bound env, \<not> listening env]) (\<lambda>u.
     bindR (prepare_slots (slotAnswers env)) (\<lambda>u.
     Inr (new_network initialAssociatedActor dispatcher)))))"

lemma crash_conds_eq: "crash_conds cs = (if True \<in> set cs then Inl Aborted else Inr ())"
  by (induction cs) (auto simp: crash_cond_def)

lemma prepare_slots_eq: "prepare_slots as = (if \<forall>a\<in>set as. fst a \<and> snd a then Inr () else Inl Aborted)"
  by (induction as) (auto simp: PrepareAcceptSlot_def crash_cond_def)

text \<open>The server starts, without a session, exactly if every library call succeeds; otherwise it aborts.\<close>

lemma start_network_eq:
  "start_network env nm acts =
     (if iocpCreated env \<and> listenSocketCreated env \<and> sslCtxCreated env \<and> certificateUsed env \<and> privateKeyUsed env \<and>
         privateKeyChecked env \<and> addressParsed env \<and> listenPortCreated env \<and> reuseAddrSet env \<and> bound env \<and> listening env \<and>
         (\<forall>a\<in>set (slotAnswers env). fst a \<and> snd a)
      then Inr (new_network nm acts) else Inl Aborted)"
  by (simp add: start_network_def crash_conds_eq prepare_slots_eq)

section \<open>Receiving\<close>

text \<open>The loop of \<open>PostReceive\<close> over the messages that are complete.\<close>

partial_function (option) deliver_messages ::
    "session_protocol \<Rightarrow> u32 \<Rightarrow> 't session \<Rightarrow> (net_message, 'a) registry_of_actors \<Rightarrow>
     ('t session \<times> (net_message, 'a) registry_of_actors) res option" where
  "deliver_messages pr context s acts =
     (case PeekReceivedMessage pr s of
        Inl e \<Rightarrow> Some (Inl e)
      | Inr (None, s') \<Rightarrow> Some (Inr (s', acts))
      | Inr (Some (messageType, bodyLen, body), s') \<Rightarrow>
          bindO (Some (crash_cond (\<not> fst (TryPushMessageTo (AssociatedActor s') (Msg_Cts context messageType bodyLen body) acts)))) (\<lambda>u.
          deliver_messages pr context (PopReceivedMessage pr (MessageHeaderSize pr + unat bodyLen) s')
            (snd (TryPushMessageTo (AssociatedActor s') (Msg_Cts context messageType bodyLen body) acts))))"

text \<open>\<open>PostReceive\<close> under the lock: whether it succeeded.\<close>

definition receive_locked :: "'t tls \<Rightarrow> session_protocol \<Rightarrow> bool \<Rightarrow> u32 \<Rightarrow> nat \<Rightarrow> ('t, 'a) network \<Rightarrow>
    (bool \<times> ('t, 'a) network) res option" where
  "receive_locked T pr recvOk context bytesTransferred n =
     bindO (Some (live_session context n)) (\<lambda>s.
     bindO (TryPostReceive T pr bytesTransferred s) (\<lambda>(ok, s1).
       let (posted, s2) = (if ok \<and> 0 < bytesTransferred then TryReceiveAsync pr recvOk s1 else (None, s1))
       in bindO (deliver_messages pr context s2 (actors n)) (\<lambda>(s3, acts).
          Some (Inr (posted \<noteq> None, put_session context s3 (n\<lparr>actors := acts\<rparr>))))))"

definition PostReceive :: "'t tls \<Rightarrow> session_protocol \<Rightarrow> bool \<Rightarrow> u32 \<Rightarrow> nat \<Rightarrow> ('t, 'a) network \<Rightarrow>
    ('t, 'a) network res option" where
  "PostReceive T pr recvOk context bytesTransferred n =
     bindO (receive_locked T pr recvOk context bytesTransferred n) (\<lambda>(succeeded, n1).
       Some (if succeeded then Inr n1 else SessionCleanupRoutine False context n1))"

section \<open>Sending\<close>

text \<open>\<open>InitiateSend\<close>; \<open>posted\<close> is the result of \<open>PostQueuedCompletionStatus\<close>.\<close>

definition InitiateSend :: "bool \<Rightarrow> 't session \<Rightarrow> 't session res" where
  "InitiateSend posted s =
     (let (overlapped, s') = InitiateSendAsync s
      in if overlapped then bindR (crash_cond (\<not> posted)) (\<lambda>u. Inr s') else Inr s')"

definition SendMessageTo :: "session_protocol \<Rightarrow> bool \<Rightarrow> u32 \<Rightarrow> u16 \<Rightarrow> u8 list \<Rightarrow> ('t, 'a) network \<Rightarrow> ('t, 'a) network res" where
  "SendMessageTo pr posted context messageType body n =
     (case sessions n context of
        None \<Rightarrow> Inr n
      | Some s \<Rightarrow>
          bindR (PushMessage pr messageType body s) (\<lambda>s1.
          bindR (InitiateSend posted s1) (\<lambda>s2. Inr (put_session context s2 n))))"

text \<open>\<open>PostSend\<close> under the lock.\<close>

definition send_locked :: "'t tls \<Rightarrow> session_protocol \<Rightarrow> bool \<Rightarrow> u32 \<Rightarrow> nat \<Rightarrow> ('t, 'a) network \<Rightarrow>
    (bool \<times> ('t, 'a) network) res option" where
  "send_locked T pr sendOk context bytesTransferred n =
     bindO (Some (live_session context n)) (\<lambda>s.
       let (ok, s1) = TryPostSend pr bytesTransferred s
       in if \<not> ok then Some (Inr (False, put_session context s1 n))
          else bindO (TrySendAsync T pr sendOk s1) (\<lambda>(succeeded, posted, s2).
            Some (Inr (succeeded, put_session context s2 n))))"

definition PostSend :: "'t tls \<Rightarrow> session_protocol \<Rightarrow> bool \<Rightarrow> u32 \<Rightarrow> nat \<Rightarrow> ('t, 'a) network \<Rightarrow> ('t, 'a) network res option" where
  "PostSend T pr sendOk context bytesTransferred n =
     bindO (send_locked T pr sendOk context bytesTransferred n) (\<lambda>(succeeded, n1).
       Some (if succeeded then Inr n1 else SessionCleanupRoutine False context n1))"

text \<open>The last branch of \<open>WorkerThreadBody\<close>: it holds the lock until its end, also for the clean-up.\<close>

definition initiated_locked :: "'t tls \<Rightarrow> session_protocol \<Rightarrow> bool \<Rightarrow> u32 \<Rightarrow> ('t, 'a) network \<Rightarrow>
    (bool \<times> ('t, 'a) network) res option" where
  "initiated_locked T pr sendOk context n =
     bindO (Some (live_session context n)) (\<lambda>s.
     bindO (TrySendAsync T pr sendOk (PostInitiateSend s)) (\<lambda>(succeeded, posted, s1).
       Some (Inr (succeeded, put_session context s1 n))))"

definition send_initiated :: "'t tls \<Rightarrow> session_protocol \<Rightarrow> bool \<Rightarrow> u32 \<Rightarrow> ('t, 'a) network \<Rightarrow> ('t, 'a) network res option" where
  "send_initiated T pr sendOk context n =
     bindO (initiated_locked T pr sendOk context n) (\<lambda>(succeeded, n1).
       Some (if succeeded then Inr n1 else SessionCleanupRoutine True context n1))"

section \<open>Completions\<close>

text \<open>A completion that failed; a failed \<open>IoType_InitiateSend\<close> aborts.\<close>

definition io_failed :: "io_type \<Rightarrow> u32 \<Rightarrow> ('t, 'a) network \<Rightarrow> ('t, 'a) network res" where
  "io_failed io context n =
     bindR (crash_cond (io = IoType_InitiateSend)) (\<lambda>u.
     bindR (live_session context n) (\<lambda>s.
       SessionCleanupRoutine False context (put_session context (PostIoFailed io s) n)))"

text \<open>What \<open>GetQueuedCompletionStatus\<close> delivers, with the answers that the handlers need.\<close>

datatype 't completion =
    Stop bool
  | Accepted bool "'t accept_env" bool bool bool
  | Done bool io_type u32 nat bool

text \<open>
  One round of \<open>WorkerThreadBody\<close>: whether the thread goes on.  The arguments of \<open>Accepted\<close> are success, the environment,
  whether the first receive is accepted, and the results of \<open>socket\<close> and \<open>AcceptEx\<close>; those of \<open>Done\<close> success, the type,
  the context of the session, the number of bytes, and whether the next operation is accepted.
\<close>

fun worker_round :: "'t tls \<Rightarrow> session_protocol \<Rightarrow> 't completion \<Rightarrow> ('t, 'a) network \<Rightarrow> (bool \<times> ('t, 'a) network) res option" where
  "worker_round T pr (Stop reposted) n = Some (bindR (crash_cond (\<not> reposted)) (\<lambda>u. Inr (False, n)))"
| "worker_round T pr (Accepted success env recvOk socketCreated acceptPosted) n =
     Some (bindR (if success then PostAccept pr env recvOk n else Inr n) (\<lambda>n1.
           bindR (PrepareAcceptSlot socketCreated acceptPosted) (\<lambda>u. Inr (True, n1))))"
| "worker_round T pr (Done success io context bytesTransferred nextOk) n =
     bindO (if \<not> success then Some (io_failed io context n)
            else case io of
                IoType_Send \<Rightarrow> PostSend T pr nextOk context bytesTransferred n
              | IoType_Receive \<Rightarrow> PostReceive T pr nextOk context bytesTransferred n
              | IoType_InitiateSend \<Rightarrow> send_initiated T pr nextOk context n)
       (\<lambda>n1. Some (Inr (True, n1)))"

section \<open>The associated actor\<close>

definition TryChangeAssociatedActor :: "u32 \<Rightarrow> string \<Rightarrow> string \<Rightarrow> ('t, 'a) network \<Rightarrow> bool \<times> ('t, 'a) network" where
  "TryChangeAssociatedActor context currentActorName newActorName n =
     (case sessions n context of
        None \<Rightarrow> (True, n)
      | Some s \<Rightarrow> if AssociatedActor s \<noteq> currentActorName then (False, n)
                  else (True, put_session context (s\<lparr>AssociatedActor := newActorName\<rparr>) n))"

definition ChangeAssociatedActor :: "u32 \<Rightarrow> string \<Rightarrow> ('t, 'a) network \<Rightarrow> ('t, 'a) network" where
  "ChangeAssociatedActor context newActorName n =
     (case sessions n context of
        None \<Rightarrow> n
      | Some s \<Rightarrow> put_session context (s\<lparr>AssociatedActor := newActorName\<rparr>) n)"

section \<open>Delivery\<close>

lemma put_session_simps [simp]:
  "sessions (put_session c s n) = (sessions n)(c \<mapsto> s)" "actors (put_session c s n) = actors n"
  "newContext (put_session c s n) = newContext n" "InitialAssociatedActor (put_session c s n) = InitialAssociatedActor n"
  by (simp_all add: put_session_def)

text \<open>The messages of a run of the loop, as the actor gets them.\<close>

definition cts_messages :: "u32 \<Rightarrow> (u16 \<times> u8 list) list \<Rightarrow> net_message list" where
  "cts_messages c ms = map (\<lambda>(ty, body). Msg_Cts c ty (of_nat (length body)) body) ms"

lemma deliver_spec:
  assumes "app_ok pr s" and "protocol_ok pr"
    and "\<And>m. m \<in> set (fst (frames (app_content s))) \<Longrightarrow> length (snd m) \<le> MessageMaxSize pr"
    and "inbox acts (AssociatedActor s) \<noteq> None"
  shows "\<exists>s'. deliver_messages pr c s acts = Some (Inr (s',
      push_each TryPushMessageTo (AssociatedActor s) (cts_messages c (fst (frames (app_content s)))) acts)) \<and>
    app_ok pr s' \<and> app_content s' = snd (frames (app_content s)) \<and> AssociatedActor s' = AssociatedActor s \<and>
    isIoOnline s' = isIoOnline s"
  using assms(1,3,4)
proof (induction "length (app_content s)" arbitrary: s acts rule: less_induct)
  case less
  show ?case
  proof (cases "next_frame (app_content s)")
    case None
    then have "PeekReceivedMessage pr s = Inr (None, s)" using peek_spec [OF less.prems(1) assms(2)] by simp
    then show ?thesis using None less.prems(1)
      by (simp add: deliver_messages.simps [of pr c s] frames.simps [of "app_content s"] cts_messages_def)
  next
    case (Some f)
    obtain ty k body where f: "f = (ty, k, body)" by (cases f)
    note F = next_frame_Some [OF Some [unfolded f]]
    let ?d = "drop (4 + unat k) (app_content s)" and ?A = "AssociatedActor s"
    have fr: "frames (app_content s) = ((ty, body) # fst (frames ?d), snd (frames ?d))"
      by (subst frames.simps) (simp add: Some f split: prod.split)
    have len: "length body = unat k" using F by auto
    then have "unat k \<le> MessageMaxSize pr" using less.prems(2) [of "(ty, body)"] fr by simp
    then obtain pop where p: "length pop = MessageMaxSize pr"
      "PeekReceivedMessage pr s = Inr (Some (ty, k, body), s\<lparr>ReceiveContiguousPopBuffer := pop\<rparr>)"
      using peek_spec [OF less.prems(1) assms(2)] Some f by auto
    define s1 where "s1 = PopReceivedMessage pr (4 + unat k) (s\<lparr>ReceiveContiguousPopBuffer := pop\<rparr>)"
    have s1: "app_ok pr s1" "app_content s1 = ?d"
      using pop_ok [of pr "s\<lparr>ReceiveContiguousPopBuffer := pop\<rparr>" "4 + unat k"]
        pop_buffer_ok(1) [OF p(1) less.prems(1)] F by (simp_all add: s1_def pop_buffer_ok(2) [OF p(1)])
    have a1: "AssociatedActor s1 = ?A" "isIoOnline s1 = isIoOnline s" by (simp_all add: s1_def PopReceivedMessage_def)
    let ?m = "Msg_Cts c ty k body"
    define acts1 where "acts1 = snd (TryPushMessageTo ?A ?m acts)"
    have "fst (TryPushMessageTo ?A ?m acts)" unfolding dispatcher.push_iff using less.prems(3) .
    then have step: "deliver_messages pr c s acts = deliver_messages pr c s1 acts1"
      using p(2) assms(2)
      by (simp add: deliver_messages.simps [of pr c s] s1_def acts1_def protocol_ok_def sizeof_MessageHeader_def)
    have "inbox acts1 (AssociatedActor s1) \<noteq> None"
      unfolding acts1_def a1 dispatcher.names_stay using less.prems(3) .
    moreover have "length (app_content s1) < length (app_content s)" using s1(2) F by auto
    moreover have "length (snd m) \<le> MessageMaxSize pr" if "m \<in> set (fst (frames (app_content s1)))" for m
      using less.prems(2) [of m] that s1(2) fr by simp
    ultimately obtain s' where "deliver_messages pr c s1 acts1 = Some (Inr (s',
        push_each TryPushMessageTo ?A (cts_messages c (fst (frames ?d))) acts1))"
      "app_ok pr s'" "app_content s' = snd (frames ?d)" "AssociatedActor s' = ?A" "isIoOnline s' = isIoOnline s"
      using less.hyps [of s1 acts1] s1 unfolding a1 by (auto simp only:)
    moreover have "cts_messages c (fst (frames (app_content s))) = ?m # cts_messages c (fst (frames ?d))"
      using fr len by (simp add: cts_messages_def)
    ultimately show ?thesis using step fr by (simp add: acts1_def)
  qed
qed

lemma deliver_unknown:
  assumes "app_ok pr s" and "protocol_ok pr" and "next_frame (app_content s) = Some (ty, k, body)"
    and "unat k \<le> MessageMaxSize pr" and "inbox acts (AssociatedActor s) = None"
  shows "deliver_messages pr c s acts = Some (Inl Aborted)"
proof -
  obtain pop where "PeekReceivedMessage pr s = Inr (Some (ty, k, body), s\<lparr>ReceiveContiguousPopBuffer := pop\<rparr>)"
    using peek_spec [OF assms(1,2)] assms(3,4) by auto
  then show ?thesis using dispatcher.push_unknown [OF assms(5)] by (simp add: deliver_messages.simps [of pr c s])
qed

lemma TryReceiveAsync_app:
  assumes "TryReceiveAsync pr b s = (posted, s')"
  shows "app_ok pr s' = app_ok pr s" "app_content s' = app_content s" "AssociatedActor s' = AssociatedActor s"
    "posted = None \<Longrightarrow> isIoOnline s' = isIoOnline s"
  using assms by (auto simp: TryReceiveAsync_def Let_def set_online_def app_ok_def app_content_def split: if_splits)

lemma receive_locked_spec:
  assumes s: "sessions n c = Some s" and r: "TryPostReceive T pr k s = Some (Inr (ok, s1))"
    and a: "app_ok pr s1" "protocol_ok pr"
    and fit: "\<And>m. m \<in> set (fst (frames (app_content s1))) \<Longrightarrow> length (snd m) \<le> MessageMaxSize pr"
    and box: "inbox (actors n) (AssociatedActor s1) = Some ms"
  shows "\<exists>n' s'. receive_locked T pr recvOk c k n =
      Some (Inr (ok \<and> 0 < k \<and> fst (TryReceiveAsync pr recvOk s1) \<noteq> None, n')) \<and>
    inbox (actors n') = (inbox (actors n))(AssociatedActor s1 \<mapsto> ms @ cts_messages c (fst (frames (app_content s1)))) \<and>
    sessions n' = (sessions n)(c \<mapsto> s') \<and> app_ok pr s' \<and> app_content s' = snd (frames (app_content s1)) \<and>
    AssociatedActor s' = AssociatedActor s1 \<and>
    actors n' = push_each TryPushMessageTo (AssociatedActor s1) (cts_messages c (fst (frames (app_content s1)))) (actors n) \<and>
    (\<not> (ok \<and> 0 < k \<and> fst (TryReceiveAsync pr recvOk s1) \<noteq> None) \<longrightarrow> isIoOnline s' = isIoOnline s1)"
proof -
  define go where "go \<longleftrightarrow> ok \<and> 0 < k"
  obtain posted s2 where p: "(if go then TryReceiveAsync pr recvOk s1 else (None, s1)) = (posted, s2)" by fastforce
  have s2: "app_ok pr s2" "app_content s2 = app_content s1" "AssociatedActor s2 = AssociatedActor s1"
    "posted = None \<Longrightarrow> isIoOnline s2 = isIoOnline s1"
    using p a TryReceiveAsync_app [of pr recvOk s1 posted s2] by (auto split: if_splits)
  have su: "posted \<noteq> None \<longleftrightarrow> ok \<and> 0 < k \<and> fst (TryReceiveAsync pr recvOk s1) \<noteq> None"
    using p by (auto simp: go_def split: if_splits)
  have "inbox (actors n) (AssociatedActor s2) \<noteq> None" using box s2(3) by simp
  from deliver_spec [OF s2(1) a(2) _ this, of c] fit s2(2,3) obtain s3 where
    d: "deliver_messages pr c s2 (actors n) = Some (Inr (s3,
      push_each TryPushMessageTo (AssociatedActor s1) (cts_messages c (fst (frames (app_content s1)))) (actors n)))"
    "app_ok pr s3" "app_content s3 = snd (frames (app_content s1))" "AssociatedActor s3 = AssociatedActor s1"
    "isIoOnline s3 = isIoOnline s2" by auto
  have "receive_locked T pr recvOk c k n = Some (Inr (posted \<noteq> None, put_session c s3 (n\<lparr>actors :=
      push_each TryPushMessageTo (AssociatedActor s1) (cts_messages c (fst (frames (app_content s1)))) (actors n)\<rparr>)))"
    using s r p d(1) by (simp add: receive_locked_def live_session_def go_def)
  note L = this and B = dispatcher.push_each_inbox [OF box, of "cts_messages c (fst (frames (app_content s1)))"]
  have "\<not> posted \<noteq> None \<longrightarrow> isIoOnline s3 = isIoOnline s1" using d(5) s2(4) by (cases "posted = None") simp_all
  then show ?thesis unfolding su [symmetric] using L B d(2-4) by (intro exI conjI) (assumption | simp)+
qed


lemma live_session_eq: "live_session c n = Inr s \<longleftrightarrow> sessions n c = Some s"
  by (simp add: live_session_def split: option.split)

section \<open>Clean-ups\<close>

lemma close_erase:
  assumes "sessions n c = Some s" and "\<And>io. \<not> isIoOnline s io" and "inbox (actors n) (AssociatedActor s) = Some ms"
  shows "\<exists>n'. SessionCleanupRoutine False c n = Inr n' \<and> sessions n' = (sessions n)(c := None) \<and>
    inbox (actors n') = (inbox (actors n))(AssociatedActor s \<mapsto> ms @ [Msg_SessionDisconnected c]) \<and>
    actors n' = snd (TryPushMessageTo (AssociatedActor s) (Msg_SessionDisconnected c) (actors n))"
proof -
  let ?n1 = "put_session c (Cleanup s) n"
  have A: "AssociatedActor (Cleanup s) = AssociatedActor s" "isIoOnline (Cleanup s) = isIoOnline s"
    by (simp_all add: Cleanup_def)
  have c: "close_session c n = (True, ?n1)" using assms(1,2) A by (simp add: close_session_def Close_def Let_def)
  obtain pushed acts where t: "TryPushMessageTo (AssociatedActor s) (Msg_SessionDisconnected c) (actors n) = (pushed, acts)"
    by fastforce
  have p: "pushed" "inbox acts = (inbox (actors n))(AssociatedActor s \<mapsto> ms @ [Msg_SessionDisconnected c])"
    using dispatcher.push_known [OF assms(3), of "Msg_SessionDisconnected c"] t by simp_all
  have "erase_session c ?n1 = Inr (True, ?n1\<lparr>sessions := (sessions n)(c := None), actors := acts\<rparr>)"
    using A t p(1) by (simp add: erase_session_eq)
  then show ?thesis using c p(2) t by (simp add: SessionCleanupRoutine_def)
qed

lemma close_busy:
  assumes "sessions n c = Some s" and "isIoOnline s io"
  shows "SessionCleanupRoutine False c n = Inr (put_session c (Cleanup s) n)"
proof -
  have "\<not> fst (Close s)" using Close_flags [of s "fst (Close s)" "snd (Close s)"] assms(2) by auto
  moreover have "snd (Close s) = Cleanup s" by (simp add: Close_def Let_def)
  ultimately have "Close s = (False, Cleanup s)" by (metis prod.collapse)
  then show ?thesis using assms(1) by (simp add: SessionCleanupRoutine_def close_session_def)
qed

text \<open>A network with one session and one actor, for the witnesses.\<close>

definition demo_network :: "(null_state, nat) network" where
  "demo_network = put_session 7 (new_session demo_protocol null_start 7 ''Auth'')
     (new_network ''Auth'' [''Auth'' \<mapsto> \<lparr>Name = ''Auth'', pushIndex = 0, messageQueue = \<lambda>i. [],
        messageHandlers = \<lambda>i. None, derived = 0\<rparr>])"

lemma demo_network_facts:
  "sessions demo_network 7 = Some (new_session demo_protocol null_start 7 ''Auth'')"
  "inbox (actors demo_network) ''Auth'' = Some []"
  "\<not> isIoOnline (new_session demo_protocol null_start 7 ''Auth'') io"
  "AssociatedActor (new_session demo_protocol null_start 7 ''Auth'') = ''Auth''"
  "newContext demo_network = 0" "InitialAssociatedActor demo_network = ''Auth''"
  by (simp_all add: demo_network_def new_network_def inbox_def waiting_def new_session_def)

text \<open>The peer of this session has hung up after two messages and a part of a third.\<close>

definition hung_up :: "null_state session" where
  "hung_up = (new_session demo_protocol null_start 7 ''Auth'')
     \<lparr>ReceiveAppBuffer := [5, 6, 0, 9, 0, 0, 1, 0, 0, 0, 0, 2, 0, 3, 0, 2], receiveAppBufferHead := 12,
      receiveAppBufferTail := 7\<rparr>"

lemma hung_up_receive: "TryPostReceive null_tls demo_protocol 0 hung_up = Some (Inr (True, hung_up))"
proof -
  have "feed_bio null_tls 16 (ReceiveTlsBuffer hung_up) 0 0 0 (Some null_start) = Some (Inr (0, Some null_start))"
    by (subst feed_bio.simps) (simp add: Let_def)
  moreover have "read_app null_tls 16 4 7 0 (ReceiveAppBuffer hung_up) (Some null_start) =
      Some (Inr (ReceiveSuccess, 0, ReceiveAppBuffer hung_up, Some null_start))"
    by (subst read_app.simps) (simp add: Let_def ssl_read_at_def use_ssl_def null_tls_def null_start_def)
  moreover have "hung_up\<lparr>isIoOnline := (isIoOnline hung_up)(IoType_Receive := False), receiveTlsBufferTail := 0\<rparr> = hung_up"
    by (simp add: hung_up_def new_session_def fun_eq_iff)
  ultimately have "TryProcessReceiveBuffers null_tls demo_protocol hung_up = Some (Inr (ReceiveSuccess, hung_up))"
    by (simp add: TryProcessReceiveBuffers_def hung_up_def new_session_def BufferCapacity_def demo_protocol_def Let_def)
  then have "post_receive_loop null_tls demo_protocol hung_up = Some (Inr (True, hung_up))"
    by (subst post_receive_loop.simps) simp
  moreover have "(set_online IoType_Receive False hung_up)\<lparr>receiveTlsBufferTail := (receiveTlsBufferTail hung_up + 0) mod BufferCapacity demo_protocol\<rparr> = hung_up"
    by (simp add: set_online_def hung_up_def new_session_def fun_eq_iff)
  ultimately show ?thesis unfolding TryPostReceive_def by simp
qed

lemma hung_up_facts:
  "app_ok demo_protocol hung_up" "frames (app_content hung_up) = ([(3, [5, 6]), (9, [])], [1])"
  "TryPostReceive null_tls demo_protocol 0 hung_up = Some (Inr (True, hung_up))" "AssociatedActor hung_up = ''Auth''"
  "\<not> isIoOnline hung_up io"
proof -
  have c: "app_content hung_up = concat (map frame [(3, [5, 6]), (9, [])]) @ [1]"
    using demo_facts(4) by (simp add: demo_receiver_def hung_up_def app_content_def new_session_def)
  show "frames (app_content hung_up) = ([(3, [5, 6]), (9, [])], [1])"
    unfolding c by (rule frames_concat) auto
  show "app_ok demo_protocol hung_up"
    using demo_facts(2) by (simp add: demo_receiver_def hung_up_def app_ok_def new_session_def)
qed (rule hung_up_receive, simp_all add: hung_up_def new_session_def)

section \<open>Properties\<close>

text \<open>
  From a received block to the actor.  After \<open>TryPostReceive\<close>, \<open>PostReceive\<close> pushes every complete message of the
  application buffer, in order and with the context of the session, to the associated actor and to no other, and leaves the
  incomplete rest in the buffer.  If the receive has failed, or no byte came, or the next receive is not accepted, the session is
  closed; when nothing else is in flight it is erased and the actor hears so after the messages.
\<close>

theorem receive_delivers:
  assumes "sessions n c = Some s" and "TryPostReceive T pr k s = Some (Inr (ok, s1))"
    and "app_ok pr s1" and "protocol_ok pr"
    and "\<And>m. m \<in> set (fst (frames (app_content s1))) \<Longrightarrow> length (snd m) \<le> MessageMaxSize pr"
    and "inbox (actors n) (AssociatedActor s1) = Some ms"
  shows "\<exists>n'. PostReceive T pr recvOk c k n = Some (Inr n') \<and>
    (let again = ok \<and> 0 < k \<and> fst (TryReceiveAsync pr recvOk s1) \<noteq> None;
         erased = (\<not> again \<and> (\<forall>io. \<not> isIoOnline s1 io))
     in inbox (actors n') = (inbox (actors n))(AssociatedActor s1 \<mapsto>
          ms @ cts_messages c (fst (frames (app_content s1))) @ (if erased then [Msg_SessionDisconnected c] else [])) \<and>
        (if erased then sessions n' = (sessions n)(c := None)
         else \<exists>s'. sessions n' = (sessions n)(c \<mapsto> s') \<and> app_content s' = snd (frames (app_content s1)) \<and>
           (\<not> again \<longrightarrow> shouldClose s')))"
proof -
  define again where "again \<longleftrightarrow> ok \<and> 0 < k \<and> fst (TryReceiveAsync pr recvOk s1) \<noteq> None"
  let ?A = "AssociatedActor s1" and ?ms = "ms @ cts_messages c (fst (frames (app_content s1)))"
  obtain n1 s2 where r: "receive_locked T pr recvOk c k n = Some (Inr (again, n1))"
    "inbox (actors n1) = (inbox (actors n))(?A \<mapsto> ?ms)" "sessions n1 = (sessions n)(c \<mapsto> s2)"
    "app_content s2 = snd (frames (app_content s1))" "AssociatedActor s2 = ?A" "\<not> again \<longrightarrow> isIoOnline s2 = isIoOnline s1"
    using receive_locked_spec [OF assms, of recvOk] unfolding again_def by auto
  consider "again" | "\<not> again" "\<forall>io. \<not> isIoOnline s1 io" | io where "\<not> again" "isIoOnline s1 io" by blast
  then show ?thesis
  proof cases
    case 1
    then show ?thesis unfolding again_def [symmetric] Let_def using r(1-4) by (auto simp: PostReceive_def)
  next
    case 2
    have "inbox (actors n1) (AssociatedActor s2) = Some ?ms" using r(2,5) by simp
    then obtain n' where "SessionCleanupRoutine False c n1 = Inr n'" "sessions n' = (sessions n1)(c := None)"
      "inbox (actors n') = (inbox (actors n1))(?A \<mapsto> ?ms @ [Msg_SessionDisconnected c])"
      using close_erase [of n1 c s2] r(3,5,6) 2 by auto
    then show ?thesis unfolding again_def [symmetric] Let_def using 2 r(1-3)
      by (simp add: PostReceive_def fun_eq_iff)
  next
    case (3 io)
    have "app_content (Cleanup s2) = app_content s2" by (simp add: Cleanup_def app_content_def)
    moreover have "shouldClose (Cleanup s2)" by (simp add: Cleanup_def)
    moreover have "SessionCleanupRoutine False c n1 = Inr (put_session c (Cleanup s2) n1)"
      using close_busy [of n1 c s2 io] 3 r(3,6) by simp
    ultimately show ?thesis unfolding again_def [symmetric] Let_def using 3 r(1-4)
      by (auto simp: PostReceive_def intro: exI [of _ "Cleanup s2"])
  qed
qed

theorem receive_delivers_witness:
  "\<exists>n'. PostReceive null_tls demo_protocol True 7 0 (put_session 7 hung_up demo_network) = Some (Inr n') \<and>
     sessions n' 7 = None \<and>
     inbox (actors n') ''Auth'' = Some [Msg_Cts 7 3 2 [5, 6], Msg_Cts 7 9 0 [], Msg_SessionDisconnected 7]"
proof -
  let ?n = "put_session 7 hung_up demo_network"
  have "length (snd m) \<le> MessageMaxSize demo_protocol" if "m \<in> set (fst (frames (app_content hung_up)))" for m
    using that hung_up_facts(2) demo_facts(5) by auto
  from receive_delivers [where c = 7 and n = ?n, OF _ hung_up_facts(3,1) demo_facts(1) this, of "[]" True]
  obtain n' where "PostReceive null_tls demo_protocol True 7 0 ?n = Some (Inr n')" "sessions n' = (sessions ?n)(7 := None)"
    "inbox (actors n') = (inbox (actors ?n))(''Auth'' \<mapsto> cts_messages 7 [(3, [5, 6]), (9, [])] @ [Msg_SessionDisconnected 7])"
    using hung_up_facts(2,4,5) demo_network_facts(2) by auto
  then show ?thesis by (simp add: cts_messages_def)
qed

text \<open>
  A message sent to a client that is then disconnected.  \<open>SendMessageTo\<close> posts the request to send; \<open>DisconnectSession\<close> closes
  the session but cannot erase it; the request finds the session closed and cleans it up while it holds \<open>sessionsMutex_\<close>,
  which the clean-up locks again: the thread locks itself out.
\<close>

theorem disconnect_after_send_deadlocks:
  assumes "sessions n c = Some s" and "\<not> isIoOnline s IoType_InitiateSend" and "\<not> isIoOnline s IoType_Send"
    and "sizeof_MessageHeader \<le> sizeof_MessageHeaderSize pr"
  shows "\<exists>n1 n2. SendMessageTo pr True c ty body n = Inr n1 \<and> DisconnectSession c n1 = Inr n2 \<and>
    worker_round T pr (Done True IoType_InitiateSend c 0 b) n2 = Some (Inl SelfDeadlock)"
proof -
  define s1 where "s1 = set_online IoType_InitiateSend True (s\<lparr>sendAppQueue := sendAppQueue s @ [frame (ty, body)]\<rparr>)"
  have 1: "SendMessageTo pr True c ty body n = Inr (put_session c s1 n)"
    using assms by (simp add: SendMessageTo_def PushMessage_eq InitiateSend_def InitiateSendAsync_def s1_def)
  have "isIoOnline s1 IoType_InitiateSend" by (simp add: s1_def)
  then have 2: "DisconnectSession c (put_session c s1 n) = Inr (put_session c (Cleanup s1) (put_session c s1 n))"
    unfolding DisconnectSession_def by (intro close_busy) simp
  have "\<not> isIoOnline (PostInitiateSend (Cleanup s1)) IoType_Send" "shouldClose (PostInitiateSend (Cleanup s1))"
    using assms(3) by (simp_all add: s1_def PostInitiateSend_def Cleanup_def set_online_def)
  then have "TrySendAsync T pr b (PostInitiateSend (Cleanup s1)) = Some (Inr (False, None, PostInitiateSend (Cleanup s1)))"
    by (simp add: TrySendAsync_def)
  then have "worker_round T pr (Done True IoType_InitiateSend c 0 b) (put_session c (Cleanup s1) (put_session c s1 n)) = Some (Inl SelfDeadlock)"
    by (simp add: send_initiated_def initiated_locked_def live_session_def SessionCleanupRoutine_def)
  then show ?thesis using 1 2 by blast
qed

theorem disconnect_after_send_deadlocks_witness:
  "\<exists>n1 n2. SendMessageTo demo_protocol True 7 3 [1] demo_network = Inr n1 \<and> DisconnectSession 7 n1 = Inr n2 \<and>
     worker_round null_tls demo_protocol (Done True IoType_InitiateSend 7 0 True) n2 = Some (Inl SelfDeadlock)"
  by (rule disconnect_after_send_deadlocks [OF demo_network_facts(1)]) (simp_all add: demo_network_facts demo_facts)

text \<open>
  A message sent between the two halves of a clean-up.  \<open>Close\<close> has found nothing in flight, so the session will be
  erased; \<open>SendMessageTo\<close> still finds it in the map and posts a request to send, for \<open>InitiateSendAsync\<close> does not look at
  \<open>shouldClose\<close>.  The handler of this request uses the erased session.
\<close>

theorem send_during_cleanup:
  assumes "sessions n c = Some s" and "\<And>io. \<not> isIoOnline s io"
    and "inbox (actors n) (AssociatedActor s) = Some ms" and "sizeof_MessageHeader \<le> sizeof_MessageHeaderSize pr"
  shows "\<exists>n1 n2 n3. close_session c n = (True, n1) \<and> SendMessageTo pr True c ty body n1 = Inr n2 \<and>
    isIoOnline (the (sessions n2 c)) IoType_InitiateSend \<and> erase_session c n2 = Inr (True, n3) \<and>
    worker_round T pr (Done True IoType_InitiateSend c 0 b) n3 = Some (Inl UseAfterFree)"
proof -
  let ?n1 = "put_session c (Cleanup s) n"
  define s2 where "s2 = set_online IoType_InitiateSend True ((Cleanup s)\<lparr>sendAppQueue := sendAppQueue (Cleanup s) @ [frame (ty, body)]\<rparr>)"
  let ?n2 = "put_session c s2 ?n1"
  have 1: "close_session c n = (True, ?n1)"
    using assms(1,2) by (simp add: close_session_def Close_def Let_def Cleanup_def)
  have "\<not> isIoOnline (Cleanup s) IoType_InitiateSend" using assms(2) by (simp add: Cleanup_def)
  then have 2: "SendMessageTo pr True c ty body ?n1 = Inr ?n2"
    using assms(4) by (simp add: SendMessageTo_def PushMessage_eq InitiateSend_def InitiateSendAsync_def s2_def)
  have a: "AssociatedActor s2 = AssociatedActor s" "isIoOnline s2 IoType_InitiateSend"
    by (simp_all add: s2_def set_online_def Cleanup_def)
  obtain pushed acts where t: "TryPushMessageTo (AssociatedActor s) (Msg_SessionDisconnected c) (actors n) = (pushed, acts)"
    by fastforce
  have "pushed" using dispatcher.push_known [OF assms(3), of "Msg_SessionDisconnected c"] t by simp
  then have 3: "erase_session c ?n2 = Inr (True, ?n2\<lparr>sessions := (sessions n)(c := None), actors := acts\<rparr>)"
    using a t by (simp add: erase_session_eq)
  moreover have "worker_round T pr (Done True IoType_InitiateSend c 0 b) (?n2\<lparr>sessions := (sessions n)(c := None), actors := acts\<rparr>) =
      Some (Inl UseAfterFree)"
    by (simp add: send_initiated_def initiated_locked_def live_session_def)
  moreover have "isIoOnline (the (sessions ?n2 c)) IoType_InitiateSend" using a(2) by simp
  ultimately show ?thesis using 1 2 by blast
qed

theorem send_during_cleanup_witness:
  "\<exists>n1 n2 n3. close_session 7 demo_network = (True, n1) \<and> SendMessageTo demo_protocol True 7 3 [1] n1 = Inr n2 \<and>
     isIoOnline (the (sessions n2 7)) IoType_InitiateSend \<and> erase_session 7 n2 = Inr (True, n3) \<and>
     worker_round null_tls demo_protocol (Done True IoType_InitiateSend 7 0 True) n3 = Some (Inl UseAfterFree)"
  by (rule send_during_cleanup [OF demo_network_facts(1), of "[]"]) (simp_all add: demo_network_facts demo_facts)

end
