(* ===== verification/Net_Steps.thy ===== *)
theory Net_Steps
  imports Net_Server "HOL-Library.Multiset"
begin

text \<open>
  The sessions of \<open>NetworkServer\<close> and the mailboxes of the actors under any number of threads.  \<open>PostAccept\<close> and
  \<open>SessionCleanupRoutine\<close> are cut where they take and release \<open>sessionsMutex_\<close>; the handlers hold it shared, so that their
  parts interleave; the actors swap and work their queues meanwhile.
\<close>

section \<open>Steps\<close>

text \<open>
  The threads of \<open>PostAccept\<close> between \<open>fetch_add\<close> and \<open>try_emplace\<close> (\<open>entering\<close>, by context); those of \<open>SessionCleanupRoutine\<close>
  between \<open>Close\<close> and the exclusive lock (\<open>erasing\<close>), and after it, with the actor to tell (\<open>telling\<close>).  \<open>taken\<close> records what each
  actor has swapped out of its mailbox, and \<open>admitted\<close> counts the contexts given.
\<close>

record ('t, 'a) net_run =
  network :: "('t, 'a) network"
  entering :: "u32 multiset"
  erasing :: "u32 multiset"
  telling :: "(u32 \<times> string) multiset"
  taken :: "string \<Rightarrow> net_message list"
  admitted :: nat

definition new_run :: "string \<Rightarrow> (net_message, 'a) registry_of_actors \<Rightarrow> ('t, 'a) net_run" where
  "new_run initialAssociatedActor dispatcher =
     \<lparr>network = new_network initialAssociatedActor dispatcher, entering = {#}, erasing = {#}, telling = {#},
      taken = (\<lambda>nm. []), admitted = 0\<rparr>"

abbreviation set_actors :: "(net_message, 'a) registry_of_actors \<Rightarrow> ('t, 'a) net_run \<Rightarrow> ('t, 'a) net_run" where
  "set_actors acts r \<equiv> r\<lparr>network := (network r)\<lparr>actors := acts\<rparr>\<rparr>"

text \<open>
  \<open>part\<close> is a part of a method of a live session, by any thread: it leaves the associated actor alone.  \<open>delivers\<close> is one round of
  the loop of \<open>PostReceive\<close>.  \<open>answers\<close> is the end of a \<open>Close\<close> that answers true.  An actor \<open>swaps\<close>, and
  between its swaps \<open>works\<close> changes anything but the queue that is pushed to; actors are registered at any time.
\<close>

inductive net_step :: "session_protocol \<Rightarrow> ('t, 'a) net_run \<Rightarrow> ('t, 'a) net_run \<Rightarrow> bool" for pr where
  fetches: "take_context (network r) = (c, n) \<Longrightarrow>
    net_step pr r (r\<lparr>network := n, entering := add_mset c (entering r), admitted := Suc (admitted r)\<rparr>)"
| emplaces: "c \<in># entering r \<Longrightarrow> emplace_session pr ssl c (network r) = Inr n \<Longrightarrow>
    net_step pr r (r\<lparr>network := n, entering := entering r - {#c#}\<rparr>)"
| part: "sessions (network r) c = Some s \<Longrightarrow> AssociatedActor s' = AssociatedActor s \<Longrightarrow>
    net_step pr r (r\<lparr>network := put_session c s' (network r)\<rparr>)"
| delivers: "sessions (network r) c = Some s \<Longrightarrow>
    TryPushMessageTo (AssociatedActor s) (Msg_Cts c ty k body) (actors (network r)) = (True, acts) \<Longrightarrow>
    net_step pr r (set_actors acts r)"
| reassociates: "TryChangeAssociatedActor c old new (network r) = (ok, n) \<Longrightarrow> net_step pr r (r\<lparr>network := n\<rparr>)"
| associates: "net_step pr r (r\<lparr>network := ChangeAssociatedActor c new (network r)\<rparr>)"
| answers: "sessions (network r) c = Some s \<Longrightarrow> answer_close s \<Longrightarrow> net_step pr r (r\<lparr>erasing := add_mset c (erasing r)\<rparr>)"
| takes: "c \<in># erasing r \<Longrightarrow> take_session c (network r) = (actor, n) \<Longrightarrow>
    net_step pr r (r\<lparr>network := n, erasing := erasing r - {#c#},
      telling := (case actor of None \<Rightarrow> telling r | Some nm \<Rightarrow> add_mset (c, nm) (telling r))\<rparr>)"
| tells: "(c, nm) \<in># telling r \<Longrightarrow> tell_disconnected nm c (network r) = Inr n \<Longrightarrow>
    net_step pr r (r\<lparr>network := n, telling := telling r - {#(c, nm)#}\<rparr>)"
| swaps: "actors (network r) nm = Some a \<Longrightarrow>
    net_step pr r ((set_actors ((actors (network r))(nm \<mapsto> swap_queues a)) r)
      \<lparr>taken := (taken r)(nm := taken r nm @ (if read_queue a = [] then waiting a else []))\<rparr>)"
| works: "actors (network r) nm = Some a \<Longrightarrow> waiting a' = waiting a \<Longrightarrow> pushIndex a' = pushIndex a \<Longrightarrow>
    read_queue a' \<in> {read_queue a, []} \<Longrightarrow> net_step pr r (set_actors ((actors (network r))(nm \<mapsto> a')) r)"
| registers: "actors (network r) nm = None \<Longrightarrow> new_actor nm hs x = Inr a \<Longrightarrow>
    net_step pr r (set_actors ((actors (network r))(nm \<mapsto> a)) r)"

text \<open>All that has come into the mailbox of an actor, and the sessions it has been told about.\<close>

definition arrived :: "('t, 'a) net_run \<Rightarrow> string \<Rightarrow> net_message list" where
  "arrived r nm = taken r nm @ (case inbox (actors (network r)) nm of None \<Rightarrow> [] | Some ms \<Rightarrow> ms)"

fun notice :: "net_message \<Rightarrow> u32 list" where
  "notice (Msg_SessionDisconnected c) = [c]"
| "notice (Msg_Cts c ty k body) = []"

definition told :: "('t, 'a) net_run \<Rightarrow> string \<Rightarrow> u32 list" where
  "told r nm = concat (map notice (arrived r nm))"

section \<open>The functions are runs of these steps\<close>

definition runs_to :: "session_protocol \<Rightarrow> ('t, 'a) network \<Rightarrow> ('t, 'a) network \<Rightarrow> bool" where
  "runs_to pr n n' \<longleftrightarrow> (\<forall>r. network r = n \<longrightarrow> (\<exists>r'. (net_step pr)\<^sup>*\<^sup>* r r' \<and> network r' = n'))"

lemma runs_to_refl [simp]: "runs_to pr n n"
  by (auto simp: runs_to_def)

lemma runs_to_trans:
  assumes "runs_to pr n n'" and "runs_to pr n' n''"
  shows "runs_to pr n n''"
  unfolding runs_to_def
proof (intro allI impI)
  fix r :: "('a, 'b) net_run"
  assume "network r = n"
  then obtain r' r'' where "(net_step pr)\<^sup>*\<^sup>* r r'" "(net_step pr)\<^sup>*\<^sup>* r' r''" "network r'' = n''"
    using assms unfolding runs_to_def by blast
  then show "\<exists>r'. (net_step pr)\<^sup>*\<^sup>* r r' \<and> network r' = n''" using rtranclp_trans by fast
qed

lemma runs_to_step: "(\<And>r. network r = n \<Longrightarrow> \<exists>r'. net_step pr r r' \<and> network r' = n') \<Longrightarrow> runs_to pr n n'"
  unfolding runs_to_def by (blast intro: r_into_rtranclp)

lemma runs_part:
  assumes "sessions n c = Some s" and "AssociatedActor s' = AssociatedActor s"
  shows "runs_to pr n (put_session c s' n)"
proof (rule runs_to_step)
  fix r :: "('a, 'b) net_run"
  assume "network r = n"
  then show "\<exists>r'. net_step pr r r' \<and> network r' = put_session c s' n"
    using net_step.part [of r c s s' pr] assms by (intro exI [of _ "r\<lparr>network := put_session c s' n\<rparr>"]) simp
qed

lemma runs_deliver:
  assumes "sessions n c = Some s" and "TryPushMessageTo (AssociatedActor s) (Msg_Cts c ty k body) (actors n) = (True, acts)"
  shows "runs_to pr n (n\<lparr>actors := acts\<rparr>)"
proof (rule runs_to_step)
  fix r :: "('a, 'b) net_run"
  assume "network r = n"
  then show "\<exists>r'. net_step pr r r' \<and> network r' = n\<lparr>actors := acts\<rparr>"
    using net_step.delivers [of r c s ty k body acts pr] assms by (intro exI [of _ "set_actors acts r"]) simp
qed

lemma peek_body_actor: "peek_body pr s h = Inr (m, s') \<Longrightarrow> AssociatedActor s' = AssociatedActor s"
  by (auto simp: peek_body_def Let_def bindR_eq_Inr split: option.splits if_splits prod.splits)

lemma peek_actor: "PeekReceivedMessage pr s = Inr (m, s') \<Longrightarrow> AssociatedActor s' = AssociatedActor s"
  by (auto simp: PeekReceivedMessage_def bindR_eq_Inr dest: peek_body_actor split: option.splits)

lemma put_put [simp]:
  "put_session c s (put_session c t n) = put_session c s n"
  "put_session c s (n\<lparr>actors := acts\<rparr>) = (put_session c s n)\<lparr>actors := acts\<rparr>"
  by (simp_all add: put_session_def)

lemma runs_deliver_messages:
  fixes n :: "('t, 'a) network"
  assumes "deliver_messages pr c s (actors n) = Some (Inr (s', acts))"
    and "sessions n c = Some t" and "AssociatedActor s = AssociatedActor t"
  shows "runs_to pr n ((put_session c s' n)\<lparr>actors := acts\<rparr>)"
proof -
  let ?P = "\<lambda>pr' c' s acts v. pr' = pr \<and> c' = c \<longrightarrow> (\<forall>s' acts' (n :: ('t, 'a) network) t. v = Inr (s', acts') \<longrightarrow> actors n = acts \<longrightarrow>
    sessions n c = Some t \<longrightarrow> AssociatedActor s = AssociatedActor t \<longrightarrow> runs_to pr n ((put_session c s' n)\<lparr>actors := acts'\<rparr>))"
  have "?P pr c s acts v" if "deliver_messages pr c s acts = Some v" for s :: "'t session" and acts v
  proof (rule deliver_messages.raw_induct [where P = ?P, OF _ that], intro allI impI, elim conjE)
    fix loop :: "session_protocol \<Rightarrow> u32 \<Rightarrow> 't session \<Rightarrow> (net_message, 'a) registry_of_actors \<Rightarrow>
       ('t session \<times> (net_message, 'a) registry_of_actors) res option"
    fix pr' c' and v :: "('t session \<times> (net_message, 'a) registry_of_actors) res" and acts acts' :: "(net_message, 'a) registry_of_actors"
      and s s' t :: "'t session" and n :: "('t, 'a) network"
    assume IH: "\<And>pr c s acts v. loop pr c s acts = Some v \<Longrightarrow> ?P pr c s acts v"
      and v: "v = Inr (s', acts')" "actors n = acts" "sessions n c = Some t" "AssociatedActor s = AssociatedActor t"
      and eq: "pr' = pr" "c' = c"
    assume "(case PeekReceivedMessage pr' s of
        Inl e \<Rightarrow> Some (Inl e)
      | Inr (None, s') \<Rightarrow> Some (Inr (s', acts))
      | Inr (Some (messageType, bodyLen, body), s') \<Rightarrow>
          bindO (Some (crash_cond (\<not> fst (TryPushMessageTo (AssociatedActor s') (Msg_Cts c' messageType bodyLen body) acts)))) (\<lambda>u.
          loop pr' c' (PopReceivedMessage pr' (MessageHeaderSize pr' + unat bodyLen) s')
            (snd (TryPushMessageTo (AssociatedActor s') (Msg_Cts c' messageType bodyLen body) acts)))) = Some v"
    note body = this [unfolded eq]
    then obtain m s1 where p: "PeekReceivedMessage pr s = Inr (m, s1)" using v(1) by (auto split: sum.splits)
    have a1: "AssociatedActor s1 = AssociatedActor t" using peek_actor [OF p] v(4) by simp
    show "runs_to pr n ((put_session c s' n)\<lparr>actors := acts'\<rparr>)"
    proof (cases m)
      case None
      then have "s' = s1" "acts' = actors n" using body p v(1,2) by auto
      then show ?thesis using runs_part [OF v(3) a1, of pr] by (simp add: put_session_def)
    next
      case (Some f)
      obtain ty k b where f: "f = (ty, k, b)" by (cases f)
      let ?push = "TryPushMessageTo (AssociatedActor s1) (Msg_Cts c ty k b) acts"
      let ?s2 = "PopReceivedMessage pr (MessageHeaderSize pr + unat k) s1"
      have ok: "fst ?push" and l: "loop pr c ?s2 (snd ?push) = Some v"
        using body p Some f v(1) by (auto simp: crash_cond_def split: if_splits)
      have 1: "runs_to pr n (n\<lparr>actors := snd ?push\<rparr>)"
        using runs_deliver [OF v(3), of ty k b "snd ?push" pr] ok v(2) a1 by (simp add: prod_eq_iff)
      have "AssociatedActor ?s2 = AssociatedActor t" using a1 by (simp add: PopReceivedMessage_def)
      then have "runs_to pr (n\<lparr>actors := snd ?push\<rparr>) ((put_session c s' (n\<lparr>actors := snd ?push\<rparr>))\<lparr>actors := acts'\<rparr>)"
        using IH [OF l, rule_format, of s' acts' "n\<lparr>actors := snd ?push\<rparr>" t] v(1,3) by simp
      then show ?thesis using runs_to_trans [OF 1] by simp
    qed
  qed
  then show ?thesis using assms by blast
qed

lemma receive_actor: "TryReceiveAsync pr b s = (posted, s') \<Longrightarrow> AssociatedActor s' = AssociatedActor s"
  by (auto simp: TryReceiveAsync_def Let_def set_online_def split: if_splits)

lemma post_receive_actor: "TryPostReceive T pr k s = Some (Inr (ok, s')) \<Longrightarrow> AssociatedActor s' = AssociatedActor s"
  unfolding TryPostReceive_def by (drule post_receive_loop_flags) (simp add: same_flags_def)

lemma send_actor:
  assumes "TrySendAsync T pr b s = Some (Inr (ok, posted, s'))"
  shows "AssociatedActor s' = AssociatedActor s"
proof -
  have "AssociatedActor s2 = AssociatedActor s" if "send_loop T pr (set_online IoType_Send True s) = Some (Inr (ok2, s2))" for ok2 s2
    using send_loop_flags [OF that] by (simp add: same_flags_def)
  then show ?thesis using assms
    by (auto simp: TrySendAsync_def Let_def bindO_eq_Some split: if_splits)
qed

lemma runs_receive_locked:
  assumes "receive_locked T pr b c k n = Some (Inr (ok, n'))"
  shows "runs_to pr n n'"
proof -
  obtain s ok1 s1 where s: "sessions n c = Some s" "TryPostReceive T pr k s = Some (Inr (ok1, s1))"
    using assms by (auto simp: receive_locked_def bindO_eq_Some live_session_eq)
  obtain posted s2 where p: "(if ok1 \<and> 0 < k then TryReceiveAsync pr b s1 else (None, s1)) = (posted, s2)" by fastforce
  obtain s3 acts where d: "deliver_messages pr c s2 (actors n) = Some (Inr (s3, acts))"
    "n' = put_session c s3 (n\<lparr>actors := acts\<rparr>)"
    using assms s p by (auto simp: receive_locked_def bindO_eq_Some live_session_eq split: prod.splits)
  have "AssociatedActor s2 = AssociatedActor s"
    using post_receive_actor [OF s(2)] p receive_actor [of pr b s1 posted s2] by (auto split: if_splits)
  then show ?thesis using runs_deliver_messages [OF d(1) s(1)] d(2) by simp
qed

lemma runs_send_locked:
  assumes "send_locked T pr b c k n = Some (Inr (ok, n'))"
  shows "runs_to pr n n'"
proof -
  obtain s where s: "sessions n c = Some s"
    using assms by (auto simp: send_locked_def bindO_eq_Some live_session_eq)
  have "AssociatedActor (snd (TryPostSend pr k s)) = AssociatedActor s" by (simp add: TryPostSend_def)
  moreover obtain posted s' where "TrySendAsync T pr b (snd (TryPostSend pr k s)) = Some (Inr (ok, posted, s'))" "n' = put_session c s' n"
    using assms s by (auto simp: send_locked_def bindO_eq_Some live_session_eq TryPostSend_def)
  ultimately show ?thesis using runs_part [OF s] send_actor by metis
qed

lemma runs_initiated_locked:
  assumes "initiated_locked T pr b c n = Some (Inr (ok, n'))"
  shows "runs_to pr n n'"
proof -
  obtain s posted s' where s: "sessions n c = Some s" "TrySendAsync T pr b (PostInitiateSend s) = Some (Inr (ok, posted, s'))"
    "n' = put_session c s' n"
    using assms by (auto simp: initiated_locked_def bindO_eq_Some live_session_eq)
  then show ?thesis using runs_part [OF s(1), of s' pr] send_actor [OF s(2)] by (simp add: PostInitiateSend_def)
qed

lemma runs_erase:
  assumes "sessions n c = Some s" and "answer_close s" and "erase_session c n = Inr (f, n')"
  shows "runs_to pr n n'"
  unfolding runs_to_def
proof (intro allI impI)
  fix r :: "('a, 'b) net_run"
  assume r: "network r = n"
  define r1 where "r1 = r\<lparr>erasing := add_mset c (erasing r)\<rparr>"
  define n1 where "n1 = n\<lparr>sessions := (sessions n)(c := None)\<rparr>"
  define r2 where "r2 = r1\<lparr>network := n1, erasing := erasing r1 - {#c#}, telling := add_mset (c, AssociatedActor s) (telling r1)\<rparr>"
  define r3 where "r3 = r2\<lparr>network := n', telling := telling r2 - {#(c, AssociatedActor s)#}\<rparr>"
  have t: "take_session c n = (Some (AssociatedActor s), n1)" using assms(1) by (simp add: take_session_def n1_def)
  have "tell_disconnected (AssociatedActor s) c n1 = Inr n'" using assms(3) t by (auto simp: erase_session_def bindR_eq_Inr)
  then have "net_step pr r2 r3" unfolding r3_def by (intro net_step.tells) (simp_all add: r2_def)
  moreover have "net_step pr r1 r2"
    using net_step.takes [of c r1 "Some (AssociatedActor s)" n1 pr] t r by (simp add: r1_def r2_def)
  moreover have "net_step pr r r1" unfolding r1_def using assms(1,2) r by (intro net_step.answers) simp_all
  ultimately have "(net_step pr)\<^sup>*\<^sup>* r r3" by (meson converse_rtranclp_into_rtranclp r_into_rtranclp)
  moreover have "network r3 = n'" by (simp add: r3_def)
  ultimately show "\<exists>r'. (net_step pr)\<^sup>*\<^sup>* r r' \<and> network r' = n'" by blast
qed

lemma runs_cleanup:
  assumes "SessionCleanupRoutine locked c n = Inr n'"
  shows "runs_to pr n n'"
proof (cases "sessions n c")
  case None
  then have "n' = n" using assms by (auto simp: SessionCleanupRoutine_def close_session_def split: if_splits)
  then show ?thesis by simp
next
  case (Some s)
  let ?n1 = "put_session c (Cleanup s) n"
  have 1: "runs_to pr n ?n1" by (rule runs_part [OF Some]) (simp add: Cleanup_def)
  have c: "close_session c n = (answer_close (Cleanup s), ?n1)" using Some by (simp add: close_session_def Close_def Let_def)
  show ?thesis
  proof (cases "answer_close (Cleanup s)")
    case False
    then have "n' = ?n1" using assms c by (auto simp: SessionCleanupRoutine_def split: if_splits)
    then show ?thesis using 1 by simp
  next
    case True
    then obtain f where "erase_session c ?n1 = Inr (f, n')"
      using assms c by (auto simp: SessionCleanupRoutine_def bindR_eq_Inr split: if_splits)
    then have "runs_to pr ?n1 n'" using runs_erase [of ?n1 c "Cleanup s" f n' pr] True by simp
    then show ?thesis by (rule runs_to_trans [OF 1])
  qed
qed

lemma runs_enter:
  assumes "take_context n = (c, n1)" and "emplace_session pr ssl c n1 = Inr n2"
  shows "runs_to pr n n2"
  unfolding runs_to_def
proof (intro allI impI)
  fix r :: "('a, 'b) net_run"
  assume r: "network r = n"
  define r1 where "r1 = r\<lparr>network := n1, entering := add_mset c (entering r), admitted := Suc (admitted r)\<rparr>"
  define r2 where "r2 = r1\<lparr>network := n2, entering := entering r1 - {#c#}\<rparr>"
  have "net_step pr r r1" unfolding r1_def using assms(1) r by (intro net_step.fetches) simp
  moreover have "net_step pr r1 r2" unfolding r2_def using assms(2) by (intro net_step.emplaces) (simp_all add: r1_def)
  ultimately have "(net_step pr)\<^sup>*\<^sup>* r r2" by (meson converse_rtranclp_into_rtranclp r_into_rtranclp)
  moreover have "network r2 = n2" by (simp add: r2_def)
  ultimately show "\<exists>r'. (net_step pr)\<^sup>*\<^sup>* r r' \<and> network r' = n2" by blast
qed

lemma runs_accept:
  assumes "accept_session pr env b n = Inr (got, n')"
  shows "runs_to pr n n'"
proof (cases "got = None")
  case True
  then have "n' = n" using assms
    by (auto simp: accept_session_def bindR_eq_Inr Let_def split: option.splits if_splits prod.splits)
  then show ?thesis by simp
next
  case False
  then obtain ssl c n1 n2 rcv where "take_context n = (c, n1)" "emplace_session pr ssl c n1 = Inr n2"
    "first_receive pr b c n2 = Inr (rcv, n')"
    using assms by (fastforce simp: accept_session_def bindR_eq_Inr Let_def split: option.splits if_splits prod.splits)
  note A = this
  obtain s where s: "sessions n2 c = Some s" "n' = put_session c (snd (TryReceiveAsync pr b s)) n2"
    using A(3) by (auto simp: first_receive_def bindR_eq_Inr live_session_eq split_beta)
  have "AssociatedActor (snd (TryReceiveAsync pr b s)) = AssociatedActor s" by (rule receive_actor [OF prod.collapse [symmetric]])
  then have "runs_to pr n2 n'" using runs_part [OF s(1)] s(2) by simp
  then show ?thesis by (rule runs_to_trans [OF runs_enter [OF A(1,2)]])
qed

lemma runs_failed:
  assumes "io_failed io c n = Inr n'"
  shows "runs_to pr n n'"
proof -
  obtain s where s: "sessions n c = Some s"
    "SessionCleanupRoutine False c (put_session c (PostIoFailed io s) n) = Inr n'"
    using assms by (auto simp: io_failed_def bindR_eq_Inr live_session_eq)
  have "runs_to pr n (put_session c (PostIoFailed io s) n)" by (rule runs_part [OF s(1)]) (simp add: PostIoFailed_def)
  then show ?thesis using runs_cleanup [OF s(2)] runs_to_trans by blast
qed

text \<open>Every round of a worker thread is a run of the steps, and so are the calls of the actors.\<close>

lemma round_runs:
  assumes "worker_round T pr cm n = Some (Inr (go, n'))"
  shows "runs_to pr n n'"
proof (cases cm)
  case (Stop reposted)
  then show ?thesis using assms by (auto simp: bindR_eq_Inr)
next
  case (Accepted success env b sock post)
  then obtain n1 where n1: "(if success then PostAccept pr env b n else Inr n) = Inr n1" "n' = n1"
    using assms by (auto simp: bindR_eq_Inr)
  show ?thesis
  proof (cases success)
    case True
    then obtain got n2 where a: "accept_session pr env b n = Inr (got, n2)"
      using n1(1) by (cases "accept_session pr env b n") (auto simp: PostAccept_def)
    then have "(case got of Some (c, False) \<Rightarrow> SessionCleanupRoutine False c n2 | _ \<Rightarrow> Inr n2) = Inr n1"
      using n1(1) True by (simp add: PostAccept_def)
    then have "n2 = n1 \<or> (\<exists>c. SessionCleanupRoutine False c n2 = Inr n1)"
      by (cases got) (auto split: bool.splits)
    then show ?thesis using runs_accept [OF a] n1(2) runs_cleanup runs_to_trans by blast
  qed (use n1 in simp)
next
  case (Done success io c k b)
  show ?thesis
  proof (cases success)
    case False
    then show ?thesis using assms Done by (auto simp: bindO_eq_Some intro: runs_failed)
  next
    case True
    have "\<exists>n1. runs_to pr n n1 \<and> (n' = n1 \<or> (\<exists>l. SessionCleanupRoutine l c n1 = Inr n'))"
      using assms Done True
      by (cases io) (auto simp: PostSend_def PostReceive_def send_initiated_def bindO_eq_Some split: if_splits
          dest: runs_send_locked [where pr = pr] runs_receive_locked [where pr = pr] runs_initiated_locked [where pr = pr])
    then show ?thesis using runs_cleanup runs_to_trans by blast
  qed
qed

lemma calls_run:
  "SendMessageTo pr b c ty body n = Inr n' \<Longrightarrow> runs_to pr n n'"
  "DisconnectSession c n = Inr n' \<Longrightarrow> runs_to pr n n'"
proof -
  show "runs_to pr n n'" if "DisconnectSession c n = Inr n'" using that unfolding DisconnectSession_def by (rule runs_cleanup)
  show "runs_to pr n n'" if m: "SendMessageTo pr b c ty body n = Inr n'"
  proof (cases "sessions n c")
    case (Some s)
    then obtain s1 s2 where "PushMessage pr ty body s = Inr s1" "InitiateSend b s1 = Inr s2" "n' = put_session c s2 n"
      using m by (auto simp: SendMessageTo_def bindR_eq_Inr)
    moreover from this have "AssociatedActor s2 = AssociatedActor s"
      by (auto simp: PushMessage_def InitiateSend_def InitiateSendAsync_def set_online_def bindR_eq_Inr split: if_splits)
    ultimately show ?thesis using runs_part [OF Some, of s2 pr] by simp
  qed (use m in \<open>simp add: SendMessageTo_def\<close>)
qed

section \<open>Where each session is\<close>

text \<open>No message of a client comes into a mailbox after the notice that its session is gone.\<close>

definition notices_last :: "net_message list \<Rightarrow> bool" where
  "notices_last ms \<longleftrightarrow> (\<forall>xs c ys. ms = xs @ Msg_SessionDisconnected c # ys \<longrightarrow> (\<forall>ty k body. Msg_Cts c ty k body \<notin> set ys))"

lemma notices_last_snoc:
  assumes "notices_last ms" and "\<And>c ty k body. m = Msg_Cts c ty k body \<Longrightarrow> Msg_SessionDisconnected c \<notin> set ms"
  shows "notices_last (ms @ [m])"
  unfolding notices_last_def
proof (intro allI impI)
  fix xs c ys ty k body
  assume e: "ms @ [m] = xs @ Msg_SessionDisconnected c # ys"
  show "Msg_Cts c ty k body \<notin> set ys"
  proof (cases ys rule: rev_cases)
    case (snoc zs y)
    then have "ms = xs @ Msg_SessionDisconnected c # zs" "m = y" using e by (simp_all add: append_eq_append_conv2)
    then show ?thesis using assms snoc unfolding notices_last_def by auto
  qed simp
qed

text \<open>In how many places a context is, if \<open>to\<close> gives the actors that have been told.\<close>

definition places :: "('t, 'a) net_run \<Rightarrow> (u32 \<Rightarrow> string option) \<Rightarrow> u32 \<Rightarrow> nat" where
  "places r to c = count (entering r) c + of_bool (sessions (network r) c \<noteq> None) +
     count (image_mset fst (telling r)) c + of_bool (to c \<noteq> None)"

definition told_once :: "('t, 'a) net_run \<Rightarrow> (u32 \<Rightarrow> string option) \<Rightarrow> bool" where
  "told_once r to \<longleftrightarrow> (\<forall>nm c. count_list (told r nm) c = of_bool (to c = Some nm)) \<and>
     (\<forall>c. places r to c = of_bool (c \<in> of_nat ` {..<admitted r}))"

definition net_ok :: "('t, 'a) net_run \<Rightarrow> bool" where
  "net_ok r \<longleftrightarrow> newContext (network r) = of_nat (admitted r) \<and>
     (admitted r \<le> 2 ^ 32 \<longrightarrow> (\<exists>to. told_once r to) \<and> (\<forall>nm. notices_last (arrived r nm)))"

lemma fresh_context:
  assumes "k < 2 ^ 32"
  shows "(of_nat k :: u32) \<notin> of_nat ` {..<k}"
proof
  assume "(of_nat k :: u32) \<in> of_nat ` {..<k}"
  then obtain i where i: "i < k" "(of_nat k :: u32) = of_nat i" by auto
  have "unat (of_nat k :: u32) = k" "unat (of_nat i :: u32) = i"
    using assms i(1) by (simp_all add: unsigned_of_nat take_bit_nat_eq_self)
  then show False using i by simp
qed

lemma arrived_push:
  assumes "TryPushMessageTo nm m (actors (network r)) = (True, acts)" and "taken r' = taken r" and "actors (network r') = acts"
  shows "arrived r' = (arrived r)(nm := arrived r nm @ [m])"
proof -
  have t: "fst (TryPushMessageTo nm m (actors (network r)))" "snd (TryPushMessageTo nm m (actors (network r))) = acts"
    using assms(1) by simp_all
  then obtain ms where ms: "inbox (actors (network r)) nm = Some ms" unfolding dispatcher.push_iff by blast
  then have "inbox acts = (inbox (actors (network r)))(nm \<mapsto> ms @ [m])" using dispatcher.push_known [OF ms, of m] t by simp
  then show ?thesis using ms assms(2,3) by (intro ext) (simp add: arrived_def)
qed

lemma arrived_same: "taken r' = taken r \<Longrightarrow> actors (network r') = actors (network r) \<Longrightarrow> arrived r' = arrived r"
  by (intro ext) (simp add: arrived_def)

lemma arrived_actor:
  assumes "taken r' = (taken r)(nm := ts)" and "actors (network r') = (actors (network r))(nm \<mapsto> a')" and "ts @ waiting a' = arrived r nm"
  shows "arrived r' = arrived r"
  using assms by (auto simp: arrived_def inbox_def fun_eq_iff)

text \<open>Steps that move no session.\<close>

lemma net_ok_same:
  assumes "net_ok r" and "newContext (network r') = newContext (network r)" and "dom (sessions (network r')) = dom (sessions (network r))"
    and "entering r' = entering r" and "telling r' = telling r" and "admitted r' = admitted r" and "arrived r' = arrived r"
  shows "net_ok r'"
proof -
  have "sessions (network r') c \<noteq> None \<longleftrightarrow> sessions (network r) c \<noteq> None" for c using assms(3) by blast
  then have "places r' to c = places r to c" for to c using assms(4,5) by (simp add: places_def)
  then have "told_once r' = told_once r" using assms(6,7) by (intro ext) (simp add: told_once_def told_def)
  then show ?thesis using assms unfolding net_ok_def by simp
qed

lemma fetch_ok:
  assumes "net_ok r" and "take_context (network r) = (c, n)"
  shows "net_ok (r\<lparr>network := n, entering := add_mset c (entering r), admitted := Suc (admitted r)\<rparr>)" (is "net_ok ?r")
proof -
  have c: "c = of_nat (admitted r)" "newContext n = of_nat (Suc (admitted r))" "sessions n = sessions (network r)"
    "actors n = actors (network r)"
    using assms by (auto simp: take_context_def net_ok_def add.commute)
  have a: "arrived ?r = arrived r" using c(4) by (intro arrived_same) simp_all
  have "\<exists>to. told_once ?r to" if k: "Suc (admitted r) \<le> 2 ^ 32"
  proof -
    obtain to where to: "told_once r to" using assms(1) k unfolding net_ok_def by auto
    have "c \<notin> of_nat ` {..<admitted r}" using fresh_context k c(1) by simp
    moreover have "places ?r to c' = places r to c' + of_bool (c' = c)" for c' using c(3) by (simp add: places_def)
    ultimately have "places ?r to c' = of_bool (c' \<in> of_nat ` {..<Suc (admitted r)})" for c'
      using to unfolding told_once_def lessThan_Suc image_insert c(1) [symmetric] by (cases "c' = c") simp_all
    then show ?thesis using to a by (auto simp: told_once_def told_def)
  qed
  then show ?thesis using assms(1) a c(2) unfolding net_ok_def by auto
qed

text \<open>Steps that move a session from one place to the next.\<close>

lemma net_ok_move:
  assumes "net_ok r" and "newContext (network r') = newContext (network r)" and "admitted r' = admitted r"
    and "\<And>to c. told_once r to \<Longrightarrow> places r' to c = places r to c" and "arrived r' = arrived r"
  shows "net_ok r'"
proof -
  have "told_once r' to" if "told_once r to" for to
    using assms(3,5) assms(4) [OF that] that by (simp add: told_once_def told_def)
  then show ?thesis using assms unfolding net_ok_def by (metis (no_types, lifting))
qed

lemma emplace_ok:
  assumes "net_ok r" and "c \<in># entering r" and "emplace_session pr ssl c (network r) = Inr n"
  shows "net_ok (r\<lparr>network := n, entering := entering r - {#c#}\<rparr>)"
proof -
  have n: "sessions (network r) c = None" "dom (sessions n) = insert c (dom (sessions (network r)))" "newContext n = newContext (network r)"
    "actors n = actors (network r)"
    using assms(3) by (auto simp: emplace_session_def bindR_eq_Inr crash_cond_eq_Inr)
  have "sessions n c' \<noteq> None \<longleftrightarrow> c' = c \<or> sessions (network r) c' \<noteq> None" for c' using n(2) by blast
  moreover have "0 < count (entering r) c" using assms(2) by simp
  ultimately show ?thesis using n(1,3,4)
    by (intro net_ok_move [OF assms(1)] arrived_same) (auto simp: places_def)
qed

lemma take_ok:
  assumes "net_ok r" and "take_session c (network r) = (actor, n)"
  shows "net_ok (r\<lparr>network := n, erasing := e,
    telling := (case actor of None \<Rightarrow> telling r | Some nm \<Rightarrow> add_mset (c, nm) (telling r))\<rparr>)"
proof (cases "sessions (network r) c")
  case None
  then show ?thesis using assms(2)
    by (intro net_ok_move [OF assms(1)] arrived_same) (auto simp: take_session_def places_def)
next
  case (Some s)
  then have "actor = Some (AssociatedActor s)" "n = (network r)\<lparr>sessions := (sessions (network r))(c := None)\<rparr>"
    using assms(2) by (simp_all add: take_session_def)
  then show ?thesis using Some
    by (intro net_ok_move [OF assms(1)] arrived_same) (auto simp: places_def)
qed

lemma tell_ok:
  assumes "net_ok r" and "(c, nm) \<in># telling r" and "tell_disconnected nm c (network r) = Inr n"
  shows "net_ok (r\<lparr>network := n, telling := telling r - {#(c, nm)#}\<rparr>)" (is "net_ok ?r")
proof -
  obtain acts where p: "TryPushMessageTo nm (Msg_SessionDisconnected c) (actors (network r)) = (True, acts)"
    "n = (network r)\<lparr>actors := acts\<rparr>"
    using assms(3) by (auto simp: tell_disconnected_def bindR_eq_Inr crash_cond_eq_Inr Let_def split: prod.splits)
  have a: "arrived ?r = (arrived r)(nm := arrived r nm @ [Msg_SessionDisconnected c])"
    using p by (intro arrived_push) simp_all
  have told: "told ?r x = told r x @ (if x = nm then [c] else [])" for x by (simp add: told_def a)
  have n: "sessions n = sessions (network r)" "newContext n = newContext (network r)" using p(2) by simp_all
  have t: "image_mset fst (telling r) = add_mset c (image_mset fst (telling r - {#(c, nm)#}))"
    using assms(2) by (metis fst_conv image_mset_add_mset insert_DiffM)
  have "\<exists>to. told_once ?r to" if "told_once r to" for to
  proof -
    have "places r to c \<le> 1" using that by (simp add: told_once_def)
    then have free: "to c = None" unfolding places_def t by (auto split: if_splits)
    have P: "places ?r (to(c \<mapsto> nm)) c' = places r to c'" for c'
      using free n(1) by (auto simp: places_def t)
    have C: "count_list (told ?r x) c' = of_bool ((to(c \<mapsto> nm)) c' = Some x)" for x c'
    proof -
      have "count_list (told r x) c' = of_bool (to c' = Some x)" using that by (simp add: told_once_def)
      then show ?thesis using free unfolding told by (cases "c' = c") simp_all
    qed
    have "told_once ?r (to(c \<mapsto> nm))"
      unfolding told_once_def P using C that by (simp add: told_once_def del: fun_upd_apply)
    then show ?thesis by blast
  qed
  moreover have "notices_last (arrived ?r x)" if "\<And>x. notices_last (arrived r x)" for x
    using that notices_last_snoc [of "arrived r nm" "Msg_SessionDisconnected c"] by (simp add: a)
  ultimately show ?thesis using assms(1) n(2) unfolding net_ok_def by auto
qed

lemma deliver_ok:
  assumes "net_ok r" and "sessions (network r) c = Some s"
    and "TryPushMessageTo nm (Msg_Cts c ty k body) (actors (network r)) = (True, acts)"
  shows "net_ok (set_actors acts r)" (is "net_ok ?r")
proof -
  have a: "arrived ?r = (arrived r)(nm := arrived r nm @ [Msg_Cts c ty k body])" using assms(3) by (intro arrived_push) simp_all
  have told: "told ?r x = told r x" for x by (simp add: told_def a)
  have once: "told_once ?r = told_once r" by (intro ext) (simp add: told_once_def told places_def)
  have "Msg_SessionDisconnected c \<notin> set (arrived r nm)" if "told_once r to" for to
  proof
    assume "Msg_SessionDisconnected c \<in> set (arrived r nm)"
    then have "c \<in> set (told r nm)" by (force simp: told_def)
    then have "count_list (told r nm) c \<noteq> 0" by (simp add: count_list_0_iff)
    moreover have "count_list (told r nm) c = of_bool (to c = Some nm)" using that by (simp add: told_once_def)
    ultimately have "to c = Some nm" by (simp split: if_splits)
    moreover have "places r to c \<le> 1" using that by (simp add: told_once_def)
    ultimately show False using assms(2) by (simp add: places_def)
  qed
  then have "notices_last (arrived ?r x)" if "told_once r to" "\<And>x. notices_last (arrived r x)" for x to
    using that notices_last_snoc [of "arrived r nm" "Msg_Cts c ty k body"] by (auto simp: a)
  then show ?thesis using assms(1) once unfolding net_ok_def by auto
qed

lemma change_sessions:
  "TryChangeAssociatedActor c old new n = (ok, n') \<Longrightarrow>
     newContext n' = newContext n \<and> dom (sessions n') = dom (sessions n) \<and> actors n' = actors n"
  "newContext (ChangeAssociatedActor c new n) = newContext n"
  "dom (sessions (ChangeAssociatedActor c new n)) = dom (sessions n)"
  "actors (ChangeAssociatedActor c new n) = actors n"
  by (auto simp: TryChangeAssociatedActor_def ChangeAssociatedActor_def split: option.splits if_splits)

lemma net_step_ok:
  assumes "net_step pr r r'" and "net_ok r"
  shows "net_ok r'"
  using assms(1)
proof cases
  case (fetches c n)
  then show ?thesis using fetch_ok [OF assms(2)] by simp
next
  case (emplaces c ssl n)
  then show ?thesis using emplace_ok [OF assms(2)] by simp
next
  case (part c s s')
  then show ?thesis by (intro net_ok_same [OF assms(2)] arrived_same) auto
next
  case (delivers c s ty k body acts)
  show ?thesis unfolding delivers(1) by (rule deliver_ok [OF assms(2) delivers(2,3)])
next
  case (reassociates c old new ok n)
  then show ?thesis using change_sessions(1) [OF reassociates(2)] by (intro net_ok_same [OF assms(2)] arrived_same) simp_all
next
  case (associates c new)
  then show ?thesis by (intro net_ok_same [OF assms(2)] arrived_same) (simp_all add: change_sessions)
next
  case (answers c s)
  then show ?thesis by (intro net_ok_same [OF assms(2)] arrived_same) simp_all
next
  case (takes c actor n)
  then show ?thesis using take_ok [OF assms(2)] by simp
next
  case (tells c nm n)
  show ?thesis unfolding tells(1) by (rule tell_ok [OF assms(2) tells(2,3)])
next
  case (swaps nm a)
  have "arrived r nm = taken r nm @ waiting a" using swaps(2) by (simp add: arrived_def inbox_def)
  moreover have "waiting (swap_queues a) = (if read_queue a = [] then [] else waiting a)"
    by (simp add: swap_queues_def waiting_def read_queue_def)
  ultimately have "arrived r' = arrived r" unfolding swaps(1)
    by (intro arrived_actor [where nm = nm and ts = "taken r nm @ (if read_queue a = [] then waiting a else [])" and a' = "swap_queues a"])
      simp_all
  then show ?thesis unfolding swaps(1) by (intro net_ok_same [OF assms(2)]) simp_all
next
  case (works nm a a')
  have "arrived r nm = taken r nm @ waiting a" using works(2) by (simp add: arrived_def inbox_def)
  then have "arrived r' = arrived r" using works(3) unfolding works(1)
    by (intro arrived_actor [where nm = nm and ts = "taken r nm" and a' = a']) simp_all
  then show ?thesis unfolding works(1) by (intro net_ok_same [OF assms(2)]) simp_all
next
  case (registers nm hs x a)
  have "waiting a = []" using registers(3)
    by (auto simp: new_actor_def waiting_def dest: RegisterHandlers_mailbox)
  moreover have "arrived r nm = taken r nm" using registers(2) by (simp add: arrived_def inbox_def)
  ultimately have "arrived r' = arrived r" unfolding registers(1)
    by (intro arrived_actor [where nm = nm and ts = "taken r nm" and a' = a]) simp_all
  then show ?thesis unfolding registers(1) by (intro net_ok_same [OF assms(2)]) simp_all
qed

interpretation net: step_system "net_step pr" net_ok for pr
  by unfold_locales (rule net_step_ok)

lemma new_run_ok: "net_ok (new_run nm Map.empty)"
  by (auto simp: net_ok_def told_once_def told_def arrived_def inbox_def places_def notices_last_def new_run_def new_network_def
      intro: exI [of _ Map.empty])

section \<open>Properties\<close>

text \<open>
  C10. Sessions are neither lost nor told twice.  Whatever the threads do, in any order, up to $2^{32}$ accepted connections
  have different contexts, and each context is in exactly one place: with the thread that has fetched it and not yet emplaced its
  session, in the map of sessions, with the thread that has taken its session out of the map and not yet told the actor, or
  told: then exactly one actor has \<open>Msg_SessionDisconnected\<close> with this context in its mailbox or has swapped it out, exactly once.  So
  \<open>try_emplace\<close> never finds the context taken.  No message of the client comes into a mailbox after the notice.  Every round of a
  worker thread is a run of these steps.
\<close>

theorem disconnect_told_once:
  assumes "(net_step pr)\<^sup>*\<^sup>* (new_run initial Map.empty) r" and "admitted r \<le> 2 ^ 32"
  shows "(\<exists>to. (\<forall>nm c. count_list (told r nm) c = of_bool (to c = Some nm)) \<and>
      (\<forall>c. count (entering r) c + of_bool (sessions (network r) c \<noteq> None) + count (image_mset fst (telling r)) c +
        of_bool (to c \<noteq> None) = (of_bool (c \<in> of_nat ` {..<admitted r}) :: nat))) \<and>
    (\<forall>c. c \<in># entering r \<longrightarrow> sessions (network r) c = None) \<and>
    (\<forall>nm xs c ys ty k body. arrived r nm = xs @ Msg_SessionDisconnected c # ys \<longrightarrow> Msg_Cts c ty k body \<notin> set ys) \<and>
    (worker_round T pr cm (network r) = Some (Inr (go, n)) \<longrightarrow> (\<exists>r'. (net_step pr)\<^sup>*\<^sup>* r r' \<and> network r' = n))"
proof -
  have R: "net_ok r" using net.steps_ok [OF assms(1) new_run_ok] .
  then obtain to where to: "told_once r to" using assms(2) unfolding net_ok_def by blast
  have "sessions (network r) c = None" if "c \<in># entering r" for c
  proof -
    have "places r to c \<le> 1" "0 < count (entering r) c" using to that by (simp_all add: told_once_def)
    then show ?thesis by (cases "sessions (network r) c") (simp_all add: places_def)
  qed
  moreover have "Msg_Cts c ty k body \<notin> set ys" if "arrived r nm = xs @ Msg_SessionDisconnected c # ys" for nm xs c ys ty k body
    using R assms(2) that unfolding net_ok_def notices_last_def by blast
  moreover have "\<exists>r'. (net_step pr)\<^sup>*\<^sup>* r r' \<and> network r' = n" if "worker_round T pr cm (network r) = Some (Inr (go, n))"
    using round_runs [OF that] unfolding runs_to_def by blast
  ultimately show ?thesis using to unfolding told_once_def places_def by blast
qed

text \<open>A connection is accepted, closed, taken out of the map, and its actor is told.\<close>

definition told_run :: "(null_state, nat) net_run" where
  "told_run = \<lparr>network = \<lparr>InitialAssociatedActor = ''Auth'', newContext = 1, sessions = Map.empty,
       actors = [''Auth'' \<mapsto> \<lparr>Name = ''Auth'', pushIndex = 0,
         messageQueue = (\<lambda>i. if i = 0 then [Msg_SessionDisconnected 0] else []), messageHandlers = Map.empty, derived = 0\<rparr>]\<rparr>,
     entering = {#}, erasing = {#}, telling = {#}, taken = (\<lambda>nm. []), admitted = 1\<rparr>"

lemma told_run_reached: "(net_step demo_protocol)\<^sup>*\<^sup>* (new_run ''Auth'' Map.empty) told_run"
proof -
  let ?step = "net_step demo_protocol" and ?s = "new_session demo_protocol null_start 0 ''Auth''"
  let ?a = "\<lparr>Name = ''Auth'', pushIndex = 0, messageQueue = \<lambda>i. [], messageHandlers = Map.empty, derived = 0 :: nat\<rparr>"
  define r0 where "r0 = (new_run ''Auth'' Map.empty :: (null_state, nat) net_run)"
  define r1 where "r1 = set_actors ((actors (network r0))(''Auth'' \<mapsto> ?a)) r0"
  define r2 where "r2 = r1\<lparr>network := snd (take_context (network r1)), entering := add_mset 0 (entering r1), admitted := Suc (admitted r1)\<rparr>"
  define r3 where "r3 = r2\<lparr>network := put_session 0 ?s (network r2), entering := entering r2 - {#0#}\<rparr>"
  define r4 where "r4 = r3\<lparr>erasing := add_mset 0 (erasing r3)\<rparr>"
  define r5 where "r5 = r4\<lparr>network := snd (take_session 0 (network r4)), erasing := erasing r4 - {#0#},
    telling := add_mset (0, ''Auth'') (telling r4)\<rparr>"
  note defs = r0_def r1_def r2_def r3_def r4_def r5_def new_run_def new_network_def take_context_def take_session_def
  have "?step r0 r1" unfolding r1_def by (rule registers [of _ _ "[]" 0]) (simp_all add: defs new_actor_def)
  moreover have "?step r1 r2" unfolding r2_def by (rule fetches) (simp add: defs)
  moreover have "?step r2 r3" unfolding r3_def
    by (rule emplaces [where ssl = null_start]) (simp_all add: defs emplace_session_def crash_cond_def)
  moreover have "?step r3 r4" unfolding r4_def
    by (rule answers [where s = ?s]) (simp_all add: defs new_session_def)
  moreover have "?step r4 r5"
    using takes [of 0 r4 "Some ''Auth''" "snd (take_session 0 (network r4))" demo_protocol]
    by (simp add: defs new_session_def)
  moreover have "?step r5 told_run"
    using tells [of 0 "''Auth''" r5 "network told_run" demo_protocol]
    by (simp add: defs told_run_def tell_disconnected_def TryPushMessageTo_def actor_PushMessage_def crash_cond_def put_session_def fun_eq_iff)
  ultimately show ?thesis unfolding r0_def [symmetric]
    by (meson converse_rtranclp_into_rtranclp r_into_rtranclp)
qed

theorem disconnect_told_once_witness:
  "told told_run ''Auth'' = [0] \<and> (\<exists>to. to (0 :: u32) = Some ''Auth'' \<and> (\<forall>nm. count_list (told told_run nm) 0 = of_bool (to 0 = Some nm)))"
proof -
  have a: "admitted told_run \<le> 2 ^ 32" and t: "told told_run ''Auth'' = [0]"
    by (simp_all add: told_run_def told_def arrived_def inbox_def waiting_def)
  obtain to where to: "\<forall>nm c. count_list (told told_run nm) c = of_bool (to c = Some nm)"
    using disconnect_told_once [OF told_run_reached a] by blast
  then have "count_list (told told_run ''Auth'') 0 = of_bool (to 0 = Some ''Auth'')" by blast
  then have "to 0 = Some ''Auth''" unfolding t by (cases "to 0 = Some ''Auth''") simp_all
  then show ?thesis using t to by blast
qed

end
