(* ===== verification/Net_Stream.thy ===== *)
theory Net_Stream
  imports Net_Server
begin

text \<open>
  A client sends a stream of bytes: whole runs of the receive completions of one session.  The end of \<open>Net_Server\<close> handles one
  completion; here the stream is cut anywhere by the network, and the theorem is about what the associated actor has got
  when the completions have been handled, with the leftovers of frames and TLS records carried over from one to the next.
\<close>

section \<open>A run of completions\<close>

text \<open>
  The network writes bytes where \<open>TryReceiveAsync\<close> has asked for them, as many as are there and fit.  A chunk is a run of
  bytes of the stream that arrives at once.
\<close>

definition network_writes :: "session_protocol \<Rightarrow> u32 \<Rightarrow> u8 list \<Rightarrow> ('t, 'a) network \<Rightarrow> (nat \<times> ('t, 'a) network) res" where
  "network_writes pr c bs n =
     bindR (live_session c n) (\<lambda>s.
       let m = min (length bs) (BufferCapacity pr - receiveTlsBufferTail s)
       in bindR (store_bytes (ReceiveTlsBuffer s) (receiveTlsBufferTail s) (take m bs)) (\<lambda>buf.
            Inr (m, put_session c (s\<lparr>ReceiveTlsBuffer := buf\<rparr>) n)))"

definition receiving :: "u32 \<Rightarrow> ('t, 'a) network \<Rightarrow> bool" where
  "receiving c n \<longleftrightarrow> (case sessions n c of None \<Rightarrow> False | Some s \<Rightarrow> isIoOnline s IoType_Receive)"

fun receive_stream :: "'t tls \<Rightarrow> session_protocol \<Rightarrow> u32 \<Rightarrow> nat list \<Rightarrow> u8 list \<Rightarrow> ('t, 'a) network \<Rightarrow>
    (u8 list \<times> ('t, 'a) network) res option" where
  "receive_stream T pr c [] stream n = Some (Inr (stream, n))"
| "receive_stream T pr c (k # ks) stream n =
     (if stream = [] \<or> \<not> receiving c n then Some (Inr (stream, n))
      else bindO (Some (network_writes pr c (take k stream) n)) (\<lambda>(m, n1).
           bindO (PostReceive T pr True c m n1) (\<lambda>n2.
             receive_stream T pr c ks (drop m stream) n2)))"

text \<open>
  The session is open: it waits for bytes, the engine got all bytes received since it was in the state \<open>y0\<close>, and of the
  plaintext that it has delivered since, the complete frames are in the mailbox and the rest is in the buffer.
\<close>

definition open_stream :: "session_protocol \<Rightarrow> 't tls_view \<Rightarrow> 't \<Rightarrow> u32 \<Rightarrow> string \<Rightarrow> net_message list \<Rightarrow> u8 list \<Rightarrow>
    ('t, 'a) network \<Rightarrow> bool" where
  "open_stream pr V y0 c A ms received n \<longleftrightarrow>
     (\<exists>s y P. sessions n c = Some s \<and> session_ok pr s \<and> tls_in s = [] \<and> Ssl s = Some y \<and> AssociatedActor s = A \<and>
        isIoOnline s IoType_Receive \<and> \<not> shouldClose s \<and> fed V y = fed V y0 @ received \<and> delivered V y = delivered V y0 @ P \<and>
        app_content s = snd (frames P) \<and> inbox (actors n) A = Some (ms @ cts_messages c (fst (frames P))))"

text \<open>
  The session has ended: the mailbox has the frames of what the engine had delivered before, and then the notice if the session
  is gone; otherwise it is closing and an operation of another kind is still in flight.
\<close>

definition ended_stream :: "'t tls_view \<Rightarrow> 't \<Rightarrow> u32 \<Rightarrow> string \<Rightarrow> net_message list \<Rightarrow> u8 list \<Rightarrow> ('t, 'a) network \<Rightarrow> bool" where
  "ended_stream V y0 c A ms received n \<longleftrightarrow>
     (\<exists>y P. fed V y = fed V y0 @ received \<and> delivered V y = delivered V y0 @ P \<and>
        (sessions n c = None \<and> inbox (actors n) A = Some (ms @ cts_messages c (fst (frames P)) @ [Msg_SessionDisconnected c]) \<or>
         (\<exists>s. sessions n c = Some s \<and> shouldClose s \<and> \<not> isIoOnline s IoType_Receive \<and> (\<exists>io. isIoOnline s io)) \<and>
           inbox (actors n) A = Some (ms @ cts_messages c (fst (frames P)))))"

lemma cts_messages_append: "cts_messages c (xs @ ys) = cts_messages c xs @ cts_messages c ys"
  by (simp add: cts_messages_def)

text \<open>The delivery of messages only moves the head of the application buffer and uses the buffer for wrapped bodies.\<close>

definition same_but_app :: "'t session \<Rightarrow> 't session \<Rightarrow> bool" where
  "same_but_app s s' \<longleftrightarrow> (\<exists>h p. s' = s\<lparr>receiveAppBufferHead := h, ReceiveContiguousPopBuffer := p\<rparr>)"

lemma same_but_app_refl: "same_but_app s s"
  unfolding same_but_app_def by (rule exI [of _ "receiveAppBufferHead s"], rule exI [of _ "ReceiveContiguousPopBuffer s"]) simp

lemma same_but_app_trans: "same_but_app s t \<Longrightarrow> same_but_app t u \<Longrightarrow> same_but_app s u"
  by (auto simp: same_but_app_def) (metis session.surjective session.update_convs(8,10))

lemma same_but_appD:
  assumes "same_but_app s s'"
  shows "Ssl s' = Ssl s" "tls_in s' = tls_in s" "isIoOnline s' = isIoOnline s" "shouldClose s' = shouldClose s"
    "AssociatedActor s' = AssociatedActor s" "session_ok pr s \<Longrightarrow> app_ok pr s' \<Longrightarrow> session_ok pr s'"
  using assms by (auto simp: same_but_app_def tls_in_def session_ok_def)

lemma same_but_app_pop: "same_but_app s (s\<lparr>ReceiveContiguousPopBuffer := p\<rparr>)"
  unfolding same_but_app_def by (intro exI [of _ "receiveAppBufferHead s"] exI [of _ p]) simp

lemma peek_body_same: "peek_body pr s h = Inr (m, s') \<Longrightarrow> same_but_app s s'"
  by (auto simp: peek_body_def Let_def bindR_eq_Inr intro: same_but_app_pop same_but_app_refl split: option.splits if_splits prod.splits)

lemma peek_same: "PeekReceivedMessage pr s = Inr (m, s') \<Longrightarrow> same_but_app s s'"
  by (auto simp: PeekReceivedMessage_def bindR_eq_Inr intro: same_but_app_refl dest: peek_body_same split: option.splits)

lemma deliver_same:
  assumes "deliver_messages pr c s acts = Some (Inr (s', acts'))"
  shows "same_but_app s s'"
proof -
  let ?P = "\<lambda>pr c s acts v. \<forall>s' acts'. v = Inr (s', acts') \<longrightarrow> same_but_app s s'"
  have "?P pr c s acts v" if "deliver_messages pr c s acts = Some v" for v
  proof (rule deliver_messages.raw_induct [where P = ?P, OF _ that], intro allI impI)
    fix loop pr c s acts v s' acts'
    assume IH: "\<And>pr c s acts v. loop pr c s acts = Some v \<Longrightarrow> ?P pr c s acts v" and v: "v = Inr (s', acts')"
      and body: "(case PeekReceivedMessage pr s of
        Inl e \<Rightarrow> Some (Inl e)
      | Inr (None, s') \<Rightarrow> Some (Inr (s', acts))
      | Inr (Some (messageType, bodyLen, body), s') \<Rightarrow>
          bindO (Some (crash_cond (\<not> fst (TryPushMessageTo (AssociatedActor s') (Msg_Cts c messageType bodyLen body) acts)))) (\<lambda>u.
          loop pr c (PopReceivedMessage pr (MessageHeaderSize pr + unat bodyLen) s')
            (snd (TryPushMessageTo (AssociatedActor s') (Msg_Cts c messageType bodyLen body) acts)))) = Some v"
    obtain m s1 where peek: "PeekReceivedMessage pr s = Inr (m, s1)" using body v by (auto split: sum.splits)
    show "same_but_app s s'"
    proof (cases m)
      case None
      then show ?thesis using body v peek peek_same [OF peek] by simp
    next
      case (Some f)
      obtain ty k b where f: "f = (ty, k, b)" by (cases f)
      let ?s2 = "PopReceivedMessage pr (MessageHeaderSize pr + unat k) s1"
      have "loop pr c ?s2 (snd (TryPushMessageTo (AssociatedActor s1) (Msg_Cts c ty k b) acts)) = Some v"
        using body v peek Some f by (auto simp: crash_cond_def split: if_splits)
      then have "same_but_app ?s2 s'" using IH v by blast
      moreover have "same_but_app s1 ?s2" unfolding same_but_app_def PopReceivedMessage_def
        by (intro exI [of _ "(receiveAppBufferHead s1 + (MessageHeaderSize pr + unat k)) mod BufferCapacity pr"]
            exI [of _ "ReceiveContiguousPopBuffer s1"]) simp
      ultimately show ?thesis using peek_same [OF peek] same_but_app_trans by blast
    qed
  qed
  then show ?thesis using assms by blast
qed

section \<open>One completion\<close>

text \<open>\<open>PostReceive\<close> under its lock, for a block that was written.\<close>

lemma stream_locked:
  assumes T: "tls_laws T V" "\<not> wants_write T" and P: "protocol_ok pr" "2 ^ 16 \<le> Suc (MessageMaxSize pr)"
    and s: "sessions n c = Some s" "session_ok pr s" "Ssl s = Some y" "tls_in s = []" "\<not> shouldClose s"
    and b: "bs \<noteq> []" "length bs < BufferCapacity pr" "length bs \<le> BufferCapacity pr - receiveTlsBufferTail s"
      "store_bytes (ReceiveTlsBuffer s) (receiveTlsBufferTail s) bs = Inr buf"
    and box: "inbox (actors n) (AssociatedActor s) = Some ms"
  obtains n' s' again y' Q where
    "receive_locked T pr True c (length bs) (put_session c (s\<lparr>ReceiveTlsBuffer := buf\<rparr>) n) = Some (Inr (again, n'))"
    "sessions n' c = Some s'" "inbox (actors n') = (inbox (actors n))(AssociatedActor s \<mapsto>
      ms @ cts_messages c (fst (frames (if again then app_content s @ Q else app_content s))))"
    "app_content s' = snd (frames (if again then app_content s @ Q else app_content s))"
    "AssociatedActor s' = AssociatedActor s" "session_ok pr s'" "tls_in s' = []" "Ssl s' = Some y'"
    "isIoOnline s' = (isIoOnline s)(IoType_Receive := again)" "\<not> shouldClose s'"
    "fed V y' = fed V y @ bs" "delivered V y' = delivered V y @ Q"
proof -
  let ?n = "put_session c (s\<lparr>ReceiveTlsBuffer := buf\<rparr>) n"
  have lt: "(if length bs = BufferCapacity pr then [] else bs) = bs" using b(2) by simp
  obtain ok s1 y1 Q where r: "TryPostReceive T pr (length bs) (s\<lparr>ReceiveTlsBuffer := buf\<rparr>) = Some (Inr (ok, s1))"
    "Ssl s1 = Some y1" "session_ok pr s1" "tls_in s1 = []" "fed V y1 = fed V y @ bs" "delivered V y1 = delivered V y @ Q"
    "app_content s1 = (if ok then app_content s @ Q else app_content s)"
    "isIoOnline s1 = (isIoOnline s)(IoType_Receive := False)" "shouldClose s1 = shouldClose s"
    "AssociatedActor s1 = AssociatedActor s"
    by (rule block_received [OF T s(2-4) b(3,4), unfolded lt]) (rule that)
  have nx: "\<exists>p. TryReceiveAsync pr True s1 = (Some p, set_online IoType_Receive True s1)"
    using next_receive [OF r(3,4)] r(8,9) s(5) by simp
  have small: "length (snd m) \<le> MessageMaxSize pr" if "m \<in> set (fst (frames (app_content s1)))" for m
    using frames_small [OF that] P(2) by simp
  have sn: "sessions ?n c = Some (s\<lparr>ReceiveTlsBuffer := buf\<rparr>)" by simp
  have app: "app_ok pr s1" using r(3) by (simp add: session_ok_def)
  have "inbox (actors ?n) (AssociatedActor s1) = Some ms" using box r(10) by simp
  note box1 = this
  have go: "(ok \<and> 0 < length bs \<and> fst (TryReceiveAsync pr True s1) \<noteq> None) = ok" using nx b(1) by auto
  from receive_locked_spec [OF sn r(1) app P(1) small box1, of True, unfolded go put_session_simps fun_upd_upd r(10)]
  obtain n' s' where L: "receive_locked T pr True c (length bs) ?n = Some (Inr (ok, n'))"
    "inbox (actors n') = (inbox (actors n))(AssociatedActor s \<mapsto> ms @ cts_messages c (fst (frames (app_content s1))))"
    "sessions n' = (sessions n)(c \<mapsto> s')" "app_ok pr s'" "app_content s' = snd (frames (app_content s1))"
    by blast
  define s2 where "s2 = (if ok then set_online IoType_Receive True s1 else s1)"
  obtain posted where p: "(if ok \<and> 0 < length bs then TryReceiveAsync pr True s1 else (None, s1)) = (posted, s2)"
    using nx b(1) that by (cases ok) (auto simp: s2_def)
  obtain s3 acts where d: "deliver_messages pr c s2 (actors ?n) = Some (Inr (s3, acts))" "n' = put_session c s3 (?n\<lparr>actors := acts\<rparr>)"
    using L(1) sn r(1) p by (auto simp: receive_locked_def live_session_def elim!: bindO_elim)
  have "s3 = s'" using fun_cong [OF L(3), of c] d(2) by simp
  then have same: "same_but_app s2 s'" using deliver_same [OF d(1)] by simp
  have "session_ok pr s2" using r(3) by (simp add: s2_def)
  note D = same_but_appD(1-5) [OF same] same_but_appD(6) [OF same this L(4)]
  have "isIoOnline s2 = (isIoOnline s)(IoType_Receive := ok)" "tls_in s2 = []" "Ssl s2 = Some y1" "\<not> shouldClose s2"
    "AssociatedActor s2 = AssociatedActor s" using r s(5) by (cases ok; simp add: s2_def)+
  with D L r show thesis by (intro that [of ok n' s' Q y1]) simp_all
qed

text \<open>The clean-up of a session whose last receive is not followed by another one.\<close>

lemma stream_ends:
  assumes s: "sessions n c = Some s" and A: "AssociatedActor s = A" and r: "\<not> isIoOnline s IoType_Receive"
    and box: "inbox (actors n) A = Some (ms @ cts_messages c (fst (frames X)))"
    and y: "fed V y = fed V y0 @ R" "delivered V y = delivered V y0 @ X"
  shows "\<exists>n'. SessionCleanupRoutine False c n = Inr n' \<and> ended_stream V y0 c A ms R n'"
proof (cases "\<forall>io. \<not> isIoOnline s io")
  case True
  then obtain n' where "SessionCleanupRoutine False c n = Inr n'" "sessions n' = (sessions n)(c := None)"
    "inbox (actors n') = (inbox (actors n))(AssociatedActor s \<mapsto> (ms @ cts_messages c (fst (frames X))) @ [Msg_SessionDisconnected c])"
    using close_erase [OF s] box A by auto
  then show ?thesis unfolding ended_stream_def using y A by (intro exI [of _ n']) (auto intro!: exI [of _ y] exI [of _ X])
next
  case False
  then obtain io where "isIoOnline s io" by blast
  then have "SessionCleanupRoutine False c n = Inr (put_session c (Cleanup s) n)" by (rule close_busy [OF s])
  moreover have "shouldClose (Cleanup s)" "\<not> isIoOnline (Cleanup s) IoType_Receive" "isIoOnline (Cleanup s) io"
    using r \<open>isIoOnline s io\<close> by (simp_all add: Cleanup_def)
  ultimately show ?thesis unfolding ended_stream_def using y box
    by (intro exI [of _ "put_session c (Cleanup s) n"] conjI exI [of _ y] exI [of _ X] disjI2 exI [of _ "Cleanup s"] exI [of _ io]) simp_all
qed

text \<open>One completion of an open stream: it goes on with the bytes that were written, or it ends.\<close>

lemma stream_step:
  assumes T: "tls_laws T V" "\<not> wants_write T" and P: "protocol_ok pr" "2 ^ 16 \<le> Suc (MessageMaxSize pr)"
    and o: "open_stream pr V y0 c A ms R n" and b: "bs \<noteq> []" "length bs < BufferCapacity pr"
  obtains m n1 n' where "network_writes pr c bs n = Inr (m, n1)" "PostReceive T pr True c m n1 = Some (Inr n')" "0 < m"
    "open_stream pr V y0 c A ms (R @ take m bs) n' \<or> ended_stream V y0 c A ms R n'"
proof -
  from o obtain s y X where s: "sessions n c = Some s" "session_ok pr s" "tls_in s = []" "Ssl s = Some y" "AssociatedActor s = A"
    "isIoOnline s IoType_Receive" "\<not> shouldClose s" "fed V y = fed V y0 @ R" "delivered V y = delivered V y0 @ X"
    "app_content s = snd (frames X)" "inbox (actors n) A = Some (ms @ cts_messages c (fst (frames X)))"
    by (auto simp: open_stream_def)
  let ?t = "receiveTlsBufferTail s" and ?cap = "BufferCapacity pr"
  define m where "m = min (length bs) (?cap - ?t)"
  define d where "d = take m bs"
  have K: "length (ReceiveTlsBuffer s) = ?cap" "?t < ?cap" using s(2) by (simp_all add: session_ok_def)
  have d: "length d = m" "d \<noteq> []" "0 < m" "length d < ?cap" "length d \<le> ?cap - ?t"
    using b K(2) by (auto simp: d_def m_def)
  have "?t + length d \<le> length (ReceiveTlsBuffer s)" using d(5) K by simp
  then obtain buf where buf: "store_bytes (ReceiveTlsBuffer s) ?t d = Inr buf" by (simp add: store_bytes_def)
  let ?n1 = "put_session c (s\<lparr>ReceiveTlsBuffer := buf\<rparr>) n"
  have w: "network_writes pr c bs n = Inr (m, ?n1)"
    using s(1) buf by (simp add: network_writes_def live_session_def m_def [symmetric] d_def [symmetric])
  have box: "inbox (actors n) (AssociatedActor s) = Some (ms @ cts_messages c (fst (frames X)))" using s(5,11) by simp
  obtain n' s' again y' Q where L: "receive_locked T pr True c (length d) ?n1 = Some (Inr (again, n'))"
    "sessions n' c = Some s'" "inbox (actors n') = (inbox (actors n))(AssociatedActor s \<mapsto>
      (ms @ cts_messages c (fst (frames X))) @ cts_messages c (fst (frames (if again then app_content s @ Q else app_content s))))"
    "app_content s' = snd (frames (if again then app_content s @ Q else app_content s))"
    "AssociatedActor s' = AssociatedActor s" "session_ok pr s'" "tls_in s' = []" "Ssl s' = Some y'"
    "isIoOnline s' = (isIoOnline s)(IoType_Receive := again)" "\<not> shouldClose s'"
    "fed V y' = fed V y @ d" "delivered V y' = delivered V y @ Q"
    by (rule stream_locked [OF T P s(1,2,4,3,7) d(2,4,5) buf box])
  have "\<exists>n2. PostReceive T pr True c m ?n1 = Some (Inr n2) \<and>
    (open_stream pr V y0 c A ms (R @ take m bs) n2 \<or> ended_stream V y0 c A ms R n2)"
  proof (cases again)
    case True
    have "app_content s' = snd (frames (X @ Q))"
      "cts_messages c (fst (frames (X @ Q))) = cts_messages c (fst (frames X)) @ cts_messages c (fst (frames (snd (frames X) @ Q)))"
      using L(4) True s(10) by (subst frames_append; simp add: cts_messages_append)+
    then have "open_stream pr V y0 c A ms (R @ d) n'" unfolding open_stream_def
      using L(2,3,5-12) True s(5,6,8-10) by (intro exI [of _ s'] exI [of _ y'] exI [of _ "X @ Q"]) simp
    then show ?thesis using L(1) True d(1) by (simp add: PostReceive_def d_def)
  next
    case False
    have P2: "PostReceive T pr True c m ?n1 = Some (SessionCleanupRoutine False c n')"
      using L(1) False d(1) by (simp add: PostReceive_def)
    have box': "inbox (actors n') A = Some (ms @ cts_messages c (fst (frames X)))"
      using L(3) False s(5,10) by (simp add: cts_messages_def)
    have "\<not> isIoOnline s' IoType_Receive" using L(9) False by simp
    from stream_ends [OF L(2) _ this box' s(8,9)] show ?thesis using L(5) s(5) P2 by auto
  qed
  then show thesis using that w d(3) by blast
qed

lemma open_receiving: "open_stream pr V y0 c A ms R n \<Longrightarrow> receiving c n"
  by (auto simp: open_stream_def receiving_def)

lemma ended_receiving: "ended_stream V y0 c A ms R n \<Longrightarrow> \<not> receiving c n"
  by (auto simp: ended_stream_def receiving_def)

text \<open>Any number of completions.\<close>

lemma stream_run:
  assumes "tls_laws T V" and "\<not> wants_write T" and "protocol_ok pr" and "2 ^ 16 \<le> Suc (MessageMaxSize pr)"
    and "open_stream pr V y0 c A ms R n" and "\<forall>k\<in>set ks. 0 < k \<and> k < BufferCapacity pr"
  shows "\<exists>n' received rest. receive_stream T pr c ks stream n = Some (Inr (rest, n')) \<and>
    (stream = received @ rest \<and> open_stream pr V y0 c A ms (R @ received) n' \<and> (length stream \<le> length ks \<longrightarrow> rest = []) \<or>
     (\<exists>chunk. stream = received @ chunk @ rest \<and> ended_stream V y0 c A ms (R @ received) n'))"
  using assms(5,6)
proof (induction ks arbitrary: R stream n)
  case Nil
  then show ?case by (intro exI [of _ n] exI [of _ "[]"] exI [of _ stream]) simp
next
  case (Cons k ks)
  show ?case
  proof (cases "stream = []")
    case True
    then show ?thesis using Cons.prems(1) by (intro exI [of _ n] exI [of _ "[]"] exI [of _ "[]"]) simp
  next
    case False
    have b: "take k stream \<noteq> []" "length (take k stream) < BufferCapacity pr" using False Cons.prems(2) by auto
    obtain m n1 n2 where st: "network_writes pr c (take k stream) n = Inr (m, n1)"
      "PostReceive T pr True c m n1 = Some (Inr n2)" "0 < m"
      "open_stream pr V y0 c A ms (R @ take m (take k stream)) n2 \<or> ended_stream V y0 c A ms R n2"
      by (rule stream_step [OF assms(1-4) Cons.prems(1) b])
    have m: "m \<le> length (take k stream)" using st(1)
      by (auto simp: network_writes_def Let_def bindR_eq_Inr)
    have run: "receive_stream T pr c (k # ks) stream n = receive_stream T pr c ks (drop m stream) n2"
      using False open_receiving [OF Cons.prems(1)] st(1,2) by simp
    show ?thesis using st(4)
    proof
      assume "open_stream pr V y0 c A ms (R @ take m (take k stream)) n2"
      moreover have "take m (take k stream) = take m stream" using m by simp
      ultimately have o: "open_stream pr V y0 c A ms (R @ take m stream) n2" by simp
      from Cons.IH [OF o, of "drop m stream"] Cons.prems(2) obtain n' received rest where
        "receive_stream T pr c ks (drop m stream) n2 = Some (Inr (rest, n'))"
        "drop m stream = received @ rest \<and> open_stream pr V y0 c A ms ((R @ take m stream) @ received) n' \<and>
           (length (drop m stream) \<le> length ks \<longrightarrow> rest = []) \<or>
         (\<exists>chunk. drop m stream = received @ chunk @ rest \<and> ended_stream V y0 c A ms ((R @ take m stream) @ received) n')"
        by auto
      note r = this
      have split: "stream = (take m stream @ received) @ t" if "drop m stream = received @ t" for t
        using that append_take_drop_id [of m stream] by simp
      have more: "length (drop m stream) \<le> length ks" if "length stream \<le> length (k # ks)" using that st(3) by auto
      from r(2) show ?thesis
      proof (elim disjE exE conjE)
        assume "drop m stream = received @ rest" "length (drop m stream) \<le> length ks \<longrightarrow> rest = []"
          "open_stream pr V y0 c A ms ((R @ take m stream) @ received) n'"
        then show ?thesis unfolding run using r(1) split more
          by (intro exI [of _ n'] exI [of _ "take m stream @ received"] exI [of _ rest] conjI disjI1) simp_all
      next
        fix chunk
        assume "drop m stream = received @ chunk @ rest" "ended_stream V y0 c A ms ((R @ take m stream) @ received) n'"
        then show ?thesis unfolding run using r(1) split
          by (intro exI [of _ n'] exI [of _ "take m stream @ received"] exI [of _ rest] conjI disjI2 exI [of _ chunk]) simp_all
      qed
    next
      assume e: "ended_stream V y0 c A ms R n2"
      have "receive_stream T pr c ks (drop m stream) n2 = Some (Inr (drop m stream, n2))"
        using ended_receiving [OF e] by (cases ks) simp_all
      then show ?thesis unfolding run using e
        by (intro exI [of _ n2] exI [of _ "[]"] exI [of _ "drop m stream"]) (auto intro: exI [of _ "take m stream"])
    qed
  qed
qed

section \<open>Properties\<close>

text \<open>
  C17.  A client's stream reaches its actor.  The engine never wants to write while it reads, \<open>MessageMaxSize\<close> is at least 65535,
  so that no body is longer, the completions are handled one after the other, and the network delivers a stream of bytes in chunks of any sizes below \<open>BufferCapacity\<close> (a
  block of exactly this size would be lost, and a longer body would be copied past its buffer).  Then the handlers of the
  completions never fault.  As long as the session is open, the engine has got exactly the bytes received, in order, all of them if
  there are enough chunks; and of the plaintext that the engine has delivered, each complete message is in the mailbox of the
  actor, once and in order, and the rest is in the application buffer.  Otherwise the mailbox has the messages of the bytes before
  the last chunk; the session is gone and the notice follows them, or it is closing and waits for another operation in flight,
  and there is no notice yet.
\<close>

theorem client_stream:
  assumes "tls_laws T V" and "\<not> wants_write T" and "protocol_ok pr" and "2 ^ 16 \<le> Suc (MessageMaxSize pr)"
    and "open_stream pr V y0 c A ms [] n" and "\<forall>k\<in>set ks. 0 < k \<and> k < BufferCapacity pr"
  shows "\<exists>n' received rest. receive_stream T pr c ks stream n = Some (Inr (rest, n')) \<and>
    (stream = received @ rest \<and> open_stream pr V y0 c A ms received n' \<and> (length stream \<le> length ks \<longrightarrow> rest = []) \<or>
     (\<exists>chunk. stream = received @ chunk @ rest \<and> ended_stream V y0 c A ms received n'))"
  using stream_run [OF assms] by simp

text \<open>A protocol with the largest bodies, and two messages in three chunks.\<close>

definition wide_protocol :: session_protocol where
  "wide_protocol = \<lparr>MessageMaxSize = 65535, MessageHeaderSize = 4, sizeof_MessageHeaderSize = 8\<rparr>"

definition waiting_network :: "(null_state, nat) network" where
  "waiting_network = put_session 7 (set_online IoType_Receive True (new_session wide_protocol null_start 7 ''Auth'')) demo_network"

lemma wide_facts:
  "protocol_ok wide_protocol" "2 ^ 16 \<le> Suc (MessageMaxSize wide_protocol)" "BufferCapacity wide_protocol = 262140"
  by (simp_all add: wide_protocol_def protocol_ok_def sizeof_MessageHeader_def BufferCapacity_def)

lemma waiting_open: "open_stream wide_protocol null_view null_start 7 ''Auth'' [] [] waiting_network"
proof -
  let ?new = "new_session wide_protocol null_start 7 ''Auth''"
  have "Ssl ?new = Some null_start" "AssociatedActor ?new = ''Auth''" by (simp_all add: new_session_def)
  moreover have "app_content (set_online IoType_Receive True ?new) = app_content ?new" by (simp add: set_online_def app_content_def)
  moreover have "frames [] = ([], [])" by (simp add: frames.simps)
  ultimately show ?thesis unfolding open_stream_def
    using session_ok_new [OF wide_facts(1), of null_start 7 "''Auth''"] demo_network_facts(2)
    by (intro exI [of _ "set_online IoType_Receive True ?new"] exI [of _ null_start] exI [of _ "[]"])
      (simp add: waiting_network_def cts_messages_def)
qed

theorem client_stream_witness:
  "\<exists>n' received rest. receive_stream null_tls wide_protocol 7 [3, 5, 9] (frame (3, [5, 6]) @ frame (9, [])) waiting_network =
       Some (Inr (rest, n')) \<and>
     (frame (3, [5, 6]) @ frame (9, []) = received @ rest \<and>
        open_stream wide_protocol null_view null_start 7 ''Auth'' [] received n' \<or>
      (\<exists>chunk. frame (3, [5, 6]) @ frame (9, []) = received @ chunk @ rest \<and>
        ended_stream null_view null_start 7 ''Auth'' [] received n'))"
proof -
  have "\<forall>k\<in>set [3, 5, 9]. 0 < k \<and> k < BufferCapacity wide_protocol" by (simp add: wide_facts)
  from client_stream [OF null_laws null_never_writes wide_facts(1,2) waiting_open this, of "frame (3, [5, 6]) @ frame (9, [])"]
  show ?thesis by blast
qed

end
