(* ===== verification/Auth_Server.thy ===== *)
theory Auth_Server
  imports Auth Net_Server
begin

text \<open>
  The composition: \<open>A_Auth\<close> as the actor behind the network server.  Its two handlers, the way of a client message from the
  socket to the request handlers, and the way of a lost connection to the maps of the accounts online.
\<close>

section \<open>The actor\<close>

text \<open>
  What the generated \<open>ICtsStub::HandleCts\<close> makes of a message: it calls exactly one of the virtual functions, with what it
  has parsed.
\<close>

datatype cts_request =
    RegisterRequest string string
  | LoginRequest string string
  | UnknownMessageType
  | ParseMessageFailed
  | UnhandledMessageType

text \<open>\<open>Handle(Msg_Cts)\<close> and \<open>Handle(Msg_SessionDisconnected)\<close>; the last three functions have empty bodies.\<close>

definition handle_request :: "'d account_db \<Rightarrow> u32 \<Rightarrow> cts_request \<Rightarrow> 'd auth \<Rightarrow> 'd auth" where
  "handle_request D context r s =
     (case r of
        RegisterRequest account password \<Rightarrow> OnRegisterRequest context account password s
      | LoginRequest account password \<Rightarrow> OnLoginRequest D context account password s
      | UnknownMessageType \<Rightarrow> s
      | ParseMessageFailed \<Rightarrow> s
      | UnhandledMessageType \<Rightarrow> s)"

type_synonym stub = "u16 \<Rightarrow> u16 \<Rightarrow> u8 list \<Rightarrow> cts_request"

fun auth_Handle :: "'d account_db \<Rightarrow> stub \<Rightarrow> net_message \<Rightarrow> 'd auth \<Rightarrow> 'd auth" where
  "auth_Handle D stub (Msg_Cts context messageType sz body) s = handle_request D context (stub messageType sz body) s"
| "auth_Handle D stub (Msg_SessionDisconnected context) s = HandleSessionDisconnected context s"

text \<open>The handlers that \<open>Accept\<close> registers, by the type indices of the two messages, and what the class overrides.\<close>

fun message_index :: "u32 \<Rightarrow> u32 \<Rightarrow> net_message \<Rightarrow> u32" where
  "message_index cts gone (Msg_Cts c ty sz body) = cts"
| "message_index cts gone (Msg_SessionDisconnected c) = gone"

definition auth_class :: "'d account_db \<Rightarrow> u32 \<Rightarrow> u32 \<Rightarrow> (net_message, 'd auth) actor_class" where
  "auth_class D cts gone = \<lparr>TypeIndex = message_index cts gone, OnUnknownMessageReceived = (\<lambda>m s. Inl Aborted),
     Tick = auth_Tick D\<rparr>"

definition new_auth_actor :: "'d account_db \<Rightarrow> stub \<Rightarrow> u32 \<Rightarrow> u32 \<Rightarrow> 'd \<Rightarrow> (net_message, 'd auth) dynamic_actor res" where
  "new_auth_actor D stub cts gone d =
     new_actor ''A_Auth'' [(cts, \<lambda>m s. Inr (auth_Handle D stub m s)), (gone, \<lambda>m s. Inr (auth_Handle D stub m s))] (new_auth d)"

text \<open>An actor with the handlers of \<open>A_Auth\<close>, between two runs.\<close>

definition is_auth_actor :: "'d account_db \<Rightarrow> stub \<Rightarrow> u32 \<Rightarrow> u32 \<Rightarrow> (net_message, 'd auth) dynamic_actor \<Rightarrow> bool" where
  "is_auth_actor D stub cts gone a \<longleftrightarrow> mailbox_idle a \<and>
     (\<forall>i\<in>{cts, gone}. messageHandlers a i = Some (\<lambda>m s. Inr (auth_Handle D stub m s)))"

lemma new_auth_actor_ok:
  "cts \<noteq> gone \<Longrightarrow> \<exists>a. new_auth_actor D stub cts gone d = Inr a \<and> is_auth_actor D stub cts gone a \<and>
     waiting a = [] \<and> derived a = new_auth d"
  by (simp add: new_auth_actor_def new_actor_def RegisterHandlers_eq is_auth_actor_def mailbox_idle_def waiting_def)

lemma auth_handled:
  assumes "is_auth_actor D stub cts gone a"
  shows "handled_state (auth_class D cts gone) (messageHandlers a) ms x = Inr (fold (auth_Handle D stub) ms x)"
proof (induction ms arbitrary: x)
  case (Cons m ms)
  have "messageHandlers a (TypeIndex (auth_class D cts gone) m) = Some (\<lambda>m s. Inr (auth_Handle D stub m s))"
    using assms by (cases m) (simp_all add: is_auth_actor_def auth_class_def)
  then show ?case using Cons by simp
qed simp

lemma auth_Run:
  assumes "is_auth_actor D stub cts gone a"
  shows "Run (auth_class D cts gone) a = bindR (auth_Tick D (fold (auth_Handle D stub) (waiting a) (derived a))) (\<lambda>x.
    Inr (a\<lparr>pushIndex := 1 - pushIndex a, messageQueue := (messageQueue a)(pushIndex a := []), derived := x\<rparr>))"
  using assms Run_eq [of a "auth_class D cts gone"] auth_handled [OF assms, of "waiting a" "derived a"]
  by (simp add: is_auth_actor_def) (simp add: auth_class_def)

section \<open>Pushing to the actor\<close>

definition with_messages :: "'m list \<Rightarrow> ('m, 'a) dynamic_actor \<Rightarrow> ('m, 'a) dynamic_actor" where
  "with_messages ms a = a\<lparr>messageQueue := (messageQueue a)(pushIndex a := messageQueue a (pushIndex a) @ ms)\<rparr>"

lemma with_messages_simps [simp]:
  "with_messages [] a = a" "with_messages ns (with_messages ms a) = with_messages (ms @ ns) a"
  "derived (with_messages ms a) = derived a" "waiting (with_messages ms a) = waiting a @ ms"
  by (simp_all add: with_messages_def waiting_def)

lemma with_messages_auth:
  "is_auth_actor D stub cts gone a \<Longrightarrow> is_auth_actor D stub cts gone (with_messages ms a)"
  by (auto simp: is_auth_actor_def mailbox_idle_def with_messages_def less_2_cases_iff)

lemma push_actor:
  "acts nm = Some a \<Longrightarrow> snd (TryPushMessageTo nm m acts) nm = Some (with_messages [m] a)"
  by (simp add: TryPushMessageTo_def actor_PushMessage_def with_messages_def)

lemma push_each_actor:
  "acts nm = Some a \<Longrightarrow> push_each TryPushMessageTo nm ms acts nm = Some (with_messages ms a)"
proof (induction ms arbitrary: acts a)
  case (Cons m ms)
  then show ?case using push_actor [of acts nm a m] by simp
qed simp

section \<open>From the socket to the actor\<close>

lemma receive_to_actor:
  assumes "sessions n c = Some s" and "TryPostReceive T pr k s = Some (Inr (ok, s1))"
    and "app_ok pr s1" and "protocol_ok pr"
    and "\<And>m. m \<in> set (fst (frames (app_content s1))) \<Longrightarrow> length (snd m) \<le> MessageMaxSize pr"
    and a: "actors n (AssociatedActor s1) = Some a"
  shows "\<exists>n'. PostReceive T pr recvOk c k n = Some (Inr n') \<and>
    actors n' (AssociatedActor s1) = Some (with_messages (cts_messages c (fst (frames (app_content s1))) @
      (if \<not> (ok \<and> 0 < k \<and> fst (TryReceiveAsync pr recvOk s1) \<noteq> None) \<and> (\<forall>io. \<not> isIoOnline s1 io)
       then [Msg_SessionDisconnected c] else [])) a)"
proof -
  define again where "again \<longleftrightarrow> ok \<and> 0 < k \<and> fst (TryReceiveAsync pr recvOk s1) \<noteq> None"
  let ?A = "AssociatedActor s1" and ?ms = "cts_messages c (fst (frames (app_content s1)))"
  have box: "inbox (actors n) ?A = Some (waiting a)" using a by (simp add: inbox_def)
  obtain n1 s2 where r: "receive_locked T pr recvOk c k n = Some (Inr (again, n1))"
    "inbox (actors n1) = (inbox (actors n))(?A \<mapsto> waiting a @ ?ms)" "sessions n1 = (sessions n)(c \<mapsto> s2)"
    "AssociatedActor s2 = ?A" "\<not> again \<longrightarrow> isIoOnline s2 = isIoOnline s1"
    "actors n1 = push_each TryPushMessageTo ?A ?ms (actors n)"
    using receive_locked_spec [OF assms(1-5) box, of recvOk] unfolding again_def [symmetric] by blast
  have a1: "actors n1 ?A = Some (with_messages ?ms a)" unfolding r(6) using push_each_actor [of "actors n", OF a] .
  consider "again" | "\<not> again" "\<forall>io. \<not> isIoOnline s1 io" | io where "\<not> again" "isIoOnline s1 io" by blast
  then show ?thesis
  proof cases
    case 1
    then show ?thesis unfolding again_def [symmetric] using r(1) a1 by (simp add: PostReceive_def)
  next
    case 2
    have "inbox (actors n1) (AssociatedActor s2) = Some (waiting a @ ?ms)" using r(2,4) by simp
    then obtain n' where "SessionCleanupRoutine False c n1 = Inr n'"
      "actors n' = snd (TryPushMessageTo ?A (Msg_SessionDisconnected c) (actors n1))"
      using close_erase [of n1 c s2] r(3,4,5) 2 by auto
    then show ?thesis unfolding again_def [symmetric] using 2 r(1) push_actor [of "actors n1", OF a1]
      by (simp add: PostReceive_def)
  next
    case (3 io)
    have "SessionCleanupRoutine False c n1 = Inr (put_session c (Cleanup s2) n1)"
      using close_busy [of n1 c s2 io] 3 r(3,5) by simp
    then show ?thesis unfolding again_def [symmetric] using 3 r(1) a1 by (auto simp: PostReceive_def)
  qed
qed

lemma handle_foreground: "foreground (auth_Handle D stub m s) = foreground s"
  by (cases m) (auto simp: handle_request_def OnRegisterRequest_def OnLoginRequest_def HandleSessionDisconnected_def
      send_reply_def split: cts_request.split option.split)

lemma fold_foreground: "foreground (fold (auth_Handle D stub) ms s) = foreground s"
  by (induction ms arbitrary: s) (simp_all add: handle_foreground)

section \<open>What the actor sends\<close>

text \<open>
  The replies of \<open>A_Auth\<close> go through \<open>ActorNetworkInterface\<close> to the network server.  The generated proxy gives a reply its
  message type and its bytes.
\<close>

definition reply_context :: "reply \<Rightarrow> u32" where
  "reply_context r = (case r of RegisterResponse c ok reason \<Rightarrow> c | LoginResponse c result \<Rightarrow> c
     | NotifyFatal c reason \<Rightarrow> c | Disconnect c \<Rightarrow> c)"

definition WriteMessage :: "session_protocol \<Rightarrow> u32 \<Rightarrow> u16 \<times> u8 list \<Rightarrow> ('t, 'a) network \<Rightarrow> ('t, 'a) network res" where
  "WriteMessage pr context m n = SendMessageTo pr True context (fst m) (snd m) n"

definition deliver_reply :: "session_protocol \<Rightarrow> (reply \<Rightarrow> u16 \<times> u8 list) \<Rightarrow> reply \<Rightarrow> ('t, 'a) network \<Rightarrow> ('t, 'a) network res" where
  "deliver_reply pr proxy r n =
     (case r of Disconnect c \<Rightarrow> DisconnectSession c n | _ \<Rightarrow> WriteMessage pr (reply_context r) (proxy r) n)"

primrec deliver_replies :: "session_protocol \<Rightarrow> (reply \<Rightarrow> u16 \<times> u8 list) \<Rightarrow> reply list \<Rightarrow> ('t, 'a) network \<Rightarrow> ('t, 'a) network res" where
  "deliver_replies pr proxy [] n = Inr n"
| "deliver_replies pr proxy (r # rs) n = bindR (deliver_reply pr proxy r n) (deliver_replies pr proxy rs)"

section \<open>Properties\<close>

text \<open>
  C20. From the client to \<open>A_Auth\<close>.  A session is associated with an actor that has the handlers of \<open>A_Auth\<close>.  After
  \<open>PostReceive\<close> the next run of this actor handles first what waited before and then the requests in the complete messages
  of the client, in order, each by the function that the stub selects, and last the end of the session if it has ended;
  then it ticks.  If the session has ended, the client is offline before the tick; it is offline after the run as well, unless
  a finished login of the same context with the right password has been waiting for the tick, which puts it online again.
\<close>

theorem requests_reach_auth:
  assumes "sessions n c = Some s" and "TryPostReceive T pr k s = Some (Inr (ok, s1))"
    and "app_ok pr s1" and "protocol_ok pr"
    and "\<And>m. m \<in> set (fst (frames (app_content s1))) \<Longrightarrow> length (snd m) \<le> MessageMaxSize pr"
    and "actors n (AssociatedActor s1) = Some a" and "is_auth_actor D stub cts gone a"
  shows "\<exists>n' a'. PostReceive T pr recvOk c k n = Some (Inr n') \<and> actors n' (AssociatedActor s1) = Some a' \<and>
    (let ended = \<not> (ok \<and> 0 < k \<and> fst (TryReceiveAsync pr recvOk s1) \<noteq> None) \<and> (\<forall>io. \<not> isIoOnline s1 io);
         before = fold (auth_Handle D stub) (waiting a) (derived a);
         served = fold (\<lambda>(ty, body). handle_request D c (stub ty (of_nat (length body)) body))
           (fst (frames (app_content s1))) before;
         x = (if ended then HandleSessionDisconnected c served else served)
     in Run (auth_class D cts gone) a' = bindR (auth_Tick D x) (\<lambda>x'. Inr (a'\<lparr>pushIndex := 1 - pushIndex a',
          messageQueue := (messageQueue a')(pushIndex a' := []), derived := x'\<rparr>)) \<and>
        (ended \<longrightarrow> contextIdMap x c = None \<and>
          (\<forall>a''. Run (auth_class D cts gone) a' = Inr a'' \<longrightarrow> contextIdMap (derived a'') c = None \<or>
            (\<exists>j. LoginJob j \<in> set (foreground (derived a)) \<and> lContext j = c \<and> isPasswordMatch j)) \<and>
          (foreground (derived a) = [] \<longrightarrow> (\<exists>a''. Run (auth_class D cts gone) a' = Inr a''))))"
proof -
  define ended where "ended \<longleftrightarrow> \<not> (ok \<and> 0 < k \<and> fst (TryReceiveAsync pr recvOk s1) \<noteq> None) \<and> (\<forall>io. \<not> isIoOnline s1 io)"
  let ?fs = "fst (frames (app_content s1))" and ?h = "auth_Handle D stub"
  define ms where "ms = cts_messages c ?fs @ (if ended then [Msg_SessionDisconnected c] else [])"
  define served where "served = fold (\<lambda>(ty, body). handle_request D c (stub ty (of_nat (length body)) body)) ?fs
    (fold ?h (waiting a) (derived a))"
  define x where "x = (if ended then HandleSessionDisconnected c served else served)"
  obtain n' where n': "PostReceive T pr recvOk c k n = Some (Inr n')"
    "actors n' (AssociatedActor s1) = Some (with_messages ms a)"
    using receive_to_actor [OF assms(1-6), of recvOk] unfolding ms_def ended_def by blast
  have "fold ?h (cts_messages c fs) y = fold (\<lambda>(ty, body). handle_request D c (stub ty (of_nat (length body)) body)) fs y" for fs y
    by (induction fs arbitrary: y) (auto simp: cts_messages_def)
  then have f: "fold ?h (waiting a @ ms) (derived a) = x"
    by (simp add: ms_def x_def served_def)
  let ?a = "with_messages ms a"
  have run: "Run (auth_class D cts gone) ?a = bindR (auth_Tick D x) (\<lambda>x'. Inr (?a\<lparr>pushIndex := 1 - pushIndex ?a,
      messageQueue := (messageQueue ?a)(pushIndex ?a := []), derived := x'\<rparr>))"
    using auth_Run [OF with_messages_auth [OF assms(7), of ms]] f by simp
  have fg: "foreground x = foreground (derived a)" unfolding f [symmetric] by (rule fold_foreground)
  have off: "contextIdMap x c = None" if "ended" using that by (simp add: x_def HandleSessionDisconnected_def split: option.split)
  have "contextIdMap (derived a'') c = None \<or>
      (\<exists>j. LoginJob j \<in> set (foreground (derived a)) \<and> lContext j = c \<and> isPasswordMatch j)"
    if "ended" "Run (auth_class D cts gone) ?a = Inr a''" for a''
  proof -
    have "tick_jobs D (foreground (derived a)) x = Inr (derived a'')"
      using that(2) fg unfolding run auth_Tick_def by (auto simp: bindR_eq_Inr)
    then show ?thesis using tick_jobs_online off [OF that(1)] by blast
  qed
  moreover have "\<exists>a''. Run (auth_class D cts gone) ?a = Inr a''" if "foreground (derived a) = []"
    unfolding run using that fg by (simp add: auth_Tick_def)
  ultimately show ?thesis using n' run off
    unfolding ended_def [symmetric] served_def [symmetric] x_def [symmetric] Let_def by blast
qed

text \<open>The peer of \<open>hung_up\<close> is online; its last messages are of no known type.\<close>

definition online_auth :: "(string \<times> u64 \<times> string) list auth" where
  "online_auth = (new_auth [])\<lparr>contextIdMap := [7 \<mapsto> 5], idContextMap := [5 \<mapsto> 7]\<rparr>"

definition online_actor :: "(net_message, (string \<times> u64 \<times> string) list auth) dynamic_actor" where
  "online_actor = \<lparr>Name = ''Auth'', pushIndex = 0, messageQueue = \<lambda>i. [],
     messageHandlers = [0 \<mapsto> (\<lambda>m s. Inr (auth_Handle list_db (\<lambda>ty sz body. UnknownMessageType) m s)),
                        1 \<mapsto> (\<lambda>m s. Inr (auth_Handle list_db (\<lambda>ty sz body. UnknownMessageType) m s))], derived = online_auth\<rparr>"

definition online_network :: "(null_state, (string \<times> u64 \<times> string) list auth) network" where
  "online_network = put_session 7 hung_up (new_network ''Auth'' [''Auth'' \<mapsto> online_actor])"

theorem requests_reach_auth_witness:
  "\<exists>n' a' a''. PostReceive null_tls demo_protocol True 7 0 online_network = Some (Inr n') \<and>
     actors n' ''Auth'' = Some a' \<and> Run (auth_class list_db 0 1) a' = Inr a'' \<and>
     contextIdMap online_auth 7 = Some 5 \<and> contextIdMap (derived a'') 7 = None"
proof -
  have s: "sessions online_network 7 = Some hung_up" by (simp add: online_network_def)
  have a: "actors online_network (AssociatedActor hung_up) = Some online_actor"
    using hung_up_facts(4) by (simp add: online_network_def new_network_def)
  have i: "is_auth_actor list_db (\<lambda>ty sz body. UnknownMessageType) 0 1 online_actor"
    by (simp add: is_auth_actor_def mailbox_idle_def online_actor_def)
  have "length (snd m) \<le> MessageMaxSize demo_protocol" if "m \<in> set (fst (frames (app_content hung_up)))" for m
    using that hung_up_facts(2) demo_facts(5) by auto
  note R = requests_reach_auth [OF s hung_up_facts(3,1) demo_facts(1) this a i, of True]
  have fg: "foreground (derived online_actor) = []" by (simp add: online_actor_def online_auth_def new_auth_def)
  obtain n' a' where n': "PostReceive null_tls demo_protocol True 7 0 online_network = Some (Inr n')"
    "actors n' ''Auth'' = Some a'" "\<exists>a''. Run (auth_class list_db 0 1) a' = Inr a''"
    "\<And>a''. Run (auth_class list_db 0 1) a' = Inr a'' \<Longrightarrow> contextIdMap (derived a'') 7 = None"
    using R unfolding Let_def fg hung_up_facts(4) using hung_up_facts(5) by fastforce
  then obtain a'' where "Run (auth_class list_db 0 1) a' = Inr a''" "contextIdMap (derived a'') 7 = None" by blast
  moreover have "contextIdMap online_auth 7 = Some 5" by (simp add: online_auth_def)
  ultimately show ?thesis using n'(1,2) by blast
qed

text \<open>
  C37. A second login request.  A client that is online and asks to log in again is told so and disconnected.  The two replies,
  on a session that sends nothing at the moment, make the thread that handles the request to send lock \<open>sessionsMutex_\<close>
  while it holds it.
\<close>

theorem second_login_deadlocks:
  assumes "contextIdMap x c = Some i" and "sent x = []" and "sessions n c = Some s"
    and "\<not> isIoOnline s IoType_InitiateSend" and "\<not> isIoOnline s IoType_Send"
    and "sizeof_MessageHeader \<le> sizeof_MessageHeaderSize pr"
  shows "\<exists>n'. deliver_replies pr proxy (sent (OnLoginRequest D c account password x)) n = Inr n' \<and>
    worker_round T pr (Done True IoType_InitiateSend c 0 b) n' = Some (Inl SelfDeadlock)"
proof -
  have "sent (OnLoginRequest D c account password x) = [NotifyFatal c AlreadyLoggedIn, Disconnect c]"
    using assms(1,2) by (simp add: OnLoginRequest_def send_reply_def)
  moreover obtain n1 n2 where
    "SendMessageTo pr True c (fst (proxy (NotifyFatal c AlreadyLoggedIn))) (snd (proxy (NotifyFatal c AlreadyLoggedIn))) n = Inr n1"
    "DisconnectSession c n1 = Inr n2" "worker_round T pr (Done True IoType_InitiateSend c 0 b) n2 = Some (Inl SelfDeadlock)"
    using disconnect_after_send_deadlocks [OF assms(3-6)] by blast
  ultimately show ?thesis by (simp add: deliver_reply_def WriteMessage_def reply_context_def)
qed

theorem second_login_deadlocks_witness:
  "\<exists>n'. deliver_replies demo_protocol (\<lambda>r. (2, [1])) (sent (OnLoginRequest list_db 7 ''tester_1'' ''abcdefgh'' online_auth)) online_network = Inr n' \<and>
     worker_round null_tls demo_protocol (Done True IoType_InitiateSend 7 0 True) n' = Some (Inl SelfDeadlock)"
proof (rule second_login_deadlocks)
  show "contextIdMap online_auth 7 = Some 5" "sent online_auth = []" by (simp_all add: online_auth_def new_auth_def)
  show "sessions online_network 7 = Some hung_up" by (simp add: online_network_def)
qed (simp_all add: hung_up_facts(5) demo_facts(3))

end
