(* ===== verification/Net_Stop.thy ===== *)
theory Net_Stop
  imports Net_Server
begin

text \<open>
  The end of \<open>NetworkServer\<close>: the destructor posts one completion without an overlapped structure, and each worker thread that
  takes it posts it again and ends, so that one such completion stops all of them.  What the handlers do with the other
  completions is in \<open>Net_Server\<close>; here such a completion is a value.
\<close>

section \<open>State\<close>

text \<open>The queue of the completion port, first in first out.\<close>

datatype 'p packet = Quit | Io 'p

datatype destructor_pc = Serving | JoiningThread nat | ServerGone

datatype 'p iocp_pc = Polling | Handling 'p | Reposting | Ended

text \<open>\<open>arrived\<close> counts what comes from outside and from the handlers; the code does not have it.\<close>

record 'p port =
  destructor :: destructor_pc
  packets :: "'p packet list"
  iocpWorker :: "nat \<Rightarrow> 'p iocp_pc"
  arrived :: nat


section \<open>Steps\<close>

text \<open>The destructor; if it cannot post, the program is aborted.\<close>

inductive stop_step :: "nat \<Rightarrow> 'p port \<Rightarrow> 'p port \<Rightarrow> bool" for n where
  post_stop: "destructor s = Serving \<Longrightarrow>
    stop_step n s (s\<lparr>destructor := JoiningThread 0, packets := packets s @ [Quit]\<rparr>)"
| join_worker: "destructor s = JoiningThread i \<Longrightarrow> i < n \<Longrightarrow> iocpWorker s i = Ended \<Longrightarrow>
    stop_step n s (s\<lparr>destructor := JoiningThread (Suc i)\<rparr>)"
| all_joined: "destructor s = JoiningThread i \<Longrightarrow> \<not> i < n \<Longrightarrow> stop_step n s (s\<lparr>destructor := ServerGone\<rparr>)"

text \<open>A worker thread; the handler of a completion may post further ones.\<close>

inductive poll_step :: "nat \<Rightarrow> 'p port \<Rightarrow> 'p port \<Rightarrow> bool" for t where
  take_io: "iocpWorker s t = Polling \<Longrightarrow> packets s = Io p # ps \<Longrightarrow>
    poll_step t s (s\<lparr>packets := ps, iocpWorker := (iocpWorker s)(t := Handling p)\<rparr>)"
| take_quit: "iocpWorker s t = Polling \<Longrightarrow> packets s = Quit # ps \<Longrightarrow>
    poll_step t s (s\<lparr>packets := ps, iocpWorker := (iocpWorker s)(t := Reposting)\<rparr>)"
| handled: "iocpWorker s t = Handling p \<Longrightarrow>
    poll_step t s (s\<lparr>packets := packets s @ map Io new, iocpWorker := (iocpWorker s)(t := Polling),
      arrived := arrived s + length new\<rparr>)"
| repost: "iocpWorker s t = Reposting \<Longrightarrow>
    poll_step t s (s\<lparr>packets := packets s @ [Quit], iocpWorker := (iocpWorker s)(t := Ended)\<rparr>)"

inductive port_step :: "nat \<Rightarrow> 'p port \<Rightarrow> 'p port \<Rightarrow> bool" for n where
  by_destructor: "stop_step n s s' \<Longrightarrow> port_step n s s'"
| by_worker: "t < n \<Longrightarrow> poll_step t s s' \<Longrightarrow> port_step n s s'"
| arrives: "port_step n s (s\<lparr>packets := packets s @ [Io p], arrived := Suc (arrived s)\<rparr>)"

section \<open>One completion stops all\<close>

definition quits :: "'p packet list \<Rightarrow> nat" where
  "quits ps = length (filter (\<lambda>p. p = Quit) ps)"

lemma quits_simps [simp]:
  "quits [] = 0" "quits (Quit # ps) = Suc (quits ps)" "quits (Io p # ps) = quits ps" "quits (ps @ qs) = quits ps + quits qs"
  "quits (map Io new) = 0"
  by (simp_all add: quits_def)

definition reposting :: "'p port \<Rightarrow> nat \<Rightarrow> nat" where
  "reposting s t = (if iocpWorker s t = Reposting then 1 else 0)"

definition port_ok :: "nat \<Rightarrow> 'p port \<Rightarrow> bool" where
  "port_ok n s \<longleftrightarrow>
     quits (packets s) + (\<Sum>t<n. reposting s t) = (if destructor s = Serving then 0 else 1) \<and>
     (\<forall>t<n. iocpWorker s t = Ended \<longrightarrow> destructor s \<noteq> Serving) \<and>
     (case destructor s of Serving \<Rightarrow> True | JoiningThread i \<Rightarrow> i \<le> n \<and> (\<forall>t<i. iocpWorker s t = Ended)
      | ServerGone \<Rightarrow> \<forall>t<n. iocpWorker s t = Ended)"


lemma poll_frame:
  assumes "poll_step t s s'"
  shows "destructor s' = destructor s" "u \<noteq> t \<Longrightarrow> iocpWorker s' u = iocpWorker s u"
    "quits (packets s') + reposting s' t = quits (packets s) + reposting s t" "iocpWorker s t \<noteq> Ended"
    "iocpWorker s' t = Ended \<Longrightarrow> reposting s t = 1"
  using assms by (cases, simp_all add: reposting_def)+

lemma poll_step_ok:
  assumes "poll_step t s s'" and "t < n" and P: "port_ok n s"
  shows "port_ok n s'"
proof -
  note F = poll_frame [OF assms(1)]
  have r: "(\<Sum>u<n. reposting s' u) + reposting s t = (\<Sum>u<n. reposting s u) + reposting s' t"
    using F(2) by (intro rank_sum_eq [OF assms(2)]) (simp add: reposting_def)
  have "reposting s t \<le> (\<Sum>u<n. reposting s u)" using assms(2) by (intro member_le_sum) auto
  then have e: "destructor s \<noteq> Serving" if "reposting s t = 1"
    using P that by (auto simp: port_ok_def split: if_splits)
  have old: "quits (packets s) + (\<Sum>u<n. reposting s u) = (if destructor s = Serving then 0 else 1)"
    "\<forall>u<n. iocpWorker s u = Ended \<longrightarrow> destructor s \<noteq> Serving"
    using P by (simp_all add: port_ok_def)
  have ends: "iocpWorker s u = Ended \<Longrightarrow> iocpWorker s' u = Ended" for u
    using F(2) F(4) by (cases "u = t") auto
  have "quits (packets s') + (\<Sum>u<n. reposting s' u) = (if destructor s' = Serving then 0 else 1)"
    using old(1) r F(1,3) by simp
  moreover have "destructor s' \<noteq> Serving" if "u < n" "iocpWorker s' u = Ended" for u
    using that old(2) F(1,2) F(5) e by (cases "u = t") auto
  moreover have "case destructor s' of Serving \<Rightarrow> True | JoiningThread i \<Rightarrow> i \<le> n \<and> (\<forall>t<i. iocpWorker s' t = Ended)
      | ServerGone \<Rightarrow> \<forall>t<n. iocpWorker s' t = Ended"
    using P ends unfolding F(1) port_ok_def by (auto split: destructor_pc.splits)
  ultimately show ?thesis by (simp add: port_ok_def)
qed

lemma port_step_ok:
  assumes "port_step n s s'" and P: "port_ok n s"
  shows "port_ok n s'"
  using assms(1)
proof cases
  case by_destructor
  then show ?thesis
  proof cases
    case post_stop
    then show ?thesis using P by (simp add: port_ok_def reposting_def)
  next
    case (join_worker i)
    then show ?thesis using P by (auto simp: port_ok_def reposting_def less_Suc_eq)
  next
    case (all_joined i)
    then show ?thesis using P by (auto simp: port_ok_def reposting_def)
  qed
next
  case (by_worker t)
  then show ?thesis using poll_step_ok P by blast
next
  case (arrives p)
  then show ?thesis using P by (simp add: port_ok_def reposting_def cong: destructor_pc.case_cong)
qed

section \<open>Everyone ends\<close>

lemma port_progress:
  assumes P: "port_ok n s" and "destructor s \<noteq> ServerGone"
  shows "\<exists>s'. port_step n s s' \<and> arrived s' = arrived s"
proof (cases "destructor s")
  case Serving
  show ?thesis by (rule exI, rule conjI, rule by_destructor, rule post_stop [OF Serving]) simp
next
  case (JoiningThread i)
  have working: ?thesis if "t < n" "iocpWorker s t \<noteq> Polling" "iocpWorker s t \<noteq> Ended" for t
  proof (cases "iocpWorker s t")
    case (Handling p)
    show ?thesis by (rule exI, rule conjI, rule by_worker [OF that(1)], rule handled [OF Handling, of "[]"]) simp
  next
    case Reposting
    show ?thesis by (rule exI, rule conjI, rule by_worker [OF that(1)], rule repost [OF Reposting]) simp
  qed (use that in auto)
  show ?thesis
  proof (cases "i < n")
    case False
    show ?thesis by (rule exI, rule conjI, rule by_destructor, rule all_joined [OF JoiningThread False]) simp
  next
    case i: True
    consider "iocpWorker s i = Ended" | "iocpWorker s i = Polling" | "iocpWorker s i \<noteq> Polling" "iocpWorker s i \<noteq> Ended" by blast
    then show ?thesis
    proof cases
      case 1
      show ?thesis by (rule exI, rule conjI, rule by_destructor, rule join_worker [OF JoiningThread i 1]) simp
    next
      case 2
      show ?thesis
      proof (cases "packets s")
        case Nil
        then have "(\<Sum>t<n. reposting s t) \<noteq> 0" using P JoiningThread by (simp add: port_ok_def)
        then obtain t where "t < n" "reposting s t \<noteq> 0" by auto
        then show ?thesis using working [of t] by (simp add: reposting_def split: if_splits)
      next
        case (Cons p ps)
        show ?thesis
        proof (cases p)
          case Quit
          show ?thesis by (rule exI, rule conjI, rule by_worker [OF i], rule take_quit [OF 2]) (use Cons Quit in simp_all)
        next
          case (Io q)
          show ?thesis by (rule exI, rule conjI, rule by_worker [OF i], rule take_io [OF 2]) (use Cons Io in simp_all)
        qed
      qed
    next
      case 3
      show ?thesis by (rule working [OF i 3])
    qed
  qed
qed (use assms(2) in simp)

text \<open>
  Without arrivals every step lowers this: the destructor that has not begun, the threads that have not ended, the
  completions (a handled one counts half), the joins.
\<close>

definition handling :: "'p port \<Rightarrow> nat \<Rightarrow> nat" where
  "handling s t = (case iocpWorker s t of Handling p \<Rightarrow> 1 | _ \<Rightarrow> 0)"

definition not_ended :: "'p port \<Rightarrow> nat \<Rightarrow> nat" where
  "not_ended s t = (if iocpWorker s t = Ended then 0 else 1)"

definition port_left :: "nat \<Rightarrow> 'p port \<Rightarrow> nat \<times> nat \<times> nat \<times> nat" where
  "port_left n s = (if destructor s = Serving then 1 else 0, \<Sum>t<n. not_ended s t,
     2 * length (packets s) + (\<Sum>t<n. handling s t),
     case destructor s of JoiningThread i \<Rightarrow> Suc n - i | _ \<Rightarrow> 0)"

lemma port_left_step:
  assumes "port_step n s s'" and P: "port_ok n s" and "arrived s' = arrived s"
  shows "(port_left n s', port_left n s) \<in> less_than <*lex*> less_than <*lex*> less_than <*lex*> less_than"
  using assms(1)
proof cases
  case by_destructor
  then show ?thesis
    using P by cases (auto simp: port_left_def not_ended_def handling_def port_ok_def)
next
  case (by_worker t)
  note F = poll_frame(1,2) [OF by_worker(2)]
  have h: "(\<Sum>u<n. handling s' u) + handling s t = (\<Sum>u<n. handling s u) + handling s' t"
    using F(2) by (intro rank_sum_eq [OF by_worker(1)]) (simp add: handling_def)
  have e: "(\<Sum>u<n. not_ended s' u) + not_ended s t = (\<Sum>u<n. not_ended s u) + not_ended s' t"
    using F(2) by (intro rank_sum_eq [OF by_worker(1)]) (simp add: not_ended_def)
  from by_worker(2) show ?thesis
  proof cases
    case (take_io p ps)
    then show ?thesis using h e F(1) by (simp add: port_left_def not_ended_def handling_def)
  next
    case (take_quit ps)
    then show ?thesis using h e F(1) by (simp add: port_left_def not_ended_def handling_def)
  next
    case (handled p new)
    then show ?thesis using h e F(1) assms(3) by (simp add: port_left_def not_ended_def handling_def)
  next
    case repost
    then show ?thesis using h e F(1) by (simp add: port_left_def not_ended_def handling_def)
  qed
next
  case (arrives p)
  then show ?thesis using assms(3) by simp
qed

interpretation port: progress_system "port_step n" "port_ok n" "\<lambda>s s'. arrived s' = arrived s" "\<lambda>s. destructor s = ServerGone"
  "port_left n" "less_than <*lex*> less_than <*lex*> less_than <*lex*> less_than" for n
proof
  show "wf (less_than <*lex*> less_than <*lex*> less_than <*lex*> less_than)" by (intro wf_lex_prod wf_less_than)
qed (use port_step_ok port_progress port_left_step in blast)+

section \<open>With completions arriving for ever\<close>
















lemma stop_example_cases: "k = 0 \<or> k = 1 \<or> k = 2 \<or> k = 3 \<or> (\<exists>j. k = Suc (Suc (Suc (Suc j))))"
  by (cases k; cases "k - 1"; cases "k - 2"; cases "k - 3") auto





section \<open>Properties\<close>



end
