(* ===== verification/Parallel_Exec.thy ===== *)
theory Parallel_Exec
  imports Ring "HOL-Library.Multiset"
begin

text \<open>
  \<open>ParallelExecutor\<close> of Floweryclover/ParallelExecutor.h: result pages of the worker threads and their
  iteration, and \<open>ParallelFor\<close> with the chunks that the threads claim from a shared counter, as steps of
  several threads.
\<close>

section \<open>Result pages\<close>

record thread_result =
  PageSize :: nat
  ElementCount :: nat
  Page :: buffer

definition new_thread_result :: thread_result where
  "new_thread_result = \<lparr>PageSize = 0, ElementCount = 0, Page = []\<rparr>"

text \<open>\<open>ExtendPageAtLeast\<close>; it does not return if the base size is 0.\<close>

partial_function (option) ExtendPageAtLeast :: "nat \<Rightarrow> thread_result \<Rightarrow> nat \<Rightarrow> thread_result res option" where
  "ExtendPageAtLeast WorkerThreadResultPageBaseSize r minSize =
     (if PageSize r < minSize
      then let oldSize = PageSize r;
               newSize = (if PageSize r = 0 then WorkerThreadResultPageBaseSize else PageSize r * 2)
           in bindO (Some (bindR (load_bytes (Page r) 0 oldSize) (\<lambda>old. store_bytes (replicate newSize 0) 0 old))) (\<lambda>newBlock.
                ExtendPageAtLeast WorkerThreadResultPageBaseSize (r\<lparr>Page := newBlock, PageSize := newSize\<rparr>) minSize)
      else Some (Inr r))"

text \<open>Appending a result, given by its bytes, in \<open>ParallelFor\<close>; \<open>sz\<close> is \<open>sizeof(TExecutionResult)\<close>.\<close>

definition append_result :: "nat \<Rightarrow> nat \<Rightarrow> u8 list \<Rightarrow> thread_result \<Rightarrow> thread_result res option" where
  "append_result base sz x r =
     bindO (ExtendPageAtLeast base r (sz * (ElementCount r + 1))) (\<lambda>r'.
       Some (bindR (store_bytes (Page r') (sz * ElementCount r') x) (\<lambda>p.
         Inr (r'\<lparr>Page := p, ElementCount := ElementCount r' + 1\<rparr>))))"

text \<open>Storing the result of a thread in \<open>ParallelForWorkerThreads\<close>.\<close>

definition store_single_result :: "nat \<Rightarrow> nat \<Rightarrow> u8 list option \<Rightarrow> thread_result \<Rightarrow> thread_result res option" where
  "store_single_result base sz result r =
     (case result of
        None \<Rightarrow> Some (Inr (r\<lparr>ElementCount := 0\<rparr>))
      | Some x \<Rightarrow>
          bindO (ExtendPageAtLeast base (r\<lparr>ElementCount := 0\<rparr>) sz) (\<lambda>r'.
            Some (bindR (store_bytes (Page r') sz x) (\<lambda>p. Inr (r'\<lparr>Page := p, ElementCount := 1\<rparr>)))))"

section \<open>Iteration\<close>

text \<open>
  An iterator is a thread index and an element index.  \<open>advance\<close> is the loop of \<open>operator++\<close>, and of
  \<open>begin\<close> from the first thread; the iteration ends when the thread index is out of range.
\<close>

function advance :: "thread_result list \<Rightarrow> nat \<Rightarrow> nat \<Rightarrow> nat \<times> nat" where
  "advance rs t e = (if t < length rs \<and> ElementCount (rs ! t) \<le> e then advance rs (Suc t) 0 else (t, e))"
  by auto
termination
  by (relation "measure (\<lambda>(rs, t, e). length rs - t)") auto

declare advance.simps [simp del]

lemma advance_cases:
  "advance rs t e = (t', e') \<Longrightarrow>
     (t' = t \<and> e' = e \<or> t < t' \<and> e' = 0) \<and> (t' < length rs \<longrightarrow> e' < ElementCount (rs ! t'))"
proof (induction rs t e rule: advance.induct)
  case (1 rs t e)
  then show ?case using advance.simps [of rs t e] by (auto split: if_splits)
qed

function iterate_results :: "nat \<Rightarrow> thread_result list \<Rightarrow> nat \<times> nat \<Rightarrow> u8 list list res" where
  "iterate_results sz rs (t, e) =
     (if length rs \<le> t then Inr []
      else bindR (load_bytes (Page (rs ! t)) (e * sz) sz) (\<lambda>x.
           bindR (iterate_results sz rs (advance rs t (Suc e))) (\<lambda>xs. Inr (x # xs))))"
  by auto
termination
proof (relation "measures [\<lambda>(sz, rs, t, e). length rs - t, \<lambda>(sz, rs, t, e). ElementCount (rs ! t) - e]", goal_cases)
  case 1
  then show ?case by simp
next
  case (2 sz rs t e x)
  obtain t' e' where a: "advance rs t (Suc e) = (t', e')" by fastforce
  from advance_cases [OF this] 2 show ?case
    by (cases "t' = t") (auto simp: a)
qed

definition begin_results :: "thread_result list \<Rightarrow> nat \<times> nat" where
  "begin_results rs = advance rs 0 0"

definition all_results :: "nat \<Rightarrow> thread_result list \<Rightarrow> u8 list list res" where
  "all_results sz rs = iterate_results sz rs (begin_results rs)"

section \<open>Work\<close>

text \<open>
  The range a thread claims: \<open>fetch_add\<close> gives the old value of the 32-bit counter, which the code
  takes as the end of the chunk; the begin is computed in 64 bits and cast.
\<close>

definition claim :: "u32 \<Rightarrow> nat \<Rightarrow> u32 \<times> u32" where
  "claim workIndex chunkSize =
     (let workEnd = workIndex; workBegin = sub64 (unat workEnd) chunkSize in (of_nat workBegin, workEnd))"

text \<open>
  A thread waits for its flag, claims a range, works through it, and is finished at the first index
  without an axis; then it clears its flag.  \<open>executed\<close> are the indices for which it called the task.
\<close>

datatype work_pc = Parked | Claiming | InChunk u32 u32 | Finished

record executor =
  workIndex :: u32
  phase :: "nat \<Rightarrow> work_pc"
  WorkingFlag :: "nat \<Rightarrow> bool"
  results :: "nat \<Rightarrow> thread_result"
  executed :: "nat \<Rightarrow> u32 list"

text \<open>What \<open>ParallelFor\<close> has done when it starts to wait for the flags.\<close>

definition start_parallel_for :: "(nat \<Rightarrow> thread_result) \<Rightarrow> executor" where
  "start_parallel_for old = \<lparr>workIndex = 0, phase = (\<lambda>t. Parked), WorkingFlag = (\<lambda>t. True),
     results = (\<lambda>t. (old t)\<lparr>ElementCount := 0\<rparr>), executed = (\<lambda>t. [])\<rparr>"

record 'x job =
  getAxis :: "u32 \<Rightarrow> 'x option"
  task :: "'x \<Rightarrow> u8 list option"
  chunk :: nat
  base_size :: nat
  result_size :: nat

definition run_task :: "'x job \<Rightarrow> 'x \<Rightarrow> thread_result \<Rightarrow> thread_result res option" where
  "run_task j axis r =
     (case task j axis of None \<Rightarrow> Some (Inr r) | Some x \<Rightarrow> append_result (base_size j) (result_size j) x r)"

inductive work_step :: "'x job \<Rightarrow> nat \<Rightarrow> executor \<Rightarrow> executor \<Rightarrow> bool" for j n where
  wake: "t < n \<Longrightarrow> phase s t = Parked \<Longrightarrow> WorkingFlag s t \<Longrightarrow>
    work_step j n s (s\<lparr>phase := (phase s)(t := Claiming)\<rparr>)"
| fetch: "t < n \<Longrightarrow> phase s t = Claiming \<Longrightarrow> claim (workIndex s) (chunk j) = (i, e) \<Longrightarrow>
    work_step j n s (s\<lparr>workIndex := workIndex s + of_nat (chunk j), phase := (phase s)(t := InChunk i e)\<rparr>)"
| chunk_done: "t < n \<Longrightarrow> phase s t = InChunk i e \<Longrightarrow> \<not> i < e \<Longrightarrow>
    work_step j n s (s\<lparr>phase := (phase s)(t := Claiming)\<rparr>)"
| no_axis: "t < n \<Longrightarrow> phase s t = InChunk i e \<Longrightarrow> i < e \<Longrightarrow> getAxis j i = None \<Longrightarrow>
    work_step j n s (s\<lparr>phase := (phase s)(t := Finished)\<rparr>)"
| execute: "t < n \<Longrightarrow> phase s t = InChunk i e \<Longrightarrow> i < e \<Longrightarrow> getAxis j i = Some axis \<Longrightarrow>
    run_task j axis (results s t) = Some (Inr r) \<Longrightarrow>
    work_step j n s (s\<lparr>phase := (phase s)(t := InChunk (i + 1) e), results := (results s)(t := r),
      executed := (executed s)(t := executed s t @ [i])\<rparr>)"
| signal: "t < n \<Longrightarrow> phase s t = Finished \<Longrightarrow>
    work_step j n s (s\<lparr>phase := (phase s)(t := Parked), WorkingFlag := (WorkingFlag s)(t := False)\<rparr>)"

text \<open>\<open>ParallelFor\<close> returns when every flag is cleared.\<close>

definition parallel_for_returns :: "nat \<Rightarrow> executor \<Rightarrow> bool" where
  "parallel_for_returns n s \<longleftrightarrow> (\<forall>t<n. \<not> WorkingFlag s t)"

section \<open>Pages hold results\<close>

definition page_holds :: "nat \<Rightarrow> thread_result \<Rightarrow> u8 list list \<Rightarrow> bool" where
  "page_holds sz r xs \<longleftrightarrow> length (Page r) = PageSize r \<and> ElementCount r = length xs \<and>
     (\<forall>x\<in>set xs. length x = sz) \<and> sz * length xs \<le> PageSize r \<and> take (sz * length xs) (Page r) = concat xs"

lemma extend_spec:
  assumes "0 < base"
  shows "length (Page r) = PageSize r \<Longrightarrow>
    \<exists>P. ExtendPageAtLeast base r m = Some (Inr (r\<lparr>Page := P, PageSize := length P\<rparr>)) \<and>
      m \<le> length P \<and> PageSize r \<le> length P \<and> take (PageSize r) P = Page r"
proof (induction "m - PageSize r" arbitrary: r rule: less_induct)
  case less
  show ?case
  proof (cases "PageSize r < m")
    case False
    then have "ExtendPageAtLeast base r m = Some (Inr r)" by (subst ExtendPageAtLeast.simps) simp
    then show ?thesis using False less.prems by (intro exI [of _ "Page r"]) simp
  next
    case True
    define n where "n = (if PageSize r = 0 then base else PageSize r * 2)"
    define B where "B = Page r @ replicate (n - PageSize r) (0::u8)"
    have n: "PageSize r < n" "PageSize r \<le> n" using assms by (auto simp: n_def)
    have B: "length B = n" "take (PageSize r) B = Page r" using less.prems n by (simp_all add: B_def)
    have "bindR (load_bytes (Page r) 0 (PageSize r)) (\<lambda>old. store_bytes (replicate n 0) 0 old) = Inr B"
      using less.prems n by (simp add: load_bytes_def store_bytes_def B_def)
    then have e: "ExtendPageAtLeast base r m = ExtendPageAtLeast base (r\<lparr>Page := B, PageSize := n\<rparr>) m"
      using True by (subst ExtendPageAtLeast.simps) (simp add: Let_def n_def [symmetric])
    let ?r = "r\<lparr>Page := B, PageSize := n\<rparr>"
    have "m - PageSize ?r < m - PageSize r" using n True by simp
    from less.hyps [OF this] B obtain P where P: "ExtendPageAtLeast base ?r m = Some (Inr (?r\<lparr>Page := P, PageSize := length P\<rparr>))"
      "m \<le> length P" "n \<le> length P" "take n P = B" by auto
    have "take (PageSize r) P = take (PageSize r) (take n P)" using n by simp
    then have "take (PageSize r) P = Page r" using P(4) B(2) by simp
    then show ?thesis using e P n by (intro exI [of _ P]) simp
  qed
qed

lemma append_spec:
  assumes "page_holds sz r xs" and "length x = sz" and "0 < base"
  shows "\<exists>r'. append_result base sz x r = Some (Inr r') \<and> page_holds sz r' (xs @ [x])"
proof -
  have l: "length (Page r) = PageSize r" using assms(1) by (simp add: page_holds_def)
  let ?m = "sz * (ElementCount r + 1)" and ?k = "sz * length xs"
  obtain P where P: "ExtendPageAtLeast base r ?m = Some (Inr (r\<lparr>Page := P, PageSize := length P\<rparr>))"
    "?m \<le> length P" "PageSize r \<le> length P" "take (PageSize r) P = Page r"
    using extend_spec [OF assms(3) l] by blast
  have c: "ElementCount r = length xs" "?k \<le> PageSize r" "take ?k (Page r) = concat xs"
    using assms(1) by (simp_all add: page_holds_def)
  have "take ?k P = take ?k (take (PageSize r) P)" using c(2) by simp
  then have tk: "take ?k P = concat xs" using P(4) c(3) by simp
  let ?Q = "take ?k P @ x @ drop (?k + sz) P"
  have fit: "?k + sz \<le> length P" using P(2) c(1) by simp
  have lc: "length (concat xs) = ?k" using arg_cong [OF tk, of length] fit by simp
  have "store_bytes P ?k x = Inr ?Q" using fit assms(2) by (simp add: store_bytes_def)
  then have "append_result base sz x r = Some (Inr (r\<lparr>Page := ?Q, PageSize := length P, ElementCount := Suc (length xs)\<rparr>))"
    using P(1) c(1) by (simp add: append_result_def)
  moreover have "page_holds sz (r\<lparr>Page := ?Q, PageSize := length P, ElementCount := Suc (length xs)\<rparr>) (xs @ [x])"
    using assms(1,2) fit tk lc by (simp add: page_holds_def add.commute)
  ultimately show ?thesis by blast
qed

lemma concat_slice:
  "\<forall>x\<in>set xs. length x = sz \<Longrightarrow> i < length xs \<Longrightarrow> take sz (drop (i * sz) (concat xs)) = xs ! i"
  by (induction xs arbitrary: i) (auto simp: nth_Cons split: nat.splits)

lemma load_element:
  assumes "page_holds sz r xs" and "e < length xs"
  shows "load_bytes (Page r) (e * sz) sz = Inr (xs ! e)"
proof -
  let ?k = "sz * length xs"
  have le: "e * sz + sz \<le> ?k" using assms(2) mult_le_mono2 [of "Suc e" "length xs" sz] by (simp add: mult.commute add.commute)
  have K: "?k \<le> length (Page r)" "take ?k (Page r) = concat xs" "\<forall>x\<in>set xs. length x = sz"
    using assms(1) by (simp_all add: page_holds_def)
  have "take sz (drop (e * sz) (Page r)) = take sz (drop (e * sz) (take ?k (Page r)))"
    using le by (simp add: drop_take min_def)
  also have "\<dots> = xs ! e" using concat_slice [OF K(3) assms(2)] K(2) by simp
  finally show ?thesis using le K(1) by (simp add: load_bytes_def)
qed

lemma iterate_spec:
  assumes "length xss = length rs" and "\<And>t. t < length rs \<Longrightarrow> page_holds sz (rs ! t) (xss ! t)"
  shows "iterate_results sz rs (advance rs t e) =
    Inr (if t < length rs then drop e (xss ! t) @ concat (drop (Suc t) xss) else [])"
proof (induction "length (drop e (xss ! t) @ concat (drop (Suc t) xss)) + (length rs - t)" arbitrary: t e rule: less_induct)
  case less
  show ?case
  proof (cases "t < length rs")
    case False
    then show ?thesis by (simp add: advance.simps [of rs t e])
  next
    case t: True
    have c: "ElementCount (rs ! t) = length (xss ! t)" using assms(2) [OF t] by (simp add: page_holds_def)
    show ?thesis
    proof (cases "length (xss ! t) \<le> e")
      case True
      then have a: "advance rs t e = advance rs (Suc t) 0" using t c by (simp add: advance.simps [of rs t e])
      have d: "concat (drop (Suc t) xss) = (if Suc t < length rs then xss ! Suc t @ concat (drop (Suc (Suc t)) xss) else [])"
        using assms(1) by (auto simp flip: Cons_nth_drop_Suc)
      have "iterate_results sz rs (advance rs (Suc t) 0) =
          Inr (if Suc t < length rs then drop 0 (xss ! Suc t) @ concat (drop (Suc (Suc t)) xss) else [])"
      proof (cases "Suc t < length rs")
        case True
        show ?thesis by (rule less.hyps) (use d True t \<open>length (xss ! t) \<le> e\<close> in simp)
      qed (simp add: advance.simps [of rs "Suc t" 0])
      then show ?thesis using a t True d by simp
    next
      case False
      then have a: "advance rs t e = (t, e)" using t c by (simp add: advance.simps [of rs t e])
      have "iterate_results sz rs (advance rs t (Suc e)) =
          Inr (if t < length rs then drop (Suc e) (xss ! t) @ concat (drop (Suc t) xss) else [])"
        by (rule less.hyps) (use False in simp)
      then show ?thesis using a t False load_element [OF assms(2) [OF t], of e]
        by (simp flip: Cons_nth_drop_Suc)
    qed
  qed
qed

lemma all_results_spec:
  assumes "length xss = length rs" and "\<And>t. t < length rs \<Longrightarrow> page_holds sz (rs ! t) (xss ! t)"
  shows "all_results sz rs = Inr (concat xss)"
  using iterate_spec [OF assms, of 0 0] assms(1)
  by (cases xss; cases rs) (simp_all add: all_results_def begin_results_def)

section \<open>Every index once\<close>

definition index_span :: "executor \<Rightarrow> nat \<Rightarrow> nat set" where
  "index_span s t = (case phase s t of InChunk i e \<Rightarrow> {unat i..<unat e} | _ \<Rightarrow> {})"

definition done_by :: "executor \<Rightarrow> nat \<Rightarrow> nat set" where
  "done_by s t = unat ` set (executed s t)"

definition own :: "executor \<Rightarrow> nat \<Rightarrow> nat set" where
  "own s t = done_by s t \<union> index_span s t"

text \<open>A thread that will not claim another range.\<close>

definition over :: "nat \<Rightarrow> executor \<Rightarrow> nat \<Rightarrow> bool" where
  "over N s t \<longleftrightarrow> phase s t = Finished \<or> \<not> WorkingFlag s t \<or> (\<exists>i e. phase s t = InChunk i e \<and> N < unat e)"

definition claims_ok :: "'x job \<Rightarrow> nat \<Rightarrow> nat \<Rightarrow> executor \<Rightarrow> bool" where
  "claims_ok j n N s \<longleftrightarrow>
     (\<exists>k. unat (workIndex s) = k * chunk j) \<and>
     (\<forall>t<n. \<forall>i e. phase s t = InChunk i e \<longrightarrow> unat e + chunk j \<le> unat (workIndex s) \<and> (N < unat e \<longrightarrow> i < e)) \<and>
     (\<forall>t<n. phase s t = Finished \<or> \<not> WorkingFlag s t \<longrightarrow> N + chunk j \<le> unat (workIndex s)) \<and>
     (\<forall>t<n. \<not> WorkingFlag s t \<longrightarrow> phase s t = Parked)"

definition owns_ok :: "'x job \<Rightarrow> nat \<Rightarrow> nat \<Rightarrow> executor \<Rightarrow> bool" where
  "owns_ok j n N s \<longleftrightarrow>
     (\<forall>t<n. distinct (executed s t) \<and> done_by s t \<inter> index_span s t = {} \<and> done_by s t \<subseteq> {..<N}) \<and>
     (\<forall>t<n. \<forall>a\<in>own s t. a + chunk j < unat (workIndex s)) \<and>
     (\<forall>t<n. \<forall>u<n. t \<noteq> u \<longrightarrow> own s t \<inter> own s u = {}) \<and>
     (\<forall>a<N. a + chunk j < unat (workIndex s) \<longrightarrow> (\<exists>t<n. a \<in> own s t))"

definition counter_ok :: "'x job \<Rightarrow> nat \<Rightarrow> nat \<Rightarrow> executor \<Rightarrow> bool" where
  "counter_ok j n N s \<longleftrightarrow>
     unat (workIndex s) \<le> N + chunk j + chunk j * card {t. t < n \<and> over N s t}"

text \<open>The counter and the sizes stay far from wrapping around.\<close>

definition job_ok :: "'x job \<Rightarrow> nat \<Rightarrow> nat \<Rightarrow> bool" where
  "job_ok j n N \<longleftrightarrow> 0 < chunk j \<and> N + (n + 2) * chunk j < 2 ^ 32 \<and>
     (\<forall>i. getAxis j i \<noteq> None \<longleftrightarrow> unat i < N) \<and> 0 < base_size j \<and>
     (\<forall>x r. task j x = Some r \<longrightarrow> length r = result_size j)"

lemma unat_u32: "unat (w::u32) < 2 ^ 32"
  using unsigned_less [of w] by simp

lemma claim_eq:
  assumes "0 < c" and "c < 2 ^ 32"
  shows "claim w c = (if c \<le> unat w then (of_nat (unat w - c), w) else (of_nat (unat w + 2 ^ 64 - c), w))"
proof -
  have w: "unat w < 2 ^ 32" by (rule unat_u32)
  show ?thesis
  proof (cases "c \<le> unat w")
    case True
    then show ?thesis using w sub64_eq [of c "unat w"] by (simp add: claim_def Let_def)
  next
    case False
    then have "unat w + 2 ^ 64 - c < 2 ^ 64" using assms by simp
    then show ?thesis using False by (simp add: claim_def Let_def sub64_def)
  qed
qed

lemma counter_bound:
  assumes "counter_ok j n N s" and "job_ok j n N"
  shows "unat (workIndex s) + chunk j < 2 ^ 32"
    "unat (workIndex s + of_nat (chunk j)) = unat (workIndex s) + chunk j"
proof -
  have "card {t. t < n \<and> over N s t} \<le> card {..<n}" by (intro card_mono) auto
  then have "card {t. t < n \<and> over N s t} \<le> n" by simp
  from mult_le_mono2 [OF this, of "chunk j"]
  have b: "unat (workIndex s) \<le> N + chunk j + chunk j * n"
    using assms(1) unfolding counter_ok_def by linarith
  then show a: "unat (workIndex s) + chunk j < 2 ^ 32" using assms(2) by (simp add: job_ok_def algebra_simps)
  then have "unat (of_nat (chunk j) :: u32) = chunk j" by (simp add: unsigned_of_nat take_bit_nat_eq_self)
  then show "unat (workIndex s + of_nat (chunk j)) = unat (workIndex s) + chunk j"
    using a by (simp add: unat_word_ariths)
qed

text \<open>A claimed range is either empty or the last \<open>chunk\<close> indices below the counter.\<close>

lemma claimed_range:
  assumes "claims_ok j n N s" and "counter_ok j n N s" and "job_ok j n N"
    and "claim (workIndex s) (chunk j) = (i, e)"
  shows "e = workIndex s" "unat (workIndex s) = 0 \<or> chunk j \<le> unat (workIndex s) \<and> unat i = unat (workIndex s) - chunk j"
proof -
  obtain k where k: "unat (workIndex s) = k * chunk j" using assms(1) by (auto simp: claims_ok_def)
  have c: "0 < chunk j" "chunk j < 2 ^ 32" using assms(3) by (auto simp: job_ok_def)
  note C = claim_eq [OF c, of "workIndex s"]
  show "e = workIndex s" using assms(4) C by (simp split: if_splits)
  show "unat (workIndex s) = 0 \<or> chunk j \<le> unat (workIndex s) \<and> unat i = unat (workIndex s) - chunk j"
  proof (cases "k = 0")
    case True
    then show ?thesis using k by simp
  next
    case False
    then have le: "chunk j \<le> unat (workIndex s)" using k by (cases k) auto
    have "claim (workIndex s) (chunk j) = (of_nat (unat (workIndex s) - chunk j), workIndex s)"
      using C le by (simp only: if_True)
    then have "i = of_nat (unat (workIndex s) - chunk j)" unfolding assms(4) by (simp only: prod.inject)
    moreover have "unat (workIndex s) - chunk j < 2 ^ 32" using unat_u32 [of "workIndex s"] by linarith
    ultimately have "unat i = unat (workIndex s) - chunk j"
      by (simp only: unsigned_of_nat take_bit_nat_eq_self) (simp add: take_bit_nat_eq_self)
    then show ?thesis using le by simp
  qed
qed

lemma claims_start: "job_ok j n N \<Longrightarrow> claims_ok j n N (start_parallel_for old) \<and>
    owns_ok j n N (start_parallel_for old) \<and> counter_ok j n N (start_parallel_for old)"
  by (auto simp: claims_ok_def owns_ok_def counter_ok_def start_parallel_for_def own_def done_by_def index_span_def
      intro: exI [of _ 0])

lemma unat_plus_1:
  assumes "i < (e::u32)"
  shows "unat (i + 1) = unat i + 1"
proof -
  have "unat i + 1 < 2 ^ 32" using assms unat_u32 [of e] by (simp add: word_less_nat_alt)
  then show ?thesis by (simp add: unat_word_ariths)
qed

text \<open>The phase of one thread after a step, and the rest of the state.\<close>

lemma claims_step:
  assumes "work_step j n s s'" and "claims_ok j n N s" and "counter_ok j n N s" and "job_ok j n N"
  shows "claims_ok j n N s'"
  using assms(1)
proof cases
  case (wake t)
  then show ?thesis using assms(2) by (auto simp: claims_ok_def)
next
  case (fetch t i e)
  note R = claimed_range [OF assms(2-4) fetch(4)]
  have "unat i < unat e" if "N < unat e" using R that assms(4) by (auto simp: job_ok_def)
  moreover obtain k where "unat (workIndex s) = k * chunk j" using assms(2) by (auto simp: claims_ok_def)
  then have "\<exists>k. unat (workIndex s + of_nat (chunk j)) = k * chunk j"
    using counter_bound(2) [OF assms(3,4)] by (intro exI [of _ "k + 1"]) simp
  ultimately show ?thesis using assms(2) fetch R(1) counter_bound(2) [OF assms(3,4)]
    unfolding claims_ok_def by (auto simp: word_less_nat_alt)
next
  case (chunk_done t i e)
  then show ?thesis using assms(2) by (auto simp: claims_ok_def)
next
  case (no_axis t i e)
  have "N \<le> unat i" using no_axis(5) assms(4) by (auto simp: job_ok_def) (metis not_less option.distinct(1))
  moreover have "unat i < unat e" using no_axis(4) by (simp add: word_less_nat_alt)
  moreover have "unat e + chunk j \<le> unat (workIndex s)" using assms(2) no_axis(2,3) by (auto simp: claims_ok_def)
  ultimately show ?thesis using assms(2) no_axis by (auto simp: claims_ok_def)
next
  case (execute t i e axis r)
  have "unat i < N" using execute(5) assms(4) by (auto simp: job_ok_def)
  then show ?thesis using assms(2) execute unat_plus_1 [OF execute(4)]
    by (auto simp: claims_ok_def word_less_nat_alt)
next
  case (signal t)
  then show ?thesis using assms(2) by (auto simp: claims_ok_def)
qed


lemma owns_keep:
  assumes "owns_ok j n N s" and "workIndex s' = workIndex s"
    and "\<And>u. own s' u \<subseteq> own s u" and "\<And>u. own s u \<inter> {..<N} \<subseteq> own s' u"
    and "\<And>u. u < n \<Longrightarrow> distinct (executed s' u) \<and> done_by s' u \<inter> index_span s' u = {} \<and> done_by s' u \<subseteq> {..<N}"
  shows "owns_ok j n N s'"
  unfolding owns_ok_def assms(2)
proof (intro conjI allI impI ballI)
  show "a + chunk j < unat (workIndex s)" if "t < n" "a \<in> own s' t" for t a
    using assms(1,3) that unfolding owns_ok_def by blast
  show "own s' t \<inter> own s' u = {}" if "t < n" "u < n" "t \<noteq> u" for t u
    using assms(1) assms(3) [of t] assms(3) [of u] that unfolding owns_ok_def by blast
  show "\<exists>t<n. a \<in> own s' t" if a: "a < N" "a + chunk j < unat (workIndex s)" for a
  proof -
    obtain t where "t < n" "a \<in> own s t" using assms(1) a unfolding owns_ok_def by blast
    then show ?thesis using assms(4) [of t] a(1) by blast
  qed
qed (use assms(5) in blast)+

lemma own_here:
  assumes "owns_ok j n N s" and "t < n"
  shows "distinct (executed s t) \<and> done_by s t \<inter> index_span s t = {} \<and> done_by s t \<subseteq> {..<N}"
  using assms unfolding owns_ok_def by blast

text \<open>A range that is claimed extends what the thread owns by the next indices.\<close>

lemma owns_fetch:
  assumes O: "owns_ok j n N s" and t: "t < n" and c: "0 < chunk j"
    and own: "\<And>u. own s' u = (if u = t then own s t \<union> R else own s u)"
    and R: "R = (if chunk j \<le> unat (workIndex s) then {unat (workIndex s) - chunk j..<unat (workIndex s)} else {})"
    and W: "unat (workIndex s') = unat (workIndex s) + chunk j" "chunk j \<le> unat (workIndex s) \<or> unat (workIndex s) = 0"
    and ex: "\<And>u. executed s' u = executed s u" "index_span s t = {}" "\<And>u. index_span s' u = (if u = t then R else index_span s u)"
  shows "owns_ok j n N s'"
  unfolding owns_ok_def W(1)
proof (intro conjI allI impI ballI)
  have below: "a + chunk j < unat (workIndex s)" if "u < n" "a \<in> own s u" for u a
    using O that unfolding owns_ok_def by blast
  then have new: "own s u \<inter> R = {}" if "u < n" for u
    using that by (fastforce simp: R split: if_splits)
  show "a + chunk j < unat (workIndex s) + chunk j" if "u < n" "a \<in> own s' u" for u a
    using below [of u a] that c by (auto simp: own R split: if_splits)
  show "own s' u \<inter> own s' v = {}" if "u < n" "v < n" "u \<noteq> v" for u v
  proof -
    have "own s u \<inter> own s v = {}" using O that unfolding owns_ok_def by blast
    then show ?thesis using new [OF that(1)] new [OF that(2)] that(3) by (auto simp: own)
  qed
  show "\<exists>u<n. a \<in> own s' u" if a: "a < N" "a + chunk j < unat (workIndex s) + chunk j" for a
  proof (cases "a + chunk j < unat (workIndex s)")
    case True
    then obtain u where "u < n" "a \<in> own s u" using O a(1) unfolding owns_ok_def by blast
    then show ?thesis using own [of u] by (intro exI [of _ u]) auto
  next
    case False
    then have "a \<in> R" using a(2) W(2) by (auto simp: R)
    then show ?thesis using t own by auto
  qed
  show "distinct (executed s' u)" if "u < n" for u using own_here [OF O that] ex(1) by simp
  show "done_by s' u \<subseteq> {..<N}" if "u < n" for u using own_here [OF O that] ex(1) by (simp add: done_by_def)
  show "done_by s' u \<inter> index_span s' u = {}" if "u < n" for u
    using own_here [OF O that] new [OF that] ex by (auto simp: done_by_def own_def)
qed

lemma owns_step:
  assumes "work_step j n s s'" and "claims_ok j n N s" and "counter_ok j n N s" and "job_ok j n N"
    and O: "owns_ok j n N s"
  shows "owns_ok j n N s'"
  using assms(1)
proof cases
  case (wake t)
  then show ?thesis using own_here [OF O]
    by (intro owns_keep [OF O]) (auto simp: own_def done_by_def index_span_def)
next
  case (fetch t i e)
  note R = claimed_range [OF assms(2-4) fetch(4)]
  have c: "0 < chunk j" using assms(4) by (simp add: job_ok_def)
  have span: "{unat i..<unat e} = (if chunk j \<le> unat (workIndex s) then {unat (workIndex s) - chunk j..<unat (workIndex s)} else {})"
    using R c by auto
  show ?thesis
    by (rule owns_fetch [OF O fetch(2) c _ span])
      (use R fetch counter_bound(2) [OF assms(3,4)] in \<open>auto simp: own_def done_by_def index_span_def\<close>)
next
  case (chunk_done t i e)
  then show ?thesis using own_here [OF O]
    by (intro owns_keep [OF O]) (auto simp: own_def done_by_def index_span_def word_less_nat_alt)
next
  case (no_axis t i e)
  have "N \<le> unat i" using no_axis(5) assms(4) by (auto simp: job_ok_def) (metis not_less option.distinct(1))
  then show ?thesis using no_axis own_here [OF O]
    by (intro owns_keep [OF O]) (auto simp: own_def done_by_def index_span_def)
next
  case (execute t i e axis r)
  have N: "unat i < N" using execute(5) assms(4) by (auto simp: job_ok_def)
  have I: "unat (i + 1) = unat i + 1" using unat_plus_1 [OF execute(4)] .
  have le: "unat i < unat e" using execute(4) by (simp add: word_less_nat_alt)
  have sp: "index_span s t = {unat i..<unat e}" using execute(3) by (simp add: index_span_def)
  have iN: "unat i \<notin> done_by s t" using own_here [OF O execute(2)] sp le by auto
  have own: "own s' u = own s u" for u
    using execute(1,3) I le by (auto simp: own_def done_by_def index_span_def)
  have "distinct (executed s' u) \<and> done_by s' u \<inter> index_span s' u = {} \<and> done_by s' u \<subseteq> {..<N}" if "u < n" for u
    using own_here [OF O that] execute(1) iN N sp I by (auto simp: done_by_def index_span_def)
  then show ?thesis using execute(1) own by (intro owns_keep [OF O]) auto
next
  case (signal t)
  then show ?thesis using own_here [OF O]
    by (intro owns_keep [OF O]) (auto simp: own_def done_by_def index_span_def)
qed


lemma counter_keep:
  assumes "counter_ok j n N s" and "workIndex s' = workIndex s" and "\<And>u. over N s u \<Longrightarrow> over N s' u"
  shows "counter_ok j n N s'"
proof -
  have "card {t. t < n \<and> over N s t} \<le> card {t. t < n \<and> over N s' t}"
    using assms(3) by (intro card_mono) auto
  from mult_le_mono2 [OF this, of "chunk j"] show ?thesis
    using assms(1) unfolding counter_ok_def assms(2) by linarith
qed

lemma counter_step:
  assumes "work_step j n s s'" and "claims_ok j n N s" and K: "counter_ok j n N s" and "job_ok j n N"
  shows "counter_ok j n N s'"
  using assms(1)
proof cases
  case (fetch t i e)
  note R = claimed_range [OF assms(2-4) fetch(4)] and B = counter_bound(2) [OF K assms(4)]
  show ?thesis
  proof (cases "unat (workIndex s) \<le> N")
    case True
    then show ?thesis using fetch(1) B unfolding counter_ok_def by simp
  next
    case False
    have "WorkingFlag s t" using assms(2) fetch(2,3) unfolding claims_ok_def by force
    then have "\<not> over N s t" using fetch(3) by (simp add: over_def)
    moreover have "over N s' u \<longleftrightarrow> u = t \<or> over N s u" for u using False fetch(1) R(1) by (auto simp: over_def)
    then have "{u. u < n \<and> over N s' u} = insert t {u. u < n \<and> over N s u}" using fetch(2) by auto
    ultimately have "card {u. u < n \<and> over N s' u} = Suc (card {u. u < n \<and> over N s u})" by simp
    then show ?thesis using K fetch(1) B unfolding counter_ok_def by simp
  qed
next
  case (chunk_done t i e)
  then have "\<not> N < unat e" using assms(2) unfolding claims_ok_def by blast
  then show ?thesis using chunk_done by (intro counter_keep [OF K]) (auto simp: over_def)
next
  case (wake t)
  then show ?thesis by (intro counter_keep [OF K]) (auto simp: over_def)
next
  case (no_axis t i e)
  then show ?thesis by (intro counter_keep [OF K]) (auto simp: over_def)
next
  case (execute t i e axis r)
  then show ?thesis by (intro counter_keep [OF K]) (auto simp: over_def)
next
  case (signal t)
  then show ?thesis by (intro counter_keep [OF K]) (auto simp: over_def)
qed

section \<open>Results\<close>

text \<open>The results that the code keeps for a list of indices.\<close>

definition results_of :: "'x job \<Rightarrow> u32 list \<Rightarrow> u8 list list" where
  "results_of j is = List.map_filter (\<lambda>i. Option.bind (getAxis j i) (task j)) is"

definition results_ok :: "'x job \<Rightarrow> nat \<Rightarrow> executor \<Rightarrow> bool" where
  "results_ok j n s \<longleftrightarrow> (\<forall>t<n. page_holds (result_size j) (results s t) (results_of j (executed s t)))"

lemma run_task_spec:
  assumes "page_holds (result_size j) r xs" and "job_ok j n N" and "getAxis j i = Some axis"
  shows "\<exists>r'. run_task j axis r = Some (Inr r') \<and> page_holds (result_size j) r' (xs @ results_of j [i])"
proof (cases "task j axis")
  case None
  then show ?thesis using assms by (simp add: run_task_def results_of_def List.map_filter_def)
next
  case (Some x)
  have "length x = result_size j" "0 < base_size j" using assms(2) Some by (auto simp: job_ok_def)
  from append_spec [OF assms(1) this] show ?thesis
    using assms(3) Some by (simp add: run_task_def results_of_def List.map_filter_def)
qed

lemma results_of_append: "results_of j (is @ js) = results_of j is @ results_of j js"
  by (simp add: results_of_def List.map_filter_def)

lemma results_step:
  assumes "work_step j n s s'" and "job_ok j n N" and R: "results_ok j n s"
  shows "results_ok j n s'"
  using assms(1)
proof cases
  case (execute t i e axis r)
  have "page_holds (result_size j) (results s t) (results_of j (executed s t))"
    using R execute(2) by (simp add: results_ok_def)
  from run_task_spec [OF this assms(2) execute(5)] execute(6)
  have "page_holds (result_size j) r (results_of j (executed s t @ [i]))" by (simp add: results_of_append)
  then show ?thesis using R execute(1) by (simp add: results_ok_def)
qed (use R in \<open>simp_all add: results_ok_def\<close>)

definition exec_ok :: "'x job \<Rightarrow> nat \<Rightarrow> nat \<Rightarrow> executor \<Rightarrow> bool" where
  "exec_ok j n N s \<longleftrightarrow> claims_ok j n N s \<and> owns_ok j n N s \<and> counter_ok j n N s \<and> results_ok j n s"

text \<open>The pages of an earlier call are still there, with other contents.\<close>

definition pages_ok :: "nat \<Rightarrow> (nat \<Rightarrow> thread_result) \<Rightarrow> bool" where
  "pages_ok n old \<longleftrightarrow> (\<forall>t<n. length (Page (old t)) = PageSize (old t))"

lemma exec_ok_start:
  assumes "job_ok j n N" and "pages_ok n old"
  shows "exec_ok j n N (start_parallel_for old)"
proof -
  have "results_ok j n (start_parallel_for old)" using assms(2)
    by (simp add: results_ok_def start_parallel_for_def page_holds_def results_of_def List.map_filter_def pages_ok_def)
  then show ?thesis using claims_start [OF assms(1)] unfolding exec_ok_def by blast
qed

lemma exec_ok_step:
  assumes "work_step j n s s'" and "job_ok j n N" and "exec_ok j n N s"
  shows "exec_ok j n N s'"
  using claims_step [OF assms(1)] owns_step [OF assms(1)] counter_step [OF assms(1)] results_step [OF assms(1)] assms(2,3)
  unfolding exec_ok_def by blast

section \<open>What a call delivers\<close>

text \<open>The indices a call has executed, thread by thread, and the results in the order of the iteration.\<close>

definition all_executed :: "nat \<Rightarrow> executor \<Rightarrow> u32 list" where
  "all_executed n s = concat (map (executed s) [0..<n])"

definition result_list :: "'x job \<Rightarrow> nat \<Rightarrow> executor \<Rightarrow> u8 list list res" where
  "result_list j n s = all_results (result_size j) (map (results s) [0..<n])"

lemma distinct_concat_upt:
  assumes "\<And>t. t < n \<Longrightarrow> distinct (f t)" and "\<And>t u. t < n \<Longrightarrow> u < n \<Longrightarrow> t \<noteq> u \<Longrightarrow> set (f t) \<inter> set (f u) = {}"
  shows "distinct (concat (map f [0..<n]))"
  using assms
proof (induction n)
  case (Suc n)
  have "x \<notin> set (f n)" if "t < n" "x \<in> set (f t)" for x t using Suc.prems(2) [of t n] that by auto
  moreover have "distinct (concat (map f [0..<n]))" using Suc by simp
  ultimately show ?case using Suc.prems(1) [of n] by auto
qed simp

lemma distinct_executed:
  assumes "owns_ok j n N s"
  shows "distinct (all_executed n s)" and "unat ` set (all_executed n s) \<subseteq> {..<N}"
proof -
  have "set (executed s t) \<inter> set (executed s u) = {}" if "t < n" "u < n" "t \<noteq> u" for t u
  proof -
    have "own s t \<inter> own s u = {}" using assms that unfolding owns_ok_def by blast
    then show ?thesis unfolding own_def done_by_def by blast
  qed
  then show "distinct (all_executed n s)" unfolding all_executed_def
    using own_here [OF assms] by (intro distinct_concat_upt) blast+
  show "unat ` set (all_executed n s) \<subseteq> {..<N}"
    using own_here [OF assms] by (fastforce simp: all_executed_def done_by_def)
qed

lemma results_of_concat: "results_of j (concat xs) = concat (map (results_of j) xs)"
  by (induction xs) (simp_all add: results_of_append, simp add: results_of_def List.map_filter_def)

lemma result_list_spec:
  assumes "results_ok j n s"
  shows "result_list j n s = Inr (results_of j (all_executed n s))"
proof -
  let ?rs = "map (results s) [0..<n]" and ?xss = "map (\<lambda>t. results_of j (executed s t)) [0..<n]"
  have "all_results (result_size j) ?rs = Inr (concat ?xss)"
    by (rule all_results_spec) (use assms in \<open>simp_all add: results_ok_def\<close>)
  then show ?thesis by (simp add: result_list_def all_executed_def results_of_concat comp_def)
qed

lemma executed_at_return:
  assumes "exec_ok j n N s" and "parallel_for_returns n s" and "0 < n" and "job_ok j n N"
  shows "mset (map unat (all_executed n s)) = mset [0..<N]"
proof -
  have O: "owns_ok j n N s" and C: "claims_ok j n N s" using assms(1) by (simp_all add: exec_ok_def)
  have W: "N + chunk j \<le> unat (workIndex s)"
    using C assms(2,3) unfolding claims_ok_def parallel_for_returns_def by blast
  have span: "own s t = done_by s t" if "t < n" for t
    using C assms(2) that unfolding claims_ok_def parallel_for_returns_def by (simp add: own_def index_span_def)
  have "a \<in> unat ` set (all_executed n s)" if "a < N" for a
  proof -
    have "a + chunk j < unat (workIndex s)" using W that by simp
    then obtain t where "t < n" "a \<in> own s t" using O \<open>a < N\<close> unfolding owns_ok_def by blast
    then have "a \<in> unat ` set (executed s t)" using span by (simp add: done_by_def)
    moreover have "set (executed s t) \<subseteq> set (all_executed n s)" using \<open>t < n\<close> by (auto simp: all_executed_def)
    ultimately show ?thesis by blast
  qed
  then have "set (map unat (all_executed n s)) = {0..<N}" using distinct_executed(2) [OF O] by auto
  moreover have "distinct (map unat (all_executed n s))"
    using distinct_executed(1) [OF O] by (simp add: distinct_map inj_on_def word_unat_eq_iff)
  ultimately show ?thesis by (metis set_eq_iff_mset_eq_distinct distinct_upt set_upt)
qed

lemma executor_progress:
  assumes "exec_ok j n N s" and "job_ok j n N" and "\<not> parallel_for_returns n s"
  shows "\<exists>s'. work_step j n s s'"
proof -
  obtain t where t: "t < n" "WorkingFlag s t" using assms(3) by (auto simp: parallel_for_returns_def)
  show ?thesis
  proof (cases "phase s t")
    case Parked
    then show ?thesis using wake [OF t(1) _ t(2)] by blast
  next
    case Claiming
    obtain i e where "claim (workIndex s) (chunk j) = (i, e)" by fastforce
    then show ?thesis using fetch [OF t(1) Claiming] by blast
  next
    case (InChunk i e)
    have "page_holds (result_size j) (results s t) (results_of j (executed s t))"
      using assms(1) t(1) by (simp add: exec_ok_def results_ok_def)
    note run = run_task_spec [OF this assms(2)]
    show ?thesis
    proof (cases "i < e")
      case True
      show ?thesis
      proof (cases "getAxis j i")
        case None
        then show ?thesis using no_axis [OF t(1) InChunk True] by blast
      next
        case (Some axis)
        then show ?thesis using execute [OF t(1) InChunk True Some] run by blast
      qed
    qed (use chunk_done [OF t(1) InChunk] in blast)
  next
    case Finished
    then show ?thesis using signal [OF t(1)] by blast
  qed
qed

text \<open>Every step other than a fetch lowers the rank of its thread.\<close>

definition rank :: "executor \<Rightarrow> nat \<Rightarrow> nat" where
  "rank s t = (case phase s t of
     Parked \<Rightarrow> if WorkingFlag s t then 4 else 0
   | Claiming \<Rightarrow> 3
   | InChunk i e \<Rightarrow> 4 + (unat e - unat i)
   | Finished \<Rightarrow> 1)"

definition work_left :: "'x job \<Rightarrow> nat \<Rightarrow> nat \<Rightarrow> executor \<Rightarrow> nat \<times> nat" where
  "work_left j n N s = (N + chunk j + chunk j * n + chunk j - unat (workIndex s), \<Sum>t<n. rank s t)"

lemma work_left_step:
  assumes "work_step j n s s'" and "exec_ok j n N s" and J: "job_ok j n N"
  shows "(work_left j n N s', work_left j n N s) \<in> less_than <*lex*> less_than"
proof -
  have C: "claims_ok j n N s" and K: "counter_ok j n N s" using assms(2) by (simp_all add: exec_ok_def)
  have same: "(work_left j n N s', work_left j n N s) \<in> less_than <*lex*> less_than"
    if "workIndex s' = workIndex s" "t < n" "rank s' t < rank s t" "\<And>u. u \<noteq> t \<Longrightarrow> rank s' u = rank s u" for t
    using rank_sum_less [of t n "rank s'" "rank s"] that by (simp add: work_left_def)
  show ?thesis
    using assms(1)
  proof cases
    case (fetch t i e)
    have "card {t. t < n \<and> over N s t} \<le> card {..<n}" by (intro card_mono) auto
    then have "card {t. t < n \<and> over N s t} \<le> n" by simp
    from mult_le_mono2 [OF this, of "chunk j"] have "unat (workIndex s) \<le> N + chunk j + chunk j * n"
      using K unfolding counter_ok_def by linarith
    moreover have "0 < chunk j" using J by (simp add: job_ok_def)
    moreover have "unat (workIndex s') = unat (workIndex s) + chunk j" using counter_bound(2) [OF K J] fetch(1) by simp
    ultimately show ?thesis by (simp add: work_left_def, intro disjI1, linarith)
  next
    case (wake t)
    then show ?thesis by (intro same [of t]) (auto simp: rank_def)
  next
    case (chunk_done t i e)
    then show ?thesis by (intro same [of t]) (auto simp: rank_def)
  next
    case (no_axis t i e)
    then show ?thesis by (intro same [of t]) (auto simp: rank_def)
  next
    case (execute t i e axis r)
    then show ?thesis using unat_plus_1 [OF execute(4)]
      by (intro same [of t]) (auto simp: rank_def word_less_nat_alt)
  next
    case (signal t)
    then show ?thesis by (intro same [of t]) (auto simp: rank_def)
  qed
qed

interpretation exec: progress_system "work_step j n" "\<lambda>s. job_ok j n N \<and> exec_ok j n N s" "\<lambda>s s'. True"
  "parallel_for_returns n" "work_left j n N" "less_than <*lex*> less_than" for j n N
proof
  show "wf (less_than <*lex*> less_than)" by (intro wf_lex_prod wf_less_than)
qed (use exec_ok_step executor_progress work_left_step in blast)+

text \<open>A job for the witnesses: one index, a result of one byte.\<close>

definition demo_job :: "u8 job" where
  "demo_job = \<lparr>getAxis = (\<lambda>i. if i < 1 then Some 7 else None), task = (\<lambda>x. Some [x]), chunk = 1,
     base_size = 4, result_size = 1\<rparr>"

lemma demo_job_ok: "job_ok demo_job 2 1 \<and> pages_ok 2 (\<lambda>t. new_thread_result)"
  by (simp add: job_ok_def demo_job_def pages_ok_def new_thread_result_def word_less_nat_alt)

lemma fresh_page:
  assumes "0 < sz" and "sz \<le> base"
  shows "ExtendPageAtLeast base (new_thread_result\<lparr>ElementCount := 0\<rparr>) sz =
    Some (Inr \<lparr>PageSize = base, ElementCount = 0, Page = replicate base 0\<rparr>)"
  using assms
  by (subst ExtendPageAtLeast.simps, subst ExtendPageAtLeast.simps)
    (simp add: new_thread_result_def load_bytes_def store_bytes_def Let_def)

section \<open>Properties\<close>

text \<open>
  C12. \<open>ParallelFor\<close> over axes for the indices below \<open>N\<close>, under any interleaving of its threads: no index is executed
  twice and none beyond the axes; when the call returns, every index was executed exactly once and the iteration over the
  results delivers exactly the results of the executed indices.
\<close>

theorem parallel_for_each_index_once:
  assumes "job_ok j n N" and "pages_ok n old" and "(work_step j n)\<^sup>*\<^sup>* (start_parallel_for old) s"
  shows "distinct (all_executed n s) \<and> unat ` set (all_executed n s) \<subseteq> {..<N} \<and>
    (parallel_for_returns n s \<and> 0 < n \<longrightarrow>
       mset (map unat (all_executed n s)) = mset [0..<N] \<and>
       result_list j n s = Inr (results_of j (all_executed n s)))"
proof -
  have E: "exec_ok j n N s" using exec.steps_ok [OF assms(3)] exec_ok_start [OF assms(1,2)] assms(1) by blast
  then have "owns_ok j n N s" "results_ok j n s" by (simp_all add: exec_ok_def)
  then show ?thesis using distinct_executed [of j n N s] result_list_spec [of j n s] executed_at_return [OF E _ _ assms(1)]
    by blast
qed

theorem parallel_for_each_index_once_witness:
  "\<exists>s. (work_step demo_job 2)\<^sup>*\<^sup>* (start_parallel_for (\<lambda>t. new_thread_result)) s \<and> parallel_for_returns 2 s \<and>
     mset (map unat (all_executed 2 s)) = mset [0..<1]"
proof -
  obtain s where s: "(work_step demo_job 2)\<^sup>*\<^sup>* (start_parallel_for (\<lambda>t. new_thread_result)) s" "parallel_for_returns 2 s"
    using exec.some_run [of demo_job 2 1 "start_parallel_for (\<lambda>t. new_thread_result)"] exec_ok_start demo_job_ok by blast
  have "mset (map unat (all_executed 2 s)) = mset [0..<1]"
    using parallel_for_each_index_once [OF _ _ s(1), of 1] demo_job_ok s(2) by simp
  then show ?thesis using s by blast
qed

text \<open>
  C25. \<open>ParallelFor\<close> returns under every schedule: until it has returned some thread can go on, and no run of the threads is
  infinite.
\<close>

theorem parallel_for_returns_always:
  assumes "job_ok j n N" and "pages_ok n old"
  shows "(\<forall>s. (work_step j n)\<^sup>*\<^sup>* (start_parallel_for old) s \<longrightarrow>
      parallel_for_returns n s \<or> (\<exists>s'. work_step j n s s')) \<and>
    (\<nexists>f. f 0 = start_parallel_for old \<and> (\<forall>k. work_step j n (f k) (f (Suc k))))"
proof -
  note start = conjI [OF assms(1) exec_ok_start [OF assms]]
  have "parallel_for_returns n s \<or> (\<exists>s'. work_step j n s s')" if "(work_step j n)\<^sup>*\<^sup>* (start_parallel_for old) s" for s
    using exec.enabled [OF exec.steps_ok [OF that start]] by blast
  moreover have False if "f 0 = start_parallel_for old" "\<And>k. work_step j n (f k) (f (Suc k))" for f
    using exec.no_infinite_run [of j n N f] start that by simp
  ultimately show ?thesis by blast
qed

theorem parallel_for_returns_always_witness:
  "\<nexists>f. f 0 = start_parallel_for (\<lambda>t. new_thread_result) \<and> (\<forall>k. work_step demo_job 2 (f k) (f (Suc k)))"
  using parallel_for_returns_always [of demo_job 2 1 "\<lambda>t. new_thread_result"] demo_job_ok by blast

text \<open>
  \<open>ParallelForWorkerThreads\<close> stores the result of a thread one element too far.  On fresh pages it writes past the end
  of the page if the page has no room for two results; otherwise the iteration reads the zero bytes in front
  of the result.
\<close>

theorem single_result_misplaced:
  assumes "0 < sz" and "sz \<le> base" and "length x = sz"
  shows "if base < 2 * sz then store_single_result base sz (Some x) new_thread_result = Some (Inl OutOfBounds)
    else \<exists>r. store_single_result base sz (Some x) new_thread_result = Some (Inr r) \<and>
      all_results sz [r] = Inr [replicate sz 0]"
proof (cases "base < 2 * sz")
  case True
  then show ?thesis using fresh_page [OF assms(1,2)] assms by (simp add: store_single_result_def store_bytes_def)
next
  case False
  let ?r = "\<lparr>PageSize = base, ElementCount = 1, Page = replicate sz 0 @ x @ replicate (base - 2 * sz) 0\<rparr>"
  have "store_single_result base sz (Some x) new_thread_result = Some (Inr ?r)"
    using False fresh_page [OF assms(1,2)] assms by (simp add: store_single_result_def store_bytes_def)
  moreover have "all_results sz [?r] = Inr (concat [[replicate sz 0]])"
    by (rule all_results_spec) (use False assms in \<open>simp_all add: page_holds_def\<close>)
  ultimately show ?thesis using False by auto
qed

theorem single_result_misplaced_witness:
  "store_single_result 4 4 (Some [1, 2, 3, 4]) new_thread_result = Some (Inl OutOfBounds)"
  using single_result_misplaced [of 4 4 "[1, 2, 3, 4]"] by simp

end
