(* ===== verification/Parallel_Life.thy ===== *)
theory Parallel_Life
  imports Parallel_Exec
begin

text \<open>
  The life of a \<open>ParallelExecutor\<close>: the constructor that starts the worker threads one after the other, the calls that hand
  out a work function and wait for it, and the destructor that stops and joins the threads, with the body of a worker thread.
  \<open>Parallel_Exec\<close> looks into one call; here a work function is a value, and the order of its executions is recorded.
\<close>

section \<open>State\<close>

text \<open>Where the owner of the executor is; an index is the thread that its loop is at.\<close>

datatype owner_pc =
    Creating nat
  | AwaitCreated nat
  | Ready
  | Signalling nat
  | AwaitDone nat
  | StopSet
  | Stopping nat
  | Joining nat
  | Destroyed

datatype 'w thread_pc = NotStarted | AtHead | AwaitFlag | CheckStop | InWork 'w | WorkDone | Leaving | Exited

text \<open>\<open>worked\<close> are the functions that a thread has called, \<open>called\<close> those that were handed out.\<close>

record 'w life =
  owner :: owner_pc
  threadAt :: "nat \<Rightarrow> 'w thread_pc"
  Flag :: "nat \<Rightarrow> bool"
  shouldStop :: bool
  work :: 'w
  worked :: "nat \<Rightarrow> 'w list"
  called :: "'w list"

text \<open>Before the body of the constructor: \<open>work_\<close> does nothing, and the atomics have their initial value false.\<close>

definition new_life :: "'w \<Rightarrow> 'w life" where
  "new_life no_work = \<lparr>owner = Creating 0, threadAt = (\<lambda>t. NotStarted), Flag = (\<lambda>t. False), shouldStop = False,
     work = no_work, worked = (\<lambda>t. []), called = [no_work]\<rparr>"

section \<open>Steps\<close>

text \<open>The loop of the constructor; nobody looks at the flag of a thread before the thread has been started.\<close>

inductive create_step :: "nat \<Rightarrow> 'w life \<Rightarrow> 'w life \<Rightarrow> bool" for n where
  start_thread: "owner s = Creating i \<Longrightarrow> i < n \<Longrightarrow>
    create_step n s (s\<lparr>owner := AwaitCreated i, Flag := (Flag s)(i := True), threadAt := (threadAt s)(i := AtHead)\<rparr>)"
| thread_started: "owner s = AwaitCreated i \<Longrightarrow> \<not> Flag s i \<Longrightarrow> create_step n s (s\<lparr>owner := Creating (Suc i)\<rparr>)"
| created: "owner s = Creating i \<Longrightarrow> \<not> i < n \<Longrightarrow> create_step n s (s\<lparr>owner := Ready\<rparr>)"

text \<open>A call of \<open>ParallelFor\<close> or \<open>ParallelForWorkerThreads\<close>: the new work function, the flags set, the flags awaited.\<close>

inductive call_step :: "nat \<Rightarrow> 'w life \<Rightarrow> 'w life \<Rightarrow> bool" for n where
  begin_call: "owner s = Ready \<Longrightarrow> call_step n s (s\<lparr>owner := Signalling 0, work := w, called := called s @ [w]\<rparr>)"
| set_flag: "owner s = Signalling i \<Longrightarrow> i < n \<Longrightarrow>
    call_step n s (s\<lparr>owner := Signalling (Suc i), Flag := (Flag s)(i := True)\<rparr>)"
| all_set: "owner s = Signalling i \<Longrightarrow> \<not> i < n \<Longrightarrow> call_step n s (s\<lparr>owner := AwaitDone 0\<rparr>)"
| flag_cleared: "owner s = AwaitDone i \<Longrightarrow> i < n \<Longrightarrow> \<not> Flag s i \<Longrightarrow> call_step n s (s\<lparr>owner := AwaitDone (Suc i)\<rparr>)"
| call_returns: "owner s = AwaitDone i \<Longrightarrow> \<not> i < n \<Longrightarrow> call_step n s (s\<lparr>owner := Ready\<rparr>)"

text \<open>The destructor.\<close>

inductive destroy_step :: "nat \<Rightarrow> 'w \<Rightarrow> 'w life \<Rightarrow> 'w life \<Rightarrow> bool" for n no_work where
  stopped_before: "owner s = Ready \<Longrightarrow> shouldStop s \<Longrightarrow> destroy_step n no_work s (s\<lparr>owner := Destroyed\<rparr>)"
| set_stop: "owner s = Ready \<Longrightarrow> \<not> shouldStop s \<Longrightarrow>
    destroy_step n no_work s (s\<lparr>owner := StopSet, shouldStop := True\<rparr>)"
| drop_work: "owner s = StopSet \<Longrightarrow> destroy_step n no_work s (s\<lparr>owner := Stopping 0, work := no_work\<rparr>)"
| wake_thread: "owner s = Stopping i \<Longrightarrow> i < n \<Longrightarrow>
    destroy_step n no_work s (s\<lparr>owner := Joining i, Flag := (Flag s)(i := True)\<rparr>)"
| join_thread: "owner s = Joining i \<Longrightarrow> threadAt s i = Exited \<Longrightarrow>
    destroy_step n no_work s (s\<lparr>owner := Stopping (Suc i)\<rparr>)"
| destroyed: "owner s = Stopping i \<Longrightarrow> \<not> i < n \<Longrightarrow> destroy_step n no_work s (s\<lparr>owner := Destroyed\<rparr>)"

text \<open>\<open>WorkerThreadBody\<close>: the head of the loop, the wait, the second look at \<open>shouldStop_\<close>, the work, the two stores.\<close>

inductive thread_step :: "nat \<Rightarrow> 'w life \<Rightarrow> 'w life \<Rightarrow> bool" for t where
  head_stop: "threadAt s t = AtHead \<Longrightarrow> shouldStop s \<Longrightarrow> thread_step t s (s\<lparr>threadAt := (threadAt s)(t := Leaving)\<rparr>)"
| head_wait: "threadAt s t = AtHead \<Longrightarrow> \<not> shouldStop s \<Longrightarrow> thread_step t s (s\<lparr>threadAt := (threadAt s)(t := AwaitFlag)\<rparr>)"
| flag_seen: "threadAt s t = AwaitFlag \<Longrightarrow> Flag s t \<Longrightarrow> thread_step t s (s\<lparr>threadAt := (threadAt s)(t := CheckStop)\<rparr>)"
| check_stop: "threadAt s t = CheckStop \<Longrightarrow> shouldStop s \<Longrightarrow> thread_step t s (s\<lparr>threadAt := (threadAt s)(t := Leaving)\<rparr>)"
| call_work: "threadAt s t = CheckStop \<Longrightarrow> \<not> shouldStop s \<Longrightarrow>
    thread_step t s (s\<lparr>threadAt := (threadAt s)(t := InWork (work s)), worked := (worked s)(t := worked s t @ [work s])\<rparr>)"
| work_returns: "threadAt s t = InWork w \<Longrightarrow> thread_step t s (s\<lparr>threadAt := (threadAt s)(t := WorkDone)\<rparr>)"
| clear_flag: "threadAt s t = WorkDone \<Longrightarrow>
    thread_step t s (s\<lparr>threadAt := (threadAt s)(t := AtHead), Flag := (Flag s)(t := False)\<rparr>)"
| leave: "threadAt s t = Leaving \<Longrightarrow>
    thread_step t s (s\<lparr>threadAt := (threadAt s)(t := Exited), Flag := (Flag s)(t := False)\<rparr>)"

inductive life_step :: "nat \<Rightarrow> 'w \<Rightarrow> 'w life \<Rightarrow> 'w life \<Rightarrow> bool" for n no_work where
  by_create: "create_step n s s' \<Longrightarrow> life_step n no_work s s'"
| by_call: "call_step n s s' \<Longrightarrow> life_step n no_work s s'"
| by_destroy: "destroy_step n no_work s s' \<Longrightarrow> life_step n no_work s s'"
| by_thread: "t < n \<Longrightarrow> thread_step t s s' \<Longrightarrow> life_step n no_work s s'"

section \<open>What a thread may be doing\<close>

datatype stage = Fresh | Pending | Busy | Idle | Ending | Woken | Gone

fun expected :: "owner_pc \<Rightarrow> nat \<Rightarrow> stage" where
  "expected (Creating i) t = (if t < i then Idle else Fresh)"
| "expected (AwaitCreated i) t = (if t < i then Idle else if t = i then Busy else Fresh)"
| "expected Ready t = Idle"
| "expected (Signalling i) t = (if t < i then Busy else Pending)"
| "expected (AwaitDone i) t = (if t < i then Idle else Busy)"
| "expected StopSet t = Ending"
| "expected (Stopping i) t = (if t < i then Gone else Ending)"
| "expected (Joining i) t = (if t < i then Gone else if t = i then Woken else Ending)"
| "expected Destroyed t = Gone"

text \<open>The stage by the place, the flag and the functions called so far of one thread.\<close>

fun stage_ok :: "'w \<Rightarrow> 'w list \<Rightarrow> 'w thread_pc \<Rightarrow> bool \<Rightarrow> 'w list \<Rightarrow> stage \<Rightarrow> bool" where
  "stage_ok w cs p f ws Fresh = (p = NotStarted \<and> ws @ [w] = cs)"
| "stage_ok w cs p f ws Pending = (\<not> f \<and> p \<in> {AtHead, AwaitFlag} \<and> ws @ [w] = cs)"
| "stage_ok w cs p f ws Busy = (f \<and> p \<in> {AtHead, AwaitFlag, CheckStop} \<and> ws @ [w] = cs \<or>
     f \<and> p \<in> {InWork w, WorkDone} \<and> ws = cs \<or> \<not> f \<and> p \<in> {AtHead, AwaitFlag} \<and> ws = cs)"
| "stage_ok w cs p f ws Idle = (\<not> f \<and> p \<in> {AtHead, AwaitFlag} \<and> ws = cs)"
| "stage_ok w cs p f ws Ending = (\<not> f \<and> p \<in> {AtHead, AwaitFlag, Leaving, Exited} \<and> ws = cs)"
| "stage_ok w cs p f ws Woken = ((p = AwaitFlag \<longrightarrow> f) \<and> p \<in> {AtHead, AwaitFlag, CheckStop, Leaving, Exited} \<and> ws = cs)"
| "stage_ok w cs p f ws Gone = (p = Exited \<and> ws = cs)"

definition stopping :: "owner_pc \<Rightarrow> bool" where
  "stopping m \<longleftrightarrow> (case m of StopSet \<Rightarrow> True | Stopping i \<Rightarrow> True | Joining i \<Rightarrow> True | Destroyed \<Rightarrow> True | _ \<Rightarrow> False)"

definition in_loop :: "nat \<Rightarrow> owner_pc \<Rightarrow> bool" where
  "in_loop n m \<longleftrightarrow> (case m of AwaitCreated i \<Rightarrow> i < n | Joining i \<Rightarrow> i < n | Creating i \<Rightarrow> i \<le> n | Signalling i \<Rightarrow> i \<le> n
     | AwaitDone i \<Rightarrow> i \<le> n | Stopping i \<Rightarrow> i \<le> n | _ \<Rightarrow> True)"

definition threads_ok :: "nat \<Rightarrow> 'w life \<Rightarrow> bool" where
  "threads_ok n s \<longleftrightarrow>
     (\<forall>t<n. stage_ok (work s) (called s) (threadAt s t) (Flag s t) (worked s t) (expected (owner s) t))"

definition life_ok :: "nat \<Rightarrow> 'w life \<Rightarrow> bool" where
  "life_ok n s \<longleftrightarrow> threads_ok n s \<and> (shouldStop s \<longleftrightarrow> stopping (owner s)) \<and> in_loop n (owner s)"

lemma life_ok_new: "life_ok n (new_life w)"
  by (simp add: life_ok_def threads_ok_def new_life_def stopping_def in_loop_def)

lemma life_okD:
  assumes "life_ok n s" and "t < n"
  shows "stage_ok (work s) (called s) (threadAt s t) (Flag s t) (worked s t) (expected (owner s) t)"
  using assms by (simp add: life_ok_def threads_ok_def)

text \<open>A step keeps the invariant if it keeps the stage of each thread; the rest is about the place of the owner.\<close>

lemma life_okI:
  assumes "life_ok n s"
    and "\<And>t. t < n \<Longrightarrow> stage_ok (work s) (called s) (threadAt s t) (Flag s t) (worked s t) (expected (owner s) t) \<Longrightarrow>
      stage_ok (work s') (called s') (threadAt s' t) (Flag s' t) (worked s' t) (expected (owner s') t)"
    and "shouldStop s' \<longleftrightarrow> stopping (owner s')" and "in_loop n (owner s')"
  shows "life_ok n s'"
  using assms by (simp add: life_ok_def threads_ok_def)

lemma owner_facts:
  "life_ok n s \<Longrightarrow> (shouldStop s \<longleftrightarrow> stopping (owner s)) \<and> in_loop n (owner s)"
  by (simp add: life_ok_def)

lemma create_step_ok:
  assumes "create_step n s s'" and L: "life_ok n s"
  shows "life_ok n s'"
  using assms(1)
proof cases
  case (start_thread i)
  then show ?thesis using owner_facts [OF L]
    by (intro life_okI [OF L]) (auto simp: stopping_def in_loop_def split: if_splits)
next
  case (thread_started i)
  then show ?thesis using owner_facts [OF L]
    by (intro life_okI [OF L]) (auto simp: stopping_def in_loop_def less_Suc_eq split: if_splits)
next
  case (created i)
  then show ?thesis using owner_facts [OF L]
    by (intro life_okI [OF L]) (auto simp: stopping_def in_loop_def split: if_splits)
qed

lemma call_step_ok:
  assumes "call_step n s s'" and L: "life_ok n s"
  shows "life_ok n s'"
  using assms(1)
proof cases
  case (begin_call w)
  then show ?thesis using owner_facts [OF L]
    by (intro life_okI [OF L]) (auto simp: stopping_def in_loop_def)
next
  case (set_flag i)
  then show ?thesis using owner_facts [OF L]
    by (intro life_okI [OF L]) (auto simp: stopping_def in_loop_def less_Suc_eq split: if_splits)
next
  case (all_set i)
  then show ?thesis using owner_facts [OF L]
    by (intro life_okI [OF L]) (auto simp: stopping_def in_loop_def split: if_splits)
next
  case (flag_cleared i)
  then show ?thesis using owner_facts [OF L]
    by (intro life_okI [OF L]) (auto simp: stopping_def in_loop_def less_Suc_eq split: if_splits)
next
  case (call_returns i)
  then show ?thesis using owner_facts [OF L]
    by (intro life_okI [OF L]) (auto simp: stopping_def in_loop_def split: if_splits)
qed

lemma destroy_step_ok:
  assumes "destroy_step n no_work s s'" and L: "life_ok n s"
  shows "life_ok n s'"
  using assms(1)
proof cases
  case stopped_before
  then show ?thesis using owner_facts [OF L] by (simp add: stopping_def)
next
  case set_stop
  then show ?thesis using owner_facts [OF L]
    by (intro life_okI [OF L]) (auto simp: stopping_def in_loop_def)
next
  case drop_work
  then show ?thesis using owner_facts [OF L]
    by (intro life_okI [OF L]) (auto simp: stopping_def in_loop_def)
next
  case (wake_thread i)
  then show ?thesis using owner_facts [OF L]
    by (intro life_okI [OF L]) (auto simp: stopping_def in_loop_def split: if_splits)
next
  case (join_thread i)
  then show ?thesis using owner_facts [OF L]
    by (intro life_okI [OF L]) (auto simp: stopping_def in_loop_def less_Suc_eq split: if_splits)
next
  case (destroyed i)
  then show ?thesis using owner_facts [OF L]
    by (intro life_okI [OF L]) (auto simp: stopping_def in_loop_def split: if_splits)
qed

text \<open>A step of a thread changes its own entries only.\<close>

lemma thread_step_frame:
  assumes "thread_step t s s'"
  shows "owner s' = owner s" "shouldStop s' = shouldStop s" "work s' = work s" "called s' = called s"
    "\<And>u. u \<noteq> t \<Longrightarrow> threadAt s' u = threadAt s u \<and> Flag s' u = Flag s u \<and> worked s' u = worked s u"
  using assms by (cases, simp_all)+

lemma thread_step_stage:
  assumes "thread_step t s s'" and "shouldStop s \<longleftrightarrow> stopping (owner s)"
    and "stage_ok (work s) (called s) (threadAt s t) (Flag s t) (worked s t) (expected (owner s) t)"
  shows "stage_ok (work s) (called s) (threadAt s' t) (Flag s' t) (worked s' t) (expected (owner s) t)"
  using assms by cases (cases "owner s"; auto simp: stopping_def split: if_splits)+

lemma life_step_ok:
  assumes "life_step n no_work s s'" and L: "life_ok n s"
  shows "life_ok n s'"
  using assms(1)
proof cases
  case (by_thread t)
  note F = thread_step_frame [OF by_thread(2)]
  show ?thesis
  proof (rule life_okI [OF L])
    fix u
    assume "stage_ok (work s) (called s) (threadAt s u) (Flag s u) (worked s u) (expected (owner s) u)"
    then show "stage_ok (work s') (called s') (threadAt s' u) (Flag s' u) (worked s' u) (expected (owner s') u)"
      using thread_step_stage [OF by_thread(2)] owner_facts [OF L] F by (cases "u = t") simp_all
  qed (use owner_facts [OF L] F in simp_all)
next
  case by_create
  then show ?thesis by (rule create_step_ok [OF _ L])
next
  case by_call
  then show ?thesis by (rule call_step_ok [OF _ L])
next
  case by_destroy
  then show ?thesis by (rule destroy_step_ok [OF _ L])
qed

section \<open>Progress\<close>

lemma busy_thread_steps:
  assumes "stage_ok w cs (threadAt s t) (Flag s t) ws Busy" and "Flag s t"
  shows "\<exists>s'. thread_step t s s'"
proof (cases "threadAt s t")
  case AtHead
  then show ?thesis using head_stop head_wait by blast
next
  case AwaitFlag
  then show ?thesis using flag_seen assms(2) by blast
next
  case CheckStop
  then show ?thesis using check_stop call_work by blast
next
  case (InWork v)
  then show ?thesis by (intro exI) (rule work_returns)
next
  case WorkDone
  then show ?thesis using clear_flag by blast
qed (use assms in auto)

lemma woken_thread_steps:
  assumes "stage_ok w cs (threadAt s t) (Flag s t) ws Woken" and "threadAt s t \<noteq> Exited"
  shows "\<exists>s'. thread_step t s s'"
proof (cases "threadAt s t")
  case AtHead
  then show ?thesis using head_stop head_wait by blast
next
  case AwaitFlag
  then show ?thesis using flag_seen assms(1) by simp blast
next
  case CheckStop
  then show ?thesis using check_stop call_work by blast
next
  case Leaving
  then show ?thesis using leave by blast
qed (use assms in auto)

lemma some_life_step:
  "\<exists>s'. create_step n s s' \<Longrightarrow> \<exists>s'. life_step n no_work s s'"
  "\<exists>s'. call_step n s s' \<Longrightarrow> \<exists>s'. life_step n no_work s s'"
  "\<exists>s'. destroy_step n no_work s s' \<Longrightarrow> \<exists>s'. life_step n no_work s s'"
  "\<exists>s'. thread_step t s s' \<Longrightarrow> t < n \<Longrightarrow> \<exists>s'. life_step n no_work s s'"
  by (auto intro: life_step.intros)

lemma life_progress:
  assumes L: "life_ok n s" and "owner s \<noteq> Destroyed"
  shows "\<exists>s'. life_step n no_work s s'"
proof (cases "owner s")
  case (Creating i)
  show ?thesis by (rule some_life_step(1)) (use start_thread [OF Creating] created [OF Creating] in blast)
next
  case (AwaitCreated i)
  then have i: "i < n" using owner_facts [OF L] by (simp add: in_loop_def)
  show ?thesis
  proof (cases "Flag s i")
    case True
    have "stage_ok (work s) (called s) (threadAt s i) (Flag s i) (worked s i) Busy"
      using life_okD [OF L i] AwaitCreated by simp
    from busy_thread_steps [OF this True] i show ?thesis by (rule some_life_step(4))
  next
    case False
    show ?thesis by (rule some_life_step(1)) (use thread_started [OF AwaitCreated False] in blast)
  qed
next
  case Ready
  show ?thesis by (rule some_life_step(2)) (use begin_call [OF Ready] in blast)
next
  case (Signalling i)
  show ?thesis by (rule some_life_step(2)) (use set_flag [OF Signalling] all_set [OF Signalling] in blast)
next
  case (AwaitDone i)
  show ?thesis
  proof (cases "i < n \<and> Flag s i")
    case True
    have "stage_ok (work s) (called s) (threadAt s i) (Flag s i) (worked s i) Busy"
      using life_okD [OF L, of i] True AwaitDone by simp
    then have "\<exists>s'. thread_step i s s'" using True by (intro busy_thread_steps) simp_all
    then show ?thesis by (rule some_life_step(4)) (use True in simp)
  next
    case False
    show ?thesis by (rule some_life_step(2)) (use flag_cleared [OF AwaitDone] call_returns [OF AwaitDone] False in blast)
  qed
next
  case StopSet
  show ?thesis by (rule some_life_step(3)) (use drop_work [OF StopSet] in blast)
next
  case (Stopping i)
  show ?thesis by (rule some_life_step(3)) (use wake_thread [OF Stopping] destroyed [OF Stopping] in blast)
next
  case (Joining i)
  then have i: "i < n" using owner_facts [OF L] by (simp add: in_loop_def)
  show ?thesis
  proof (cases "threadAt s i = Exited")
    case True
    show ?thesis by (rule some_life_step(3)) (use join_thread [OF Joining True] in blast)
  next
    case False
    have "stage_ok (work s) (called s) (threadAt s i) (Flag s i) (worked s i) Woken"
      using life_okD [OF L i] Joining by simp
    from woken_thread_steps [OF this False] i show ?thesis by (rule some_life_step(4))
  qed
qed (use assms(2) in simp)

text \<open>Between two calls every step lowers the rank of the owner, or keeps it and lowers the rank of a thread.\<close>

fun owner_rank :: "nat \<Rightarrow> owner_pc \<Rightarrow> nat" where
  "owner_rank n (Creating i) = 2 * n + 5 + 2 * (n - i)"
| "owner_rank n (AwaitCreated i) = 2 * n + 4 + 2 * (n - i)"
| "owner_rank n (Signalling i) = 3 * n + 5 + (n - i)"
| "owner_rank n (AwaitDone i) = 2 * n + 4 + (n - i)"
| "owner_rank n Ready = 2 * n + 3"
| "owner_rank n StopSet = 2 * n + 2"
| "owner_rank n (Stopping i) = 2 * (n - i) + 1"
| "owner_rank n (Joining i) = 2 * (n - i)"
| "owner_rank n Destroyed = 0"

definition thread_rank :: "'w life \<Rightarrow> nat \<Rightarrow> nat" where
  "thread_rank s t = (case threadAt s t of
     NotStarted \<Rightarrow> 0 | Exited \<Rightarrow> 0 | Leaving \<Rightarrow> 1 | WorkDone \<Rightarrow> 3 | InWork w \<Rightarrow> 4 | CheckStop \<Rightarrow> 5
   | AwaitFlag \<Rightarrow> if Flag s t then 6 else 0
   | AtHead \<Rightarrow> if Flag s t then 7 else 2)"

definition life_left :: "nat \<Rightarrow> 'w life \<Rightarrow> nat \<times> nat" where
  "life_left n s = (owner_rank n (owner s), \<Sum>t<n. thread_rank s t)"

lemma life_left_step:
  assumes "life_step n no_work s s'" and L: "life_ok n s" and "called s' = called s"
  shows "(life_left n s', life_left n s) \<in> less_than <*lex*> less_than"
  using assms(1)
proof cases
  case (by_thread t)
  have "thread_rank s' t < thread_rank s t"
    using by_thread(2) by cases (simp_all add: thread_rank_def)
  moreover have "thread_rank s' u = thread_rank s u" if "u \<noteq> t" for u
    using thread_step_frame(5) [OF by_thread(2) that] by (simp add: thread_rank_def)
  ultimately show ?thesis
    using rank_sum_less [OF by_thread(1), of "thread_rank s'" "thread_rank s"] thread_step_frame(1) [OF by_thread(2)]
    by (simp add: life_left_def)
next
  case by_create
  then have "owner_rank n (owner s') < owner_rank n (owner s)"
    using owner_facts [OF L] by cases (auto simp: in_loop_def)
  then show ?thesis by (simp add: life_left_def)
next
  case by_call
  then have "owner_rank n (owner s') < owner_rank n (owner s)"
    using owner_facts [OF L] assms(3) by cases (auto simp: in_loop_def)
  then show ?thesis by (simp add: life_left_def)
next
  case by_destroy
  then have "owner_rank n (owner s') < owner_rank n (owner s)"
    using owner_facts [OF L] by cases (auto simp: in_loop_def)
  then show ?thesis by (simp add: life_left_def)
qed

text \<open>The owner can also do without further calls: it destroys the executor.\<close>

lemma life_progress_quiet:
  assumes L: "life_ok n s" and "owner s \<noteq> Destroyed"
  shows "\<exists>s'. life_step n no_work s s' \<and> called s' = called s"
proof (cases "owner s = Ready")
  case True
  then have "\<not> shouldStop s" using owner_facts [OF L] by (simp add: stopping_def)
  show ?thesis
    by (rule exI [of _ "s\<lparr>owner := StopSet, shouldStop := True\<rparr>"])
      (use by_destroy [OF set_stop [OF True \<open>\<not> shouldStop s\<close>]] in simp)
next
  case False
  obtain s' where s': "life_step n no_work s s'" using life_progress [OF assms] by blast
  then have "called s' = called s"
  proof cases
    case by_create
    then show ?thesis by cases simp_all
  next
    case by_call
    then show ?thesis using False by cases simp_all
  next
    case by_destroy
    then show ?thesis by cases simp_all
  next
    case (by_thread t)
    then show ?thesis by (simp add: thread_step_frame)
  qed
  then show ?thesis using s' by blast
qed

interpretation life: progress_system "life_step n no_work" "life_ok n" "\<lambda>s s'. called s' = called s"
  "\<lambda>s. owner s = Destroyed" "life_left n" "less_than <*lex*> less_than" for n no_work
proof
  fix s s' :: "'a life"
  show "wf (less_than <*lex*> less_than)" by (intro wf_lex_prod wf_less_than)
  show "life_ok n s'" if "life_step n no_work s s'" "life_ok n s" using that by (rule life_step_ok)
  show "\<exists>s'. life_step n no_work s s' \<and> called s' = called s" if "life_ok n s" "owner s \<noteq> Destroyed"
    using that by (rule life_progress_quiet)
  show "(life_left n s', life_left n s) \<in> less_than <*lex*> less_than"
    if "life_ok n s" "life_step n no_work s s'" "called s' = called s" using that(2,1,3) by (rule life_left_step)
qed

section \<open>Properties\<close>

text \<open>
  C13. The life of an executor, under every interleaving of its owner and its threads.  A thread only ever runs the function
  in \<open>work_\<close>, so no function is replaced while it runs, neither by the next call nor by the destructor.  Whenever the owner
  is between calls, every thread has run each function handed out exactly once, in the order of the calls.  The destructor
  returns after all threads have ended, and what it puts into \<open>work_\<close> is never run.
\<close>

theorem executor_runs_each_call_once:
  assumes "(life_step n no_work)\<^sup>*\<^sup>* (new_life no_work) s" and "t < n"
  shows "(\<forall>w. threadAt s t = InWork w \<longrightarrow> w = work s \<and> \<not> shouldStop s) \<and>
    (owner s = Ready \<longrightarrow> worked s t = called s \<and> \<not> Flag s t) \<and>
    (shouldStop s \<longrightarrow> worked s t = called s) \<and>
    (owner s = Destroyed \<longrightarrow> threadAt s t = Exited)"
proof -
  have L: "life_ok n s" using life.steps_ok [OF assms(1) life_ok_new] .
  have S: "shouldStop s \<longleftrightarrow> stopping (owner s)" using owner_facts [OF L] by blast
  note T = life_okD [OF L assms(2)]
  show ?thesis
  proof (intro conjI impI allI)
    show "w = work s" if "threadAt s t = InWork w" for w
      using T that by (cases "expected (owner s) t") auto
    show "\<not> shouldStop s" if "threadAt s t = InWork w" for w
      using T that S by (cases "owner s") (auto simp: stopping_def split: if_splits)
    show "worked s t = called s" "\<not> Flag s t" if "owner s = Ready" using T that by simp_all
    show "worked s t = called s" if "shouldStop s"
      using T that S by (cases "owner s") (auto simp: stopping_def split: if_splits)
    show "threadAt s t = Exited" if "owner s = Destroyed" using T that by simp
  qed
qed

theorem executor_runs_each_call_once_witness:
  "\<exists>s. (life_step 2 ''nothing'')\<^sup>*\<^sup>* (new_life ''nothing'') s \<and> owner s = Destroyed \<and>
     threadAt s 1 = Exited"
proof -
  obtain s where s: "(life_step 2 ''nothing'')\<^sup>*\<^sup>* (new_life ''nothing'') s" "owner s = Destroyed"
    using life.some_run [OF life_ok_new [of 2 "''nothing''"], of "''nothing''"] by (elim exE conjE)
  have "threadAt s 1 = Exited" using executor_runs_each_call_once [OF s(1), of 1] s(2) by simp
  then show ?thesis using s by blast
qed

text \<open>
  C26. The constructor, every call and the destructor return, if the work functions do: until the executor is destroyed some
  thread can go on, and no run is infinite without handing out work infinitely often.
\<close>

theorem executor_life_goes_on:
  assumes "(life_step n no_work)\<^sup>*\<^sup>* (new_life no_work) s"
  shows "(owner s = Destroyed \<or> (\<exists>s'. life_step n no_work s s')) \<and>
    (\<nexists>f. f 0 = s \<and> (\<forall>k. life_step n no_work (f k) (f (Suc k)) \<and> called (f (Suc k)) = called (f k)))"
proof -
  have L: "life_ok n s" using life.steps_ok [OF assms life_ok_new] .
  have False if "f 0 = s" "\<forall>k. life_step n no_work (f k) (f (Suc k)) \<and> called (f (Suc k)) = called (f k)" for f
  proof (rule life.no_infinite_run [where n = n and f = f and no_work = no_work])
    show "life_ok n (f 0)" using that(1) L by simp
  qed (use that(2) in simp_all)
  then show ?thesis using life_progress [OF L] by blast
qed

theorem executor_life_goes_on_witness:
  "\<exists>s'. life_step 2 ''nothing'' (new_life ''nothing'') s'"
  using executor_life_goes_on [OF rtranclp.rtrancl_refl, where n = 2 and no_work = "''nothing''"] by (simp add: new_life_def)

end
