(* ===== verification/Main_Loop.thy ===== *)
theory Main_Loop
  imports Interfaces "HOL-Library.Multiset"
begin

text \<open>
  The frame loop of MainServer.cpp: \<open>Run\<close> and the worker threads of \<open>WorkerThreadBody\<close>, as steps of several threads
  over the atomics, the version and the wake-up flag.  A step is one operation on shared state, with the local
  operations that follow it.  \<open>ActorRegistry::Get\<close> of an index is a parameter: the repository does not declare it.
\<close>

section \<open>State\<close>

datatype main_pc = StoringCount | StoringIndex | Bumping | Sleeping

datatype worker_pc = Waiting | Fetching | Running u32 | Leaving | Notifying

text \<open>\<open>ran\<close> are the indices of the actors that the threads have begun to run since the last change of the version, \<open>frames\<close>
  the number of changes; the code has neither.\<close>

record server =
  workerThreadsWorkVersion :: u32
  mainThreadShouldWakeup :: bool
  workingThreadCount :: u32
  workIndex :: u32
  main :: main_pc
  worker :: "nat \<Rightarrow> worker_pc"
  desiredVersion :: "nat \<Rightarrow> u32"
  ran :: "u32 list"
  frames :: nat

text \<open>The server after the constructor; \<open>workIndex_\<close> has no initial value.\<close>

definition new_server :: "nat \<Rightarrow> u32 \<Rightarrow> server" where
  "new_server WorkerThreadsCount anyIndex = \<lparr>workerThreadsWorkVersion = 0, mainThreadShouldWakeup = False,
     workingThreadCount = of_nat WorkerThreadsCount, workIndex = anyIndex, main = StoringCount, worker = (\<lambda>t. Waiting),
     desiredVersion = (\<lambda>t. 1), ran = [], frames = 0\<rparr>"

section \<open>Steps\<close>

text \<open>The steps of \<open>Run\<close>.\<close>

inductive main_step :: "nat \<Rightarrow> server \<Rightarrow> server \<Rightarrow> bool" for n where
  store_count: "main s = StoringCount \<Longrightarrow>
    main_step n s (s\<lparr>workingThreadCount := of_nat n, main := StoringIndex\<rparr>)"
| store_index: "main s = StoringIndex \<Longrightarrow> main_step n s (s\<lparr>workIndex := 0, main := Bumping\<rparr>)"
| bump: "main s = Bumping \<Longrightarrow>
    main_step n s (s\<lparr>workerThreadsWorkVersion := workerThreadsWorkVersion s + 1, main := Sleeping,
      ran := [], frames := Suc (frames s)\<rparr>)"
| woken: "main s = Sleeping \<Longrightarrow> mainThreadShouldWakeup s \<Longrightarrow>
    main_step n s (s\<lparr>mainThreadShouldWakeup := False, main := StoringCount\<rparr>)"

text \<open>The steps of a worker thread.\<close>

definition fetch_work :: "(u32 \<Rightarrow> 'a option) \<Rightarrow> nat \<Rightarrow> server \<Rightarrow> server" where
  "fetch_work Get t s =
     (let i = workIndex s; s' = s\<lparr>workIndex := i + 1\<rparr>
      in case Get i of
           None \<Rightarrow> s'\<lparr>worker := (worker s)(t := Leaving)\<rparr>
         | Some actor \<Rightarrow> s'\<lparr>worker := (worker s)(t := Running i), ran := ran s @ [i]\<rparr>)"

definition next_version :: "nat \<Rightarrow> server \<Rightarrow> server" where
  "next_version t s = s\<lparr>worker := (worker s)(t := Waiting), desiredVersion := (desiredVersion s)(t := desiredVersion s t + 1)\<rparr>"

definition leave_frame :: "nat \<Rightarrow> server \<Rightarrow> server" where
  "leave_frame t s =
     (let c = workingThreadCount s; s' = s\<lparr>workingThreadCount := c - 1\<rparr>
      in if c = 1 then s'\<lparr>worker := (worker s)(t := Notifying)\<rparr> else next_version t s')"

inductive worker_step :: "(u32 \<Rightarrow> 'a option) \<Rightarrow> nat \<Rightarrow> server \<Rightarrow> server \<Rightarrow> bool" for Get t where
  wake: "worker s t = Waiting \<Longrightarrow> workerThreadsWorkVersion s = desiredVersion s t \<Longrightarrow>
    worker_step Get t s (s\<lparr>worker := (worker s)(t := Fetching)\<rparr>)"
| fetch: "worker s t = Fetching \<Longrightarrow> worker_step Get t s (fetch_work Get t s)"
| ran_actor: "worker s t = Running i \<Longrightarrow> worker_step Get t s (s\<lparr>worker := (worker s)(t := Fetching)\<rparr>)"
| leave: "worker s t = Leaving \<Longrightarrow> worker_step Get t s (leave_frame t s)"
| notify: "worker s t = Notifying \<Longrightarrow>
    worker_step Get t s (next_version t (s\<lparr>mainThreadShouldWakeup := True\<rparr>))"

definition server_step :: "(u32 \<Rightarrow> 'a option) \<Rightarrow> nat \<Rightarrow> server \<Rightarrow> server \<Rightarrow> bool" where
  "server_step Get n s s' \<longleftrightarrow> main_step n s s' \<or> (\<exists>t<n. worker_step Get t s s')"

section \<open>Invariant\<close>

text \<open>The actors are those with the indices below \<open>N\<close>, and the 32-bit index does not wrap around.\<close>

definition registry_ok :: "(u32 \<Rightarrow> 'a option) \<Rightarrow> nat \<Rightarrow> nat \<Rightarrow> bool" where
  "registry_ok Get n N \<longleftrightarrow> (\<forall>i. Get i \<noteq> None \<longleftrightarrow> unat i < N) \<and> N + n < 2 ^ 32"

text \<open>A thread that waits for the next version, and one that has left the frame.\<close>

definition idle :: "server \<Rightarrow> nat \<Rightarrow> bool" where
  "idle s t \<longleftrightarrow> worker s t = Waiting \<and> desiredVersion s t = workerThreadsWorkVersion s + 1"

definition left_frame :: "server \<Rightarrow> nat \<Rightarrow> bool" where
  "left_frame s t \<longleftrightarrow> idle s t \<or> worker s t = Notifying"

definition left_set :: "nat \<Rightarrow> server \<Rightarrow> nat set" where
  "left_set n s = {t. t < n \<and> left_frame s t}"

definition full_set :: "nat \<Rightarrow> server \<Rightarrow> nat set" where
  "full_set n s = {t. t < n \<and> (left_frame s t \<or> worker s t = Leaving)}"

definition between_frames :: "nat \<Rightarrow> nat \<Rightarrow> server \<Rightarrow> bool" where
  "between_frames n N s \<longleftrightarrow> (\<forall>t<n. idle s t) \<and> \<not> mainThreadShouldWakeup s \<and>
     (main s \<noteq> StoringCount \<longrightarrow> workingThreadCount s = of_nat n) \<and> (main s = Bumping \<longrightarrow> workIndex s = 0) \<and>
     (0 < frames s \<and> 0 < n \<longrightarrow> mset (map unat (ran s)) = mset [0..<N])"

definition in_frame :: "nat \<Rightarrow> nat \<Rightarrow> server \<Rightarrow> bool" where
  "in_frame n N s \<longleftrightarrow>
     (\<forall>t<n. idle s t \<or> desiredVersion s t = workerThreadsWorkVersion s) \<and>
     unat (workingThreadCount s) + card (left_set n s) = n \<and>
     (\<forall>t<n. worker s t = Notifying \<longrightarrow> \<not> mainThreadShouldWakeup s) \<and>
     (\<forall>t<n. \<forall>u<n. worker s t = Notifying \<and> worker s u = Notifying \<longrightarrow> t = u) \<and>
     ((\<exists>t<n. worker s t = Notifying) \<or> mainThreadShouldWakeup s \<longleftrightarrow> workingThreadCount s = 0 \<and> 0 < n)"

definition running_apart :: "nat \<Rightarrow> (nat \<Rightarrow> worker_pc) \<Rightarrow> bool" where
  "running_apart n w \<longleftrightarrow> (\<forall>t<n. \<forall>u<n. \<forall>i. w t = Running i \<and> w u = Running i \<longrightarrow> t = u)"

definition index_ok :: "nat \<Rightarrow> nat \<Rightarrow> server \<Rightarrow> bool" where
  "index_ok n N s \<longleftrightarrow>
     unat (workIndex s) \<le> N + card (full_set n s) \<and>
     (full_set n s \<noteq> {} \<longrightarrow> N < unat (workIndex s)) \<and>
     map unat (ran s) = [0..<min (unat (workIndex s)) N] \<and>
     (\<forall>t<n. \<forall>i. worker s t = Running i \<longrightarrow> i < workIndex s) \<and>
     running_apart n (worker s)"

definition server_ok :: "nat \<Rightarrow> nat \<Rightarrow> server \<Rightarrow> bool" where
  "server_ok n N s \<longleftrightarrow>
     (if main s = Sleeping then in_frame n N s \<and> index_ok n N s else between_frames n N s)"


section \<open>The invariant is kept\<close>

text \<open>What the other threads see of a step of the thread \<open>t\<close>.\<close>

definition others_same :: "nat \<Rightarrow> server \<Rightarrow> server \<Rightarrow> bool" where
  "others_same t s s' \<longleftrightarrow> workerThreadsWorkVersion s' = workerThreadsWorkVersion s \<and> main s' = main s \<and> frames s' = frames s \<and>
     (\<forall>u. u \<noteq> t \<longrightarrow> worker s' u = worker s u \<and> desiredVersion s' u = desiredVersion s u)"

lemmas step_defs = fetch_work_def next_version_def leave_frame_def Let_def

lemma worker_step_others: "worker_step Get t s s' \<Longrightarrow> others_same t s s'"
  by (erule worker_step.cases) (simp_all add: others_same_def step_defs split: option.split)

lemma left_set_upd:
  assumes "others_same t s s'" and "t < n"
  shows "left_set n s' = (if left_frame s' t then insert t (left_set n s) else left_set n s - {t})"
  using assms by (auto simp: left_set_def left_frame_def idle_def others_same_def)

lemma full_set_upd:
  assumes "others_same t s s'" and "t < n"
  shows "full_set n s' = (if left_frame s' t \<or> worker s' t = Leaving then insert t (full_set n s) else full_set n s - {t})"
  using assms by (auto simp: full_set_def left_frame_def idle_def others_same_def)

lemma finite_sets [simp]: "finite (left_set n s)" "finite (full_set n s)"
  by (simp_all add: left_set_def full_set_def)

lemma card_sets: "card (left_set n s) \<le> n" "card (full_set n s) \<le> n"
proof -
  have "card (left_set n s) \<le> card {..<n}" "card (full_set n s) \<le> card {..<n}"
    by (intro card_mono; auto simp: left_set_def full_set_def)+
  then show "card (left_set n s) \<le> n" "card (full_set n s) \<le> n" by simp_all
qed

lemma version_next: "(v::u32) + 1 \<noteq> v"
  by simp

lemma running_apart_upd:
  assumes "running_apart n w" and "\<And>i u. pc = Running i \<Longrightarrow> u < n \<Longrightarrow> w u \<noteq> Running i"
  shows "running_apart n (w(t := pc))"
  unfolding running_apart_def
proof (intro allI impI)
  fix u v i assume "u < n" "v < n" "(w(t := pc)) u = Running i \<and> (w(t := pc)) v = Running i"
  then show "u = v" using assms unfolding running_apart_def fun_upd_def by metis
qed

text \<open>The index.\<close>

lemma index_fetch:
  assumes I: "index_ok n N s" and G: "registry_ok Get n N" and t: "t < n" "worker s t = Fetching"
  shows "index_ok n N (fetch_work Get t s)"
proof -
  let ?i = "unat (workIndex s)" and ?s = "fetch_work Get t s"
  have tf: "t \<notin> full_set n s" using t by (simp add: full_set_def left_frame_def idle_def)
  have "card (insert t (full_set n s)) \<le> card {..<n}" using t by (intro card_mono) (auto simp: full_set_def)
  then have "card (full_set n s) < n" using tf by simp
  then have b: "?i + 1 < 2 ^ 32" using I G by (simp add: index_ok_def registry_ok_def)
  then have i: "unat (workIndex s + 1) = ?i + 1" by (simp add: unat_word_ariths)
  have o: "others_same t s ?s" using worker_step_others [OF fetch [OF t(2)]] .
  have ne: "worker s u \<noteq> Running (workIndex s)" if "u < n" for u
  proof
    assume "worker s u = Running (workIndex s)"
    then have "workIndex s < workIndex s" using I that unfolding index_ok_def by blast
    then show False by simp
  qed
  have lt: "u < workIndex s + 1" if "u < workIndex s" for u using that i by (simp add: word_less_nat_alt)
  have A: "running_apart n (worker s)" using I by (simp add: index_ok_def)
  show ?thesis
  proof (cases "Get (workIndex s)")
    case None
    then have N: "N \<le> ?i" using G unfolding registry_ok_def by (meson not_less)
    have s: "?s = s\<lparr>workIndex := workIndex s + 1, worker := (worker s)(t := Leaving)\<rparr>"
      using None by (simp add: step_defs)
    have f: "full_set n ?s = insert t (full_set n s)" using full_set_upd [OF o t(1)] s by simp
    have "unat (workIndex ?s) \<le> N + card (full_set n ?s)" "N < unat (workIndex ?s)"
      using I N i f tf by (simp_all add: s index_ok_def)
    moreover have "map unat (ran ?s) = [0..<min (unat (workIndex ?s)) N]"
      using I N i by (simp add: s index_ok_def min_def)
    moreover have "\<forall>u<n. \<forall>i. worker ?s u = Running i \<longrightarrow> i < workIndex ?s"
      using I lt by (simp add: s index_ok_def)
    moreover have "running_apart n (worker ?s)"
      by (simp add: s) (rule running_apart_upd [OF A], simp)
    ultimately show ?thesis unfolding index_ok_def by blast
  next
    case (Some actor)
    then have N: "?i < N" using G unfolding registry_ok_def by (metis option.distinct(1))
    have s: "?s = s\<lparr>workIndex := workIndex s + 1, worker := (worker s)(t := Running (workIndex s)), ran := ran s @ [workIndex s]\<rparr>"
      using Some by (simp add: step_defs)
    have fe: "full_set n s = {}" using I N by (auto simp: index_ok_def)
    have f: "full_set n ?s = full_set n s" using full_set_upd [OF o t(1)] s fe by (simp add: left_frame_def idle_def)
    have "map unat (ran ?s) = [0..<min (unat (workIndex ?s)) N]"
      using I N i by (simp add: s index_ok_def min_def)
    moreover have "\<forall>u<n. \<forall>i. worker ?s u = Running i \<longrightarrow> i < workIndex ?s"
      using I lt i by (auto simp: s index_ok_def word_less_nat_alt)
    moreover have "running_apart n (worker ?s)"
      by (simp add: s) (rule running_apart_upd [OF A], use ne in blast)
    moreover have "unat (workIndex ?s) \<le> N + card (full_set n ?s)" using N i by (simp add: s)
    ultimately show ?thesis using f fe unfolding index_ok_def by simp
  qed
qed

text \<open>A step that leaves the index alone, does not start an actor and keeps the thread in or out of the full set.\<close>

lemma index_keep:
  assumes "index_ok n N s" and "others_same t s s'" and "t < n"
    and "workIndex s' = workIndex s" and "ran s' = ran s" and "worker s' = (worker s)(t := w)" "\<And>i. w \<noteq> Running i"
    and "left_frame s' t \<or> worker s' t = Leaving \<longleftrightarrow> left_frame s t \<or> worker s t = Leaving"
  shows "index_ok n N s'"
proof -
  have f: "full_set n s' = full_set n s"
    using full_set_upd [OF assms(2,3)] assms(3,8) by (auto simp: full_set_def)
  have r: "worker s' u = Running i \<Longrightarrow> worker s u = Running i" for u i
    using assms(6,7) by (cases "u = t") auto
  have "running_apart n (worker s)" using assms(1) by (simp add: index_ok_def)
  then have "running_apart n (worker s')" unfolding assms(6)
    by (rule running_apart_upd) (use assms(7) in blast)
  then show ?thesis using assms(1) r unfolding index_ok_def f assms(4,5) by blast
qed

lemma index_step:
  assumes "worker_step Get t s s'" and "index_ok n N s" and "registry_ok Get n N" and "t < n" and F: "in_frame n N s"
  shows "index_ok n N s'"
  using assms(1)
proof cases
  case fetch
  then show ?thesis using index_fetch [OF assms(2,3,4)] by simp
next
  case wake
  then show ?thesis
    using index_keep [OF assms(2) worker_step_others [OF assms(1)] assms(4)] by (simp add: left_frame_def idle_def)
next
  case (ran_actor i)
  then show ?thesis
    using index_keep [OF assms(2) worker_step_others [OF assms(1)] assms(4)] by (simp add: left_frame_def idle_def)
next
  case leave
  then have "desiredVersion s t = workerThreadsWorkVersion s" using F assms(4) by (auto simp: in_frame_def idle_def)
  then show ?thesis
    using index_keep [OF assms(2) worker_step_others [OF assms(1)] assms(4)] leave
    by (simp add: left_frame_def idle_def step_defs split: if_splits)
next
  case notify
  then have "desiredVersion s t = workerThreadsWorkVersion s" using F assms(4) by (auto simp: in_frame_def idle_def)
  then show ?thesis
    using index_keep [OF assms(2) worker_step_others [OF assms(1)] assms(4)] notify
    by (simp add: left_frame_def idle_def step_defs)
qed


text \<open>The count, and the flag.\<close>

lemma in_frame_keep:
  assumes F: "in_frame n N s" and o: "others_same t s s'" and t: "t < n"
    and "workingThreadCount s' = workingThreadCount s" "mainThreadShouldWakeup s' = mainThreadShouldWakeup s"
    and "\<not> left_frame s t" "\<not> left_frame s' t" "desiredVersion s' t = desiredVersion s t"
  shows "in_frame n N s'"
proof -
  have l: "left_set n s' = left_set n s" using left_set_upd [OF o t] assms(6,7) by (auto simp: left_set_def)
  have w: "worker s' u = Notifying \<longleftrightarrow> worker s u = Notifying" for u
    using o assms(6,7) by (cases "u = t") (auto simp: others_same_def left_frame_def)
  have d: "idle s' u \<or> desiredVersion s' u = workerThreadsWorkVersion s'"
    if "idle s u \<or> desiredVersion s u = workerThreadsWorkVersion s" for u
    using that o assms(6,8) by (cases "u = t") (auto simp: others_same_def idle_def left_frame_def)
  show ?thesis using F d unfolding in_frame_def l w assms(4,5) by blast
qed

lemma in_frame_leave:
  assumes F: "in_frame n N s" and t: "t < n" and w: "worker s t = Leaving"
  shows "in_frame n N (leave_frame t s)"
proof -
  let ?s = "leave_frame t s" and ?c = "workingThreadCount s"
  have o: "others_same t s ?s" using worker_step_others [OF leave [OF w]] .
  have v: "desiredVersion s t = workerThreadsWorkVersion s" using F t w by (auto simp: in_frame_def idle_def)
  have tl: "t \<notin> left_set n s" using w by (simp add: left_set_def left_frame_def idle_def)
  have lf: "left_frame ?s t" using v by (simp add: left_frame_def idle_def step_defs)
  have l: "left_set n ?s = insert t (left_set n s)" using left_set_upd [OF o t] lf by simp
  have "card (insert t (left_set n s)) \<le> n" using card_sets(1) [of n ?s] l by simp
  then have "card (left_set n s) < n" using tl by simp
  then have c: "?c \<noteq> 0" using F by (auto simp: in_frame_def)
  have cc: "unat (?c - 1) = unat ?c - 1" "0 < unat ?c" using c by (simp_all add: unat_minus_one unat_gt_0)
  have no: "worker s u \<noteq> Notifying" if "u < n" for u using F c that by (auto simp: in_frame_def)
  have nf: "\<not> mainThreadShouldWakeup s" using F c by (auto simp: in_frame_def)
  have wk: "worker ?s u = Notifying \<longleftrightarrow> u = t \<and> ?c = 1" if "u < n" for u
    using no [OF that] by (auto simp: step_defs)
  have fl: "mainThreadShouldWakeup ?s = mainThreadShouldWakeup s" by (simp add: step_defs)
  have ct: "workingThreadCount ?s = ?c - 1" by (simp add: step_defs)
  have "idle ?s u \<or> desiredVersion ?s u = workerThreadsWorkVersion ?s" if "u < n" for u
    using F that o v by (cases "u = t") (auto simp: in_frame_def others_same_def idle_def step_defs)
  moreover have "unat (workingThreadCount ?s) + card (left_set n ?s) = n"
    using F l tl cc ct by (simp add: in_frame_def)
  moreover have "(\<exists>u<n. worker ?s u = Notifying) \<or> mainThreadShouldWakeup ?s \<longleftrightarrow> workingThreadCount ?s = 0 \<and> 0 < n"
    using wk t nf fl ct by auto
  moreover have "\<forall>u<n. worker ?s u = Notifying \<longrightarrow> \<not> mainThreadShouldWakeup ?s" using nf fl by simp
  moreover have "\<forall>u<n. \<forall>x<n. worker ?s u = Notifying \<and> worker ?s x = Notifying \<longrightarrow> u = x" using wk by blast
  ultimately show ?thesis unfolding in_frame_def by blast
qed

lemma in_frame_notify:
  assumes F: "in_frame n N s" and t: "t < n" and w: "worker s t = Notifying"
  shows "in_frame n N (next_version t (s\<lparr>mainThreadShouldWakeup := True\<rparr>))"
proof -
  let ?s = "next_version t (s\<lparr>mainThreadShouldWakeup := True\<rparr>)"
  have o: "others_same t s ?s" using worker_step_others [OF notify [OF w]] .
  have v: "desiredVersion s t = workerThreadsWorkVersion s" using F t w by (auto simp: in_frame_def idle_def)
  have i: "idle ?s t" using v by (simp add: idle_def step_defs)
  have "left_set n ?s = left_set n s"
    using left_set_upd [OF o t] i t w by (auto simp: left_frame_def left_set_def)
  moreover have "worker ?s u \<noteq> Notifying" if "u < n" for u
    using F t w that by (cases "u = t") (auto simp: in_frame_def step_defs)
  moreover have "idle ?s u \<or> desiredVersion ?s u = workerThreadsWorkVersion ?s" if "u < n" for u
    using F that i by (cases "u = t") (auto simp: in_frame_def idle_def step_defs)
  moreover have "workingThreadCount s = 0 \<and> 0 < n" using F t w unfolding in_frame_def by blast
  moreover have "workingThreadCount ?s = workingThreadCount s" "mainThreadShouldWakeup ?s" by (simp_all add: step_defs)
  ultimately show ?thesis using F unfolding in_frame_def by simp
qed

lemma in_frame_step:
  assumes "worker_step Get t s s'" and F: "in_frame n N s" and t: "t < n"
  shows "in_frame n N s'"
  using assms(1)
proof cases
  case wake
  then show ?thesis using in_frame_keep [OF F worker_step_others [OF assms(1)] t] by (simp add: left_frame_def idle_def)
next
  case fetch
  then show ?thesis using in_frame_keep [OF F worker_step_others [OF assms(1)] t]
    by (simp add: left_frame_def idle_def step_defs split: option.splits)
next
  case (ran_actor i)
  then show ?thesis using in_frame_keep [OF F worker_step_others [OF assms(1)] t] by (simp add: left_frame_def idle_def)
next
  case leave
  then show ?thesis using in_frame_leave [OF F t] by simp
next
  case notify
  then show ?thesis using in_frame_notify [OF F t] by simp
qed

lemma no_step_between:
  assumes "between_frames n N s" and "t < n"
  shows "\<not> worker_step Get t s s'"
proof
  have i: "worker s t = Waiting" "desiredVersion s t = workerThreadsWorkVersion s + 1"
    using assms by (simp_all add: between_frames_def idle_def)
  assume "worker_step Get t s s'"
  then show False using i by cases simp_all
qed

lemma all_left:
  assumes "in_frame n N s" and "workingThreadCount s = 0" and "t < n"
  shows "left_frame s t"
proof -
  have "card (left_set n s) = card {..<n}" using assms(1,2) by (simp add: in_frame_def)
  then have "left_set n s = {..<n}" by (intro card_subset_eq) (auto simp: left_set_def)
  then show ?thesis using assms(3) by (auto simp: left_set_def)
qed

lemma main_step_ok:
  assumes "main_step n s s'" and S: "server_ok n N s" and n: "n < 2 ^ 32"
  shows "server_ok n N s'"
  using assms(1)
proof cases
  case store_count
  then show ?thesis using S by (simp add: server_ok_def between_frames_def idle_def)
next
  case store_index
  then show ?thesis using S by (simp add: server_ok_def between_frames_def idle_def)
next
  case bump
  have B: "between_frames n N s" using S bump by (simp add: server_ok_def)
  have un: "unat (of_nat n :: u32) = n" using n by (simp add: unsigned_of_nat take_bit_nat_eq_self)
  have "of_nat n = (0::u32) \<longleftrightarrow> unat (of_nat n :: u32) = 0" by (simp only: unsigned_eq_0_iff)
  then have "of_nat n = (0::u32) \<longleftrightarrow> n = 0" unfolding un .
  moreover note un
  moreover have l: "left_set n s' = {}" "full_set n s' = {}"
    using B bump(1) by (auto simp: between_frames_def idle_def left_set_def full_set_def left_frame_def)
  moreover have "workingThreadCount s = of_nat n" "workIndex s = 0" using B bump(2) by (simp_all add: between_frames_def)
  moreover have "\<forall>t<n. worker s t = Waiting \<and> desiredVersion s t = workerThreadsWorkVersion s + 1"
    using B by (simp add: between_frames_def idle_def)
  ultimately show ?thesis using B bump
    by (auto simp: server_ok_def in_frame_def index_ok_def running_apart_def between_frames_def)
next
  case woken
  have F: "in_frame n N s" and I: "index_ok n N s" using S woken by (simp_all add: server_ok_def)
  have c: "workingThreadCount s = 0" "0 < n" using F woken(3) by (auto simp: in_frame_def)
  have i: "idle s t" if "t < n" for t
    using all_left [OF F c(1) that] F woken(3) that by (auto simp: in_frame_def left_frame_def)
  have "0 \<in> full_set n s" using i [OF c(2)] c(2) by (simp add: full_set_def left_frame_def)
  then have "map unat (ran s) = [0..<N]" using I by (auto simp: index_ok_def min_def)
  then have "mset (map unat (ran s)) = mset [0..<N]" by (rule arg_cong)
  moreover have "\<forall>t<n. idle s' t" using i woken(1) by (simp add: idle_def)
  ultimately show ?thesis using woken by (simp add: server_ok_def between_frames_def)
qed

lemma server_step_ok:
  assumes "server_step Get n s s'" and S: "server_ok n N s" and G: "registry_ok Get n N"
  shows "server_ok n N s'"
proof -
  have n: "n < 2 ^ 32" using G by (simp add: registry_ok_def)
  consider "main_step n s s'" | t where "t < n" "worker_step Get t s s'"
    using assms(1) by (auto simp: server_step_def)
  then show ?thesis
  proof cases
    case 1
    then show ?thesis using main_step_ok [OF _ S n] by blast
  next
    case (2 t)
    have m: "main s = Sleeping" using no_step_between [OF _ 2(1)] 2(2) S by (auto simp: server_ok_def split: if_splits)
    then have F: "in_frame n N s" and I: "index_ok n N s" using S by (simp_all add: server_ok_def)
    have "main s' = Sleeping" using worker_step_others [OF 2(2)] m by (simp add: others_same_def)
    then show ?thesis
      using in_frame_step [OF 2(2) F 2(1)] index_step [OF 2(2) I G 2(1) F] by (simp add: server_ok_def)
  qed
qed

interpretation server: step_system "server_step Get n" "\<lambda>s. registry_ok Get n N \<and> server_ok n N s" for Get n N
  by unfold_locales (use server_step_ok in blast)

lemma server_ok_new: "server_ok n N (new_server n k)"
  by (simp add: server_ok_def between_frames_def idle_def new_server_def)

lemma server_reachable_ok:
  assumes "registry_ok Get n N" and "(server_step Get n)\<^sup>*\<^sup>* (new_server n k) s"
  shows "server_ok n N s"
  using server.steps_ok [OF assms(2), of N] assms(1) server_ok_new by blast

section \<open>Frames end\<close>

text \<open>What the invariant says of the actors: nobody shares one, and between frames all of them have been run.\<close>

lemma server_ok_apart:
  assumes "server_ok n N s"
  shows "running_apart n (worker s)"
proof (cases "main s = Sleeping")
  case True
  then show ?thesis using assms by (simp add: server_ok_def index_ok_def)
next
  case False
  then have "worker s t = Waiting" if "t < n" for t
    using assms that by (simp add: server_ok_def between_frames_def idle_def)
  then show ?thesis by (simp add: running_apart_def)
qed

lemma server_ok_ran:
  "server_ok n N s \<Longrightarrow> main s \<noteq> Sleeping \<Longrightarrow> 0 < frames s \<Longrightarrow> 0 < n \<Longrightarrow> mset (map unat (ran s)) = mset [0..<N]"
  by (simp add: server_ok_def between_frames_def)

lemma server_progress:
  assumes S: "server_ok n N s" and n: "0 < n"
  shows "\<exists>s'. server_step Get n s s'"
proof (cases "main s")
  case Sleeping
  show ?thesis
  proof (cases "mainThreadShouldWakeup s")
    case True
    then show ?thesis using woken [OF Sleeping] by (auto simp: server_step_def)
  next
    case nw: False
    have F: "in_frame n N s" using S Sleeping by (simp add: server_ok_def)
    have "\<exists>t<n. \<not> idle s t"
    proof (rule ccontr)
      assume "\<not> ?thesis"
      then have i: "idle s t" if "t < n" for t using that by blast
      then have "left_set n s = {..<n}" by (auto simp: left_set_def left_frame_def)
      then have "workingThreadCount s = 0" using F by (simp add: in_frame_def unsigned_eq_0_iff)
      then have "\<exists>t<n. worker s t = Notifying" using F n nw unfolding in_frame_def by blast
      then show False using i by (auto simp: idle_def)
    qed
    then obtain t where t: "t < n" "\<not> idle s t" by blast
    have "\<exists>s'. worker_step Get t s s'"
    proof (cases "worker s t")
      case Waiting
      then have "workerThreadsWorkVersion s = desiredVersion s t" using F t unfolding in_frame_def by metis
      then show ?thesis using wake [OF Waiting] by blast
    qed (use fetch ran_actor leave notify in blast)+
    then show ?thesis using t(1) by (auto simp: server_step_def)
  qed
qed (use store_count [of s n] store_index [of s n] bump [of s n] in \<open>auto simp: server_step_def\<close>)

definition main_rank :: "main_pc \<Rightarrow> nat" where
  "main_rank pc = (case pc of Sleeping \<Rightarrow> 3 | StoringCount \<Rightarrow> 2 | StoringIndex \<Rightarrow> 1 | Bumping \<Rightarrow> 0)"

definition worker_rank :: "server \<Rightarrow> nat \<Rightarrow> nat" where
  "worker_rank s t = (case worker s t of
     Waiting \<Rightarrow> if idle s t then 0 else 5 | Running i \<Rightarrow> 5 | Fetching \<Rightarrow> 4 | Leaving \<Rightarrow> 3 | Notifying \<Rightarrow> 2)"

definition frame_left :: "nat \<Rightarrow> nat \<Rightarrow> server \<Rightarrow> nat \<times> nat \<times> nat" where
  "frame_left n N s = (main_rank (main s), N + n + 1 - unat (workIndex s), \<Sum>t<n. worker_rank s t)"

lemma index_bound:
  assumes "index_ok n N s" and "registry_ok Get n N" and "t < n" and "worker s t = Fetching"
  shows "unat (workIndex s) < N + n" and "unat (workIndex s + 1) = unat (workIndex s) + 1"
proof -
  have tf: "t \<notin> full_set n s" using assms(4) by (simp add: full_set_def left_frame_def idle_def)
  have "card (insert t (full_set n s)) \<le> card {..<n}" using assms(3) by (intro card_mono) (auto simp: full_set_def)
  then have "card (full_set n s) < n" using tf by simp
  then show "unat (workIndex s) < N + n" using assms(1) by (simp add: index_ok_def)
  then have "unat (workIndex s) + 1 < 2 ^ 32" using assms(2) by (simp add: registry_ok_def)
  then show "unat (workIndex s + 1) = unat (workIndex s) + 1" by (simp add: unat_word_ariths)
qed

lemma worker_rank_step:
  assumes "worker_step Get t s s'" and F: "in_frame n N s" and I: "index_ok n N s" and G: "registry_ok Get n N" and t: "t < n"
  shows "(frame_left n N s', frame_left n N s) \<in> less_than <*lex*> less_than <*lex*> less_than"
proof -
  have o: "others_same t s s'" using worker_step_others [OF assms(1)] .
  have same: "worker_rank s' u = worker_rank s u" if "u \<noteq> t" for u
    using o that by (simp add: worker_rank_def idle_def others_same_def split: worker_pc.split)
  have lower: ?thesis if "workIndex s' = workIndex s" "worker_rank s' t < worker_rank s t"
    using rank_sum_less [OF t, of "worker_rank s'" "worker_rank s"] that o same by (simp add: frame_left_def others_same_def)
  have v: "idle s t \<or> desiredVersion s t = workerThreadsWorkVersion s" using F t by (simp add: in_frame_def)
  show ?thesis
    using assms(1)
  proof cases
    case fetch
    have "workIndex s' = workIndex s + 1" using fetch by (simp add: step_defs split: option.split)
    then show ?thesis using index_bound [OF I G t fetch(2)] o
      by (simp add: frame_left_def others_same_def, intro disjI1, linarith)
  next
    case wake
    then show ?thesis by (intro lower) (simp_all add: worker_rank_def idle_def)
  next
    case (ran_actor i)
    then show ?thesis by (intro lower) (simp_all add: worker_rank_def idle_def)
  next
    case leave
    then show ?thesis using v by (intro lower) (auto simp: worker_rank_def idle_def step_defs)
  next
    case notify
    then show ?thesis using v by (intro lower) (auto simp: worker_rank_def idle_def step_defs)
  qed
qed

lemma frame_left_step:
  assumes "server_step Get n s s'" and S: "server_ok n N s" and G: "registry_ok Get n N" and f: "frames s' = frames s"
  shows "(frame_left n N s', frame_left n N s) \<in> less_than <*lex*> less_than <*lex*> less_than"
proof -
  consider "main_step n s s'" | t where "t < n" "worker_step Get t s s'"
    using assms(1) by (auto simp: server_step_def)
  then show ?thesis
  proof cases
    case 1
    then show ?thesis using f by cases (simp_all add: frame_left_def main_rank_def)
  next
    case (2 t)
    have m: "main s = Sleeping" using no_step_between [OF _ 2(1)] 2(2) S by (auto simp: server_ok_def split: if_splits)
    then have "in_frame n N s" "index_ok n N s" using S by (simp_all add: server_ok_def)
    then show ?thesis using worker_rank_step [OF 2(2) _ _ G 2(1)] by blast
  qed
qed

lemma frames_mono: "server_step Get n s s' \<Longrightarrow> frames s \<le> frames s'"
proof -
  assume "server_step Get n s s'"
  then consider "main_step n s s'" | t where "t < n" "worker_step Get t s s'"
    by (auto simp: server_step_def)
  then show ?thesis
  proof cases
    case 1
    then show ?thesis by cases simp_all
  next
    case 2
    then show ?thesis using worker_step_others by (fastforce simp: others_same_def)
  qed
qed

lemma sleeping_steps:
  assumes "server_step Get n s s'" and "main s = Sleeping"
  shows "frames s' = frames s"
proof -
  consider "main_step n s s'" | t where "worker_step Get t s s'" using assms(1) by (auto simp: server_step_def)
  then show ?thesis
  proof cases
    case 1
    then show ?thesis using assms(2) by cases simp_all
  next
    case 2
    then show ?thesis using worker_step_others by (fastforce simp: others_same_def)
  qed
qed

interpretation frame: progress_system "server_step Get n" "\<lambda>s. registry_ok Get n N \<and> 0 < n \<and> server_ok n N s"
  "\<lambda>s s'. frames s' = frames s" "\<lambda>s. main s \<noteq> Sleeping" "frame_left n N"
  "less_than <*lex*> less_than <*lex*> less_than" for Get n N
proof
  show "wf (less_than <*lex*> less_than <*lex*> less_than)" by (intro wf_lex_prod wf_less_than)
  show "\<exists>s'. server_step Get n s s' \<and> frames s' = frames s"
    if "registry_ok Get n N \<and> 0 < n \<and> server_ok n N s" "\<not> main s \<noteq> Sleeping" for s
    using server_progress [of n N s Get] sleeping_steps [of Get n s] that by blast
qed (use server_step_ok frame_left_step in blast)+

lemma next_frame_comes:
  assumes ok: "registry_ok Get n N" "0 < n" "server_ok n N (f 0)" and run: "\<And>i. server_step Get n (f i) (f (Suc i))"
  shows "\<exists>i. frames (f 0) < frames (f i)"
proof (rule ccontr)
  assume no: "\<not> ?thesis"
  have "frames (f 0) \<le> frames (f i)" for i by (induction i) (use frames_mono [OF run] order_trans in blast)+
  then have c: "frames (f i) = frames (f 0)" for i using no by (meson le_antisym not_less)
  have "frames (f (Suc i)) = frames (f i)" for i using c [of i] c [of "Suc i"] by simp
  then show False using frame.no_infinite_run [where Get = Get and n = n and N = N and f = f] ok run by blast
qed

text \<open>Some run ends a frame that has begun.\<close>

lemma some_frame_ends:
  assumes "registry_ok Get n N" and "0 < n" and r: "(server_step Get n)\<^sup>*\<^sup>* (new_server n k) s" and "0 < frames s"
  shows "\<exists>s'. (server_step Get n)\<^sup>*\<^sup>* (new_server n k) s' \<and> main s' \<noteq> Sleeping \<and> 0 < frames s'"
proof -
  obtain s' where s': "(\<lambda>s s'. server_step Get n s s' \<and> frames s' = frames s)\<^sup>*\<^sup>* s s'" "main s' \<noteq> Sleeping"
    using frame.goal_reached [of Get n N s] server_reachable_ok [OF assms(1,3)] assms(1,2) by blast
  from s'(1) have "frames s' = frames s" by (induction rule: rtranclp_induct) auto
  then show ?thesis using s' rtranclp_trans [OF r frame.inner_steps [OF s'(1)]] assms(4) by auto
qed

lemma first_frame_begins:
  "\<exists>s. (server_step Get n)\<^sup>*\<^sup>* (new_server n k) s \<and> main s = Sleeping \<and> 0 < frames s"
proof -
  let ?s0 = "new_server n k"
  let ?s1 = "?s0\<lparr>workingThreadCount := of_nat n, main := StoringIndex\<rparr>"
  let ?s2 = "?s1\<lparr>workIndex := 0, main := Bumping\<rparr>"
  let ?s3 = "?s2\<lparr>workerThreadsWorkVersion := workerThreadsWorkVersion ?s2 + 1, main := Sleeping, ran := [], frames := Suc (frames ?s2)\<rparr>"
  have "main_step n ?s0 ?s1" by (rule store_count) (simp add: new_server_def)
  moreover have "main_step n ?s1 ?s2" by (rule store_index) simp
  moreover have "main_step n ?s2 ?s3" by (rule bump) simp
  ultimately have "server_step Get n ?s0 ?s1" "server_step Get n ?s1 ?s2" "server_step Get n ?s2 ?s3"
    unfolding server_step_def by blast+
  then have "(server_step Get n)\<^sup>*\<^sup>* ?s0 ?s3"
    by (intro rtranclp.rtrancl_into_rtrancl [OF rtranclp.rtrancl_into_rtrancl [OF rtranclp.rtrancl_into_rtrancl [OF rtranclp.rtrancl_refl]]])
  then show ?thesis by (intro exI [of _ ?s3]) simp
qed

text \<open>A registry of one actor, for the witnesses.\<close>

definition one_actor :: "u32 \<Rightarrow> u32 option" where
  "one_actor i = (if i < 1 then Some i else None)"

lemma one_actor_ok: "registry_ok one_actor 2 1"
  by (simp add: registry_ok_def one_actor_def word_less_nat_alt)

text \<open>Without worker threads (\<open>hardware_concurrency\<close> may be 0) the first frame never ends.\<close>

lemma no_workers_no_frames:
  assumes "main s = Sleeping" and "\<not> mainThreadShouldWakeup s"
  shows "\<not> server_step Get 0 s s'"
  using assms by (auto simp: server_step_def elim: main_step.cases)

section \<open>Commands\<close>

text \<open>
  The command queue, and a round of the command thread of Main.cpp with the server behind its pointer, \<open>None\<close> once it
  has been deleted.  The destructor destroys \<open>workerThreads_\<close> first: with a running thread this is \<open>std::terminate\<close>.
\<close>

definition AddCommand :: "string \<Rightarrow> string list option \<Rightarrow> string list option res" where
  "AddCommand command commands =
     (case commands of None \<Rightarrow> Inl UseAfterFree | Some cs \<Rightarrow> Inr (Some (cs @ [command])))"

definition delete_server :: "nat \<Rightarrow> string list option \<Rightarrow> string list option res" where
  "delete_server WorkerThreadsCount commands =
     (case commands of None \<Rightarrow> Inl UseAfterFree | Some cs \<Rightarrow> if 0 < WorkerThreadsCount then Inl Aborted else Inr None)"

definition command_round :: "nat \<Rightarrow> string \<Rightarrow> string list option \<Rightarrow> string list option res" where
  "command_round WorkerThreadsCount command commands =
     bindR (delete_server WorkerThreadsCount commands) (AddCommand command)"

text \<open>Every command typed on the console ends the server.\<close>

lemma command_round_faults: "\<exists>e. command_round n command commands = Inl e"
  by (cases commands) (simp_all add: command_round_def delete_server_def AddCommand_def)

section \<open>Properties\<close>

text \<open>
  C11. The barrier of the main loop: whenever the main thread prepares the next frame no worker runs an actor, and the frame
  before has run every actor exactly once; at no time do two workers run the same actor.
\<close>

theorem frame_barrier:
  assumes "registry_ok Get n N" and "(server_step Get n)\<^sup>*\<^sup>* (new_server n k) s"
  shows "(main s \<noteq> Sleeping \<longrightarrow> (\<forall>t<n. \<forall>i. worker s t \<noteq> Running i) \<and>
      (0 < frames s \<and> 0 < n \<longrightarrow> mset (map unat (ran s)) = mset [0..<N])) \<and>
    (\<forall>t<n. \<forall>u<n. \<forall>i. worker s t = Running i \<and> worker s u = Running i \<longrightarrow> t = u)"
proof -
  have S: "server_ok n N s" using server_reachable_ok [OF assms] .
  then have "worker s t = Waiting" if "main s \<noteq> Sleeping" "t < n" for t
    using that by (simp add: server_ok_def between_frames_def idle_def)
  then show ?thesis using server_ok_apart [OF S] server_ok_ran [OF S] unfolding running_apart_def
    by (metis worker_pc.distinct(3))
qed

theorem frame_barrier_witness:
  "\<exists>s. (server_step one_actor 2)\<^sup>*\<^sup>* (new_server 2 77) s \<and> main s \<noteq> Sleeping \<and>
     mset (map unat (ran s)) = mset [0..<1]"
proof -
  obtain s where s: "(server_step one_actor 2)\<^sup>*\<^sup>* (new_server 2 77) s" "main s \<noteq> Sleeping" "0 < frames s"
    using some_frame_ends [OF one_actor_ok zero_less_numeral] first_frame_begins by blast
  then show ?thesis using frame_barrier [OF one_actor_ok s(1)] by (intro exI [of _ s]) simp
qed

text \<open>
  C24. With at least one worker thread the server never stops: some thread can always go on, and every infinite run from a
  reachable state reaches the next frame.
\<close>

theorem frames_go_on:
  assumes "registry_ok Get n N" and "0 < n" and "(server_step Get n)\<^sup>*\<^sup>* (new_server n k) s"
  shows "(\<exists>s'. server_step Get n s s') \<and>
    (\<forall>f. f 0 = s \<and> (\<forall>i. server_step Get n (f i) (f (Suc i))) \<longrightarrow> (\<exists>i. frames s < frames (f i)))"
proof -
  have S: "server_ok n N s" using server_reachable_ok [OF assms(1,3)] .
  have "\<exists>i. frames s < frames (f i)" if "f 0 = s" "\<forall>i. server_step Get n (f i) (f (Suc i))" for f
    using next_frame_comes [OF assms(1,2), of f] S that by simp
  then show ?thesis using server_progress [OF S assms(2)] by blast
qed

theorem frames_go_on_witness:
  "\<exists>s'. server_step one_actor 2 (new_server 2 77) s'"
  using frames_go_on [OF one_actor_ok zero_less_numeral rtranclp.rtrancl_refl] by blast

end
