(* ===== verification/Server_Start.thy ===== *)
theory Server_Start
  imports Auth_Server Main_Loop Db_Layer
begin

text \<open>
  How the parts are put together: \<open>ActorRegistry::Register\<close>, the constructor of \<open>MainServer\<close> and \<open>main\<close>.  The registration
  fixes what a frame runs; the order of the constructor leaves a time in which clients are served and no actor exists.
\<close>

section \<open>The registry\<close>

text \<open>
  The map from names to actors, and the queue that frames run; the pointers of the queue lead to actors that the map owns and
  are given by their names.
\<close>

record ('m, 'a) actor_registry =
  byName :: "('m, 'a) registry_of_actors"
  actorRunQueue :: "string list"

definition new_actor_registry :: "('m, 'a) actor_registry" where
  "new_actor_registry = \<lparr>byName = (\<lambda>nm. None), actorRunQueue = []\<rparr>"

text \<open>\<open>emplace\<close> keeps the actor that has the name already, and the queue gets the one that is in the map.\<close>

definition Register :: "('m, 'a) dynamic_actor \<Rightarrow> ('m, 'a) actor_registry \<Rightarrow> ('m, 'a) actor_registry" where
  "Register actor r =
     (let nm = Name actor
      in r\<lparr>byName := (case byName r nm of None \<Rightarrow> (byName r)(nm \<mapsto> actor) | Some old \<Rightarrow> byName r),
           actorRunQueue := actorRunQueue r @ [nm]\<rparr>)"

lemma register_each:
  "actorRunQueue (fold Register as r) = actorRunQueue r @ map Name as \<and>
   byName (fold Register as r) nm = (case byName r nm of Some a \<Rightarrow> Some a | None \<Rightarrow> find (\<lambda>a. Name a = nm) as)"
proof (induction as arbitrary: r)
  case (Cons a as)
  then show ?case by (auto simp: Register_def Let_def split: option.splits)
qed (simp split: option.split)

text \<open>What the loop of the workers relies on: \<open>Get\<close> gives the actor at an index of the queue, and nothing beyond its end.\<close>

definition runs_queue :: "(u32 \<Rightarrow> string option) \<Rightarrow> ('m, 'a) actor_registry \<Rightarrow> bool" where
  "runs_queue Get r \<longleftrightarrow>
     (\<forall>i. Get i = (if unat i < length (actorRunQueue r) then Some (actorRunQueue r ! unat i) else None))"

lemma runs_queue_ok:
  assumes "runs_queue Get r" and "length (actorRunQueue r) + n < 2 ^ 32"
  shows "registry_ok Get n (length (actorRunQueue r))"
  using assms by (simp add: registry_ok_def runs_queue_def)

lemma queue_position:
  assumes "runs_queue Get r" and "distinct (actorRunQueue r)" and "Get i = Some nm" and "Get j = Some nm"
  shows "i = j"
proof -
  have "unat i < length (actorRunQueue r)" "unat j < length (actorRunQueue r)" "actorRunQueue r ! unat i = actorRunQueue r ! unat j"
    using assms(1,3,4) by (auto simp: runs_queue_def split: if_splits)
  then have "unat i = unat j" using assms(2) nth_eq_iff_index_eq by blast
  then show ?thesis by (simp add: word_unat_eq_iff)
qed

section \<open>The constructor of the server\<close>

record ('t, 'a, 'c) main_server =
  Network :: "('t, 'a) network"
  runQueue :: "string list"
  Pool :: "'c db_pool"
  loop :: server

text \<open>
  \<open>MainServer::MainServer\<close>: an empty registry, the network server on it, the pool, the worker threads, and at last
  \<open>ActorRegistry::Create\<close> of \<open>A_Auth\<close>, which no file defines and which is a parameter.
\<close>

definition new_main_server :: "((net_message, 'a) actor_registry \<Rightarrow> (net_message, 'a) actor_registry res) \<Rightarrow> nat \<Rightarrow> u32 \<Rightarrow>
    start_env \<Rightarrow> (nat \<Rightarrow> 'c option) \<Rightarrow> nat \<Rightarrow> ('t, 'a, 'c) main_server res" where
  "new_main_server Create mainWorkerThreadsCount anyIndex env connect maxDbConnections =
     (let registry = new_actor_registry
      in bindR (start_network env ''A_Auth'' (byName registry)) (\<lambda>network.
         bindR (new_db_pool connect maxDbConnections) (\<lambda>pool.
         bindR (Create registry) (\<lambda>registry'.
         Inr \<lparr>Network = network\<lparr>actors := byName registry'\<rparr>, runQueue = actorRunQueue registry', Pool = pool,
              loop = new_server mainWorkerThreadsCount anyIndex\<rparr>))))"

text \<open>
  \<open>main\<close>: it ends with 1 if WinSock cannot be started; otherwise it serves with 16 connections and two slots to accept, and
  \<open>Run\<close> never returns.  \<open>slot\<close> gives the answers for the slots.
\<close>

datatype 's program = ExitWith nat | Serves 's

definition main_program :: "bool \<Rightarrow> ((net_message, 'a) actor_registry \<Rightarrow> (net_message, 'a) actor_registry res) \<Rightarrow> nat \<Rightarrow> u32 \<Rightarrow>
    start_env \<Rightarrow> (nat \<Rightarrow> bool \<times> bool) \<Rightarrow> (nat \<Rightarrow> 'c option) \<Rightarrow> ('t, 'a, 'c) main_server program res" where
  "main_program wsaStarted Create hardware_concurrency anyIndex env slot connect =
     (if \<not> wsaStarted then Inr (ExitWith 1)
      else bindR (new_main_server Create hardware_concurrency anyIndex (env\<lparr>slotAnswers := map slot [0..<2]\<rparr>) connect 16)
             (\<lambda>s. Inr (Serves s)))"

section \<open>Before the first actor\<close>

lemma started_network:
  "start_network env nm acts = Inr n \<Longrightarrow> n = new_network nm acts"
  by (simp add: start_network_eq split: if_splits)

lemma new_actor_Name:
  "new_actor nm hs x = Inr a \<Longrightarrow> Name a = nm"
  by (auto simp: new_actor_def RegisterHandlers_eq split: if_splits)

text \<open>The network server with one accepted client.\<close>

lemma accepted_first:
  fixes n :: "('t, 'a) network"
  assumes "PostAccept pr env recvOk (new_network nm acts) = Inr n" and "sessions n c = Some s"
  shows "actors n = acts" "isIoOnline s = (\<lambda>io. io = IoType_Receive)" "\<not> shouldClose s" "AssociatedActor s = nm"
proof -
  let ?n = "new_network nm acts :: ('t, 'a) network"
  have e: "sessions ?n = (\<lambda>c. None)" "newContext ?n = 0" "actors ?n = acts" "InitialAssociatedActor ?n = nm"
    by (simp_all add: new_network_def)
  obtain r n1 where a: "accept_session pr env recvOk ?n = Inr (r, n1)"
    "(case r of Some (context, False) \<Rightarrow> SessionCleanupRoutine False context n1 | _ \<Rightarrow> Inr n1) = Inr n"
    using assms(1) unfolding PostAccept_def by (auto simp: bindR_eq_Inr)
  have "r \<noteq> None"
  proof
    assume "r = None"
    then have "n = ?n" using a unfolding accept_session_eq e
      by (auto simp: bindR_eq_Inr Let_def split: option.splits if_splits prod.splits)
    then show False using assms(2) e(1) by simp
  qed
  then obtain ssl posted s' where t: "TryReceiveAsync pr recvOk (new_session pr ssl 0 nm) = (posted, s')"
    "r = Some (0, posted \<noteq> None)" "n1 = put_session 0 s' (?n\<lparr>newContext := 1\<rparr>)"
    using a(1) unfolding accept_session_eq e
    by (auto simp: bindR_eq_Inr Let_def split: option.splits if_splits prod.splits)
  have A: "AssociatedActor s' = nm" using TryReceiveAsync_app(3) [OF t(1)] by (simp add: new_session_def)
  have F: "shouldClose s' = False" "posted \<noteq> None \<Longrightarrow> isIoOnline s' = (\<lambda>io. io = IoType_Receive)"
    "posted = None \<Longrightarrow> isIoOnline s' = (\<lambda>io. False)"
    using TryReceiveAsync_flags [OF t(1)] by (auto simp: new_session_def fun_eq_iff)
  have "posted \<noteq> None"
  proof
    assume p: "posted = None"
    then have "close_session 0 n1 = (True, put_session 0 (Cleanup s') n1)"
      using F(3) t(3) by (simp add: close_session_def Close_def Cleanup_def Let_def)
    then have "n = snd (True, n)" "\<exists>b. erase_session 0 (put_session 0 (Cleanup s') n1) = Inr (b, n)"
      using a(2) t(2) p by (auto simp: SessionCleanupRoutine_def bindR_eq_Inr)
    then have "sessions n = (\<lambda>c. None)"
      using t(3) e(1) by (auto simp: erase_session_eq bindR_eq_Inr fun_eq_iff split: prod.splits)
    then show False using assms(2) by simp
  qed
  then have "n = n1" using a(2) t(2) by auto
  then show "actors n = acts" "isIoOnline s = (\<lambda>io. io = IoType_Receive)" "\<not> shouldClose s" "AssociatedActor s = nm"
    using t(3) assms(2) e F(1) F(2) [OF \<open>posted \<noteq> None\<close>] A by (auto split: if_splits)
qed

section \<open>Properties\<close>

text \<open>
  C27. What a frame runs.  After actors with different names have been registered, each is found under its name, and under every
  interleaving of the main loop a frame runs each of them exactly once and no actor is run by two threads at the same time.
\<close>

theorem frames_run_registered_actors:
  assumes "distinct (map Name as)" and "length as + n < 2 ^ 32" and "runs_queue Get (fold Register as new_actor_registry)"
    and "(server_step Get n)\<^sup>*\<^sup>* (new_server n k) s"
  shows "(\<forall>a\<in>set as. byName (fold Register as new_actor_registry) (Name a) = Some a) \<and>
    (main s \<noteq> Sleeping \<and> 0 < frames s \<and> 0 < n \<longrightarrow> mset (map (\<lambda>i. the (Get i)) (ran s)) = mset (map Name as)) \<and>
    (\<forall>t<n. \<forall>u<n. \<forall>i j nm. worker s t = Running i \<and> worker s u = Running j \<and> Get i = Some nm \<and> Get j = Some nm \<longrightarrow> t = u)"
proof -
  let ?r = "fold Register as new_actor_registry"
  have q: "actorRunQueue ?r = map Name as" using register_each [of as new_actor_registry] by (simp add: new_actor_registry_def)
  have G: "registry_ok Get n (length as)" using runs_queue_ok [OF assms(3)] assms(2) q by simp
  have S: "server_ok n (length as) s" using server_reachable_ok [OF G assms(4)] .
  have "find (\<lambda>b. Name b = Name a) as = Some a" if "a \<in> set as" for a
    using that assms(1) by (induction as) auto
  then have found: "byName ?r (Name a) = Some a" if "a \<in> set as" for a
    using that register_each [of as new_actor_registry "Name a"] by (simp add: new_actor_registry_def)
  have all: "mset (map (\<lambda>i. the (Get i)) (ran s)) = mset (map Name as)"
    if "main s \<noteq> Sleeping" "0 < frames s" "0 < n"
  proof -
    have m: "mset (map unat (ran s)) = mset [0..<length as]" using server_ok_ran [OF S that] .
    then have b: "unat i < length as" if "i \<in> set (ran s)" for i
      using that by (metis atLeastLessThan_iff image_eqI mset_eq_setD set_map set_upt)
    have "map (\<lambda>i. the (Get i)) (ran s) = map ((!) (map Name as)) (map unat (ran s))"
      using b assms(3) q by (simp add: runs_queue_def)
    also have "mset \<dots> = image_mset ((!) (map Name as)) (mset [0..<length as])" by (simp only: mset_map m [symmetric])
    also have "\<dots> = mset (map ((!) (map Name as)) [0..<length (map Name as)])" by simp
    finally show ?thesis unfolding map_nth .
  qed
  have "t = u" if "t < n" "u < n" "worker s t = Running i" "worker s u = Running j" "Get i = Some nm" "Get j = Some nm"
    for t u i j nm
    using queue_position [OF assms(3) _ that(5,6)] assms(1) q server_ok_apart [OF S] that unfolding running_apart_def by metis
  then show ?thesis using found all by (intro conjI ballI impI allI) (assumption | elim conjE | blast)+
qed

definition demo_actor :: "string \<Rightarrow> (nat, nat) dynamic_actor" where
  "demo_actor nm = \<lparr>Name = nm, pushIndex = 0, messageQueue = \<lambda>i. [], messageHandlers = \<lambda>i. None, derived = 0\<rparr>"

definition demo_Get :: "u32 \<Rightarrow> string option" where
  "demo_Get i = (if unat i < 2 then Some ([''A'', ''B''] ! unat i) else None)"

lemma demo_Get_ok: "runs_queue demo_Get (fold Register [demo_actor ''A'', demo_actor ''B''] new_actor_registry)"
  by (simp add: runs_queue_def demo_Get_def Register_def new_actor_registry_def demo_actor_def Let_def)

theorem frames_run_registered_actors_witness:
  "\<exists>s. (server_step demo_Get 2)\<^sup>*\<^sup>* (new_server 2 77) s \<and>
     mset (map (\<lambda>i. the (demo_Get i)) (ran s)) = {#''A'', ''B''#}"
proof -
  have G: "registry_ok demo_Get 2 2" by (simp add: registry_ok_def demo_Get_def)
  obtain s where s: "(server_step demo_Get 2)\<^sup>*\<^sup>* (new_server 2 77) s" "main s \<noteq> Sleeping" "0 < frames s"
    using some_frame_ends [OF G zero_less_numeral] first_frame_begins by blast
  have "distinct (map Name [demo_actor ''A'', demo_actor ''B''])" by (simp add: demo_actor_def)
  from frames_run_registered_actors [OF this _ demo_Get_ok s(1)]
  have "mset (map (\<lambda>i. the (demo_Get i)) (ran s)) = mset (map Name [demo_actor ''A'', demo_actor ''B''])"
    using s(2,3) by simp
  then show ?thesis using s(1) by (auto simp: demo_actor_def)
qed

text \<open>All set-up calls of the network server succeed.\<close>

definition set_up :: "start_env \<Rightarrow> bool" where
  "set_up env \<longleftrightarrow> iocpCreated env \<and> listenSocketCreated env \<and> sslCtxCreated env \<and> certificateUsed env \<and> privateKeyUsed env \<and>
     privateKeyChecked env \<and> addressParsed env \<and> listenPortCreated env \<and> reuseAddrSet env \<and> bound env \<and> listening env"

text \<open>What the constructor relies on: \<open>Create\<close> registers a new \<open>A_Auth\<close>.\<close>

definition creates_auth :: "'d account_db \<Rightarrow> stub \<Rightarrow> u32 \<Rightarrow> u32 \<Rightarrow> 'd \<Rightarrow>
    ((net_message, 'd auth) actor_registry \<Rightarrow> (net_message, 'd auth) actor_registry res) \<Rightarrow> bool" where
  "creates_auth D stub cts gone d Create \<longleftrightarrow>
     (\<forall>r. Create r = bindR (new_auth_actor D stub cts gone d) (\<lambda>a. Inr (Register a r)))"

text \<open>
  How the program starts.  \<open>main\<close> returns 1 if WinSock is not there, and the program is aborted if any of the set-up
  calls of the network server fails or a database connection cannot be opened.  Otherwise it serves: no session yet, the
  first context is 0, \<open>A_Auth\<close> is registered with its two handlers and an empty mailbox and is what a frame runs, new
  sessions are associated with it, 16 connections are free, and the main loop is before its first frame.
\<close>

theorem server_starts:
  fixes env :: start_env and connect :: "nat \<Rightarrow> 'c option" and Create :: "(net_message, 'd auth) actor_registry \<Rightarrow> (net_message, 'd auth) actor_registry res"
  assumes "creates_auth D stub cts gone d Create" and "cts \<noteq> gone"
  shows "if \<not> wsaStarted then main_program wsaStarted Create n k env slot connect = (Inr (ExitWith 1) :: ('t, 'd auth, 'c) main_server program res)
    else if set_up env \<and> (\<forall>i<2. slot i = (True, True)) \<and> (\<forall>i<16. connect i \<noteq> None)
    then \<exists>(s :: ('t, 'd auth, 'c) main_server) a. main_program wsaStarted Create n k env slot connect = Inr (Serves s) \<and>
      sessions (Network s) = Map.empty \<and> newContext (Network s) = 0 \<and>
      InitialAssociatedActor (Network s) = ''A_Auth'' \<and> actors (Network s) = [''A_Auth'' \<mapsto> a] \<and>
      is_auth_actor D stub cts gone a \<and> waiting a = [] \<and> derived a = new_auth d \<and> runQueue s = [''A_Auth''] \<and>
      length (connections (Pool s)) = 16 \<and> loop s = new_server n k
    else main_program wsaStarted Create n k env slot connect = (Inl Aborted :: ('t, 'd auth, 'c) main_server program res)"
proof -
  let ?env = "env\<lparr>slotAnswers := map slot [0..<2]\<rparr>"
  obtain a where a: "new_auth_actor D stub cts gone d = Inr a" "is_auth_actor D stub cts gone a" "waiting a = []"
    "derived a = new_auth d" using new_auth_actor_ok [OF assms(2), of D stub d] by (elim exE conjE)
  have nm: "Name a = ''A_Auth''"
    using a(1) unfolding new_auth_actor_def by (rule new_actor_Name)
  have C: "Create new_actor_registry = Inr (Register a new_actor_registry)" using assms(1) a(1) by (simp add: creates_auth_def)
  have R: "byName (Register a new_actor_registry) = [''A_Auth'' \<mapsto> a]" "actorRunQueue (Register a new_actor_registry) = [''A_Auth'']"
    by (simp_all add: Register_def new_actor_registry_def nm Let_def)
  have two: "(\<forall>b\<in>set (map slot [0..<2]). fst b \<and> snd b) \<longleftrightarrow> (\<forall>i<2. slot i = (True, True))"
    by (auto simp: prod_eq_iff)
  have N: "start_network ?env nm' acts = (if set_up env \<and> (\<forall>i<2. slot i = (True, True)) then Inr (new_network nm' acts) else Inl Aborted)"
    for nm' acts unfolding start_network_eq set_up_def using two by auto
  define go where "go \<longleftrightarrow> set_up env \<and> (\<forall>i<2. slot i = (True, True)) \<and> (\<forall>i<16. connect i \<noteq> None)"
  let ?net = "new_network ''A_Auth'' (byName new_actor_registry)\<lparr>actors := [''A_Auth'' \<mapsto> a]\<rparr> :: ('t, 'd auth) network"
  let ?s = "\<lparr>Network = ?net, runQueue = [''A_Auth''], Pool = \<lparr>connections = map (\<lambda>i. the (connect i)) [0..<16]\<rparr>, loop = new_server n k\<rparr>"
  have M: "new_main_server Create n k ?env connect 16 = (if go then Inr ?s else Inl Aborted)"
    unfolding new_main_server_def Let_def N new_db_pool_def open_connections_eq C go_def by (simp add: R)
  show ?thesis
  proof (cases "wsaStarted \<and> go")
    case True
    then have "main_program wsaStarted Create n k env slot connect = Inr (Serves ?s)" by (simp add: main_program_def M)
    then show ?thesis unfolding go_def [symmetric] using True a(2-4)
      by (simp add: new_network_def) (rule exI [of _ a], simp)
  next
    case False
    then show ?thesis unfolding go_def [symmetric] by (auto simp: main_program_def M)
  qed
qed

definition demo_env :: start_env where
  "demo_env = \<lparr>iocpCreated = True, listenSocketCreated = True, sslCtxCreated = True, certificateUsed = True,
     privateKeyUsed = True, privateKeyChecked = True, addressParsed = True, listenPortCreated = True, reuseAddrSet = True,
     bound = True, listening = True, slotAnswers = []\<rparr>"

definition demo_Create :: "(net_message, (string \<times> u64 \<times> string) list auth) actor_registry \<Rightarrow>
    (net_message, (string \<times> u64 \<times> string) list auth) actor_registry res" where
  "demo_Create r = bindR (new_auth_actor list_db (\<lambda>ty sz body. UnknownMessageType) 0 1 []) (\<lambda>a. Inr (Register a r))"

theorem server_starts_witness:
  "\<exists>s :: (null_state, (string \<times> u64 \<times> string) list auth, nat) main_server.
     main_program True demo_Create 4 77 demo_env (\<lambda>i. (True, True)) Some = Inr (Serves s) \<and> runQueue s = [''A_Auth''] \<and>
     length (connections (Pool s)) = 16"
proof -
  have c: "creates_auth list_db (\<lambda>ty sz body. UnknownMessageType) 0 1 [] demo_Create"
    by (simp add: creates_auth_def demo_Create_def)
  have e: "set_up demo_env" by (simp add: set_up_def demo_env_def)
  from server_starts [OF c, of True 4 77 demo_env "\<lambda>i. (True, True)" "Some :: nat \<Rightarrow> nat option"] e
  show ?thesis unfolding if_True simp_thms by auto
qed

text \<open>
  C38. A client that comes too early.  The network server serves clients before the constructor of \<open>MainServer\<close> creates
  \<open>A_Auth\<close>.  If a client is accepted in this time and its connection breaks, or its first complete message is received, the
  program is aborted, for there is no actor to tell.
\<close>

theorem early_client_aborts:
  assumes "start_network env nm (byName new_actor_registry) = Inr n0" and "PostAccept pr acc recvOk n0 = Inr n"
    and "sessions n c = Some s"
  shows "io_failed IoType_Receive c n = Inl Aborted \<and>
    (\<forall>T k again ok s1 ty sz body. TryPostReceive T pr k s = Some (Inr (ok, s1)) \<and> app_ok pr s1 \<and> protocol_ok pr \<and>
       next_frame (app_content s1) = Some (ty, sz, body) \<and> unat sz \<le> MessageMaxSize pr \<longrightarrow>
       PostReceive T pr again c k n = Some (Inl Aborted))"
proof -
  have n0: "n0 = new_network nm (byName new_actor_registry)" using started_network [OF assms(1)] .
  note A = accepted_first [OF assms(2) [unfolded n0] assms(3)]
  have none: "actors n = (\<lambda>nm. None)" unfolding A(1) by (simp add: new_actor_registry_def)
  have "close_session c (put_session c (PostIoFailed IoType_Receive s) n) =
      (True, put_session c (Cleanup (PostIoFailed IoType_Receive s)) n)"
    using A(2) by (simp add: close_session_def Close_def Cleanup_def PostIoFailed_def set_online_def Let_def put_session_def)
  moreover have "erase_session c (put_session c t n) = Inl Aborted" for t
    using none by (simp add: erase_session_eq TryPushMessageTo_def put_session_def)
  ultimately have "io_failed IoType_Receive c n = Inl Aborted"
    using assms(3) by (simp add: io_failed_def live_session_def SessionCleanupRoutine_def)
  moreover have "PostReceive T pr again c k n = Some (Inl Aborted)"
    if t: "TryPostReceive T pr k s = Some (Inr (ok, s1))" "app_ok pr s1" "protocol_ok pr"
      "next_frame (app_content s1) = Some (ty, sz, body)" "unat sz \<le> MessageMaxSize pr" for T k again ok s1 ty sz body
  proof -
    obtain posted s2 where p: "(if ok \<and> 0 < k then TryReceiveAsync pr again s1 else (None, s1)) = (posted, s2)" by fastforce
    have s2: "app_ok pr s2" "app_content s2 = app_content s1"
      using p t(2) TryReceiveAsync_app [of pr again s1 posted s2] by (auto split: if_splits)
    have "inbox (actors n) (AssociatedActor s2) = None" by (simp add: none inbox_def)
    from deliver_unknown [OF s2(1) t(3) _ t(5) this] t(4) s2(2)
    have "deliver_messages pr c s2 (actors n) = Some (Inl Aborted)" by simp
    then show ?thesis using assms(3) t(1) p by (simp add: PostReceive_def receive_locked_def live_session_def)
  qed
  ultimately show ?thesis by blast
qed

definition demo_accept :: "null_state accept_env" where
  "demo_accept = \<lparr>sslCreated = True, fdSet = True, handshake = Some null_start, noDelaySet = True, portCreated = True,
     addressKnown = True\<rparr>"

theorem early_client_aborts_witness:
  "\<exists>n :: (null_state, nat) network. PostAccept demo_protocol demo_accept True (new_network ''A_Auth'' Map.empty) = Inr n \<and>
     io_failed IoType_Receive 0 n = Inl Aborted"
proof -
  let ?s = "set_online IoType_Receive True (new_session demo_protocol null_start 0 ''A_Auth'')"
  let ?start = "new_network ''A_Auth'' Map.empty :: (null_state, nat) network"
  let ?n = "put_session 0 ?s (?start\<lparr>newContext := 1\<rparr>)"
  have "TryReceiveAsync demo_protocol True (new_session demo_protocol null_start 0 ''A_Auth'') = (Some (0, 16), ?s)"
    by (simp add: TryReceiveAsync_def new_session_def BufferCapacity_def GetRingBufferSize_def demo_protocol_def)
  then have p: "PostAccept demo_protocol demo_accept True ?start = Inr ?n"
    by (simp add: PostAccept_def accept_session_eq demo_accept_def new_network_def)
  have s: "start_network demo_env ''A_Auth'' (byName new_actor_registry) = Inr ?start"
    by (simp add: start_network_eq demo_env_def new_actor_registry_def)
  have "io_failed IoType_Receive 0 ?n = Inl Aborted"
    using early_client_aborts [OF s p, of 0 ?s] by simp
  then show ?thesis using p by blast
qed

end
