(* ===== verification/Spec2Isabelle.thy ===== *)
theory Spec2Isabelle
  imports Prelude Interfaces Paged_List Sparse_List Sparse_Array Free_List_Pool Entities Registries Possession
    Ring Spsc_Ring Message_Pool Session_Data Session_Tls Session_Io Send_Steps Io_Steps Recv_Steps Actors Db_Layer Auth Net_Server
    Net_Steps Net_Stream Auth_Server Net_Stop Parallel_Exec Parallel_Life Main_Loop Server_Start
begin

text \<open>
  Verification of the ratkinia server, the C++ server below src/Source.

  \<^bold>\<open>The program.\<close>  \<open>NetworkServer\<close> accepts TLS connections on an I/O completion port and keeps a \<open>Session\<close> for
  each.  The bytes of a client are decrypted into a ring buffer, cut into messages, and pushed to the actor the session is
  associated with, by name, through \<open>ActorMessageDispatcher\<close> and \<open>ActorRegistry\<close>.  \<open>MainServer\<close> runs all actors once in
  each frame on a set of worker threads.  An actor handles the messages of its mailbox and answers through
  \<open>ActorNetworkInterface\<close>, which queues messages on the sessions.  \<open>A_Auth\<close>, the only actor so far, registers accounts
  and logs in, with bcrypt on a background thread and the accounts in a database behind \<open>DbConnectionPool\<close>.  Beside
  this the repository has the containers and managers of the game world (paged slot lists, sparse containers, entities,
  components, global objects, events, systems, and which client possesses which entity), a message ring buffer, a block pool
  and \<open>ParallelExecutor\<close>.

  \<^bold>\<open>Conventions.\<close>  A fault (\<open>std::abort\<close> by the macros of ErrorMacros.h, or undefined behaviour such as an access out of
  range, a null dereference, a use after free or a mutex locked twice) is a value of \<open>fault\<close>, and a step that may fault
  returns a sum (\<open>res\<close>, \<open>bindR\<close>).  Machine integers are words where they may wrap around.  Memory that is linked or
  aliased is a store of nodes addressed by numbers.  A loop whose end depends on code outside of the repository is a
  \<open>partial_function (option)\<close>, for which returning is proved and not assumed (\<open>framing_roundtrip\<close>, \<open>receive_buffers\<close>,
  \<open>send_buffers\<close>, \<open>received_block\<close>, \<open>receive_delivers\<close>, \<open>client_stream\<close>); no definition uses fuel.  Threads are step relations
  over the atomic operations of the code in a sequentially consistent memory; what a method does while it holds a mutex is one
  step, and a method that releases a mutex before its end is cut there.  Methods are also given as functions, for one caller at a
  time; a property over such functions says so.  A step that would be a fault of the code does not exist in a step relation.

  \<^bold>\<open>Parameters.\<close>  Not in the repository, and therefore arguments with the laws that the code relies on: the
  protocol header (RatkiniaProtocol.gen.h: sizes of messages and headers), the generated proxies and stubs, OpenSSL (a record
  of functions with \<open>tls_laws\<close>), WinSock (the outcome and the size of each operation), bcrypt, pqxx and the database
  (\<open>db_laws\<close>), and \<open>ActorRegistry::Get\<close> and \<open>Create\<close>, which MainServer.cpp calls and no file defines (\<open>runs_queue\<close>,
  \<open>creates_auth\<close>).  Each theorem
  with such a law has a witness on a concrete instance.

  \<^bold>\<open>Theories.\<close>
  \<^item> \<open>Prelude\<close>: words, faults, sequencing, chains of nodes, the dense numbering of a set of slots.
  \<^item> \<open>Interfaces\<close>: the contracts between components as locales: \<open>slot_store\<close> (provided by \<open>Paged_List\<close>, used by the
    sparse containers and entities), \<open>index_map\<close> (provided by \<open>Sparse_List\<close>), \<open>two_way_map\<close> (provided by
    \<open>Possession\<close>), \<open>message_router\<close> (provided by \<open>Actors\<close>, used by \<open>Net_Server\<close>); and two for the models of
    threads, \<open>step_system\<close> (an invariant of a step relation) and \<open>progress_system\<close> (a goal that is always reached), which
    every theory with a step relation provides and whose lemmas on runs its properties use.
  \<^item> \<open>Paged_List\<close>: Util/MemoryPool/IndexedUnmanagedList.h, pages, the free list and the allocated list.  It refines an
    abstract stack pool and stays inside its pages; two lemmas show states that \<open>Erase\<close> and \<open>CreateAt\<close> on the same
    slot reach and that hand a slot out twice.
  \<^item> \<open>Sparse_List\<close>, \<open>Sparse_Array\<close>, \<open>Free_List_Pool\<close>: the containers of the same directory, as maps and as a pool.
  \<^item> \<open>Entities\<close>: Entity.h and EntityManager.h, handles of id and version and their aliasing.
  \<^item> \<open>Registries\<close>: GlobalObjectManager.h, EventManager.h, ComponentManager.h, SystemManager.h and the registrars.
  \<^item> \<open>Possession\<close>: GlobalObject/G_Possession, G_PlayerCharacters and the system that ends a possession on disconnection.
  \<^item> \<open>Ring\<close>, \<open>Spsc_Ring\<close>: ring positions; SpscRingBuffer as a queue of bytes and for a producer and a consumer thread.
  \<^item> \<open>Message_Pool\<close>: MpscMessageBodyPool, its blocks and its lock-free lists under two threads.
  \<^item> \<open>Session_Data\<close>, \<open>Session_Tls\<close>, \<open>Session_Io\<close>: Session.h and Session.cpp; framing, the pumping of bytes between sockets,
    engine and buffers, and the methods of the overlapped operations as functions.
  \<^item> \<open>Send_Steps\<close>: the sending methods cut where they release their mutex, under any number of producers and worker threads;
    from \<open>PushMessage\<close> to the bytes on the wire, for an engine after its handshake (\<open>established\<close>).
  \<^item> \<open>Io_Steps\<close>: all methods of the overlapped operations and \<open>Close\<close>, cut at their mutexes, under any number of threads: one
    operation of each kind at a time, and what the answer of \<open>Close\<close> means.
  \<^item> \<open>Recv_Steps\<close>: the loop of \<open>PostReceive\<close> for several worker threads, which may enter it for the same session.
  \<^item> \<open>Actors\<close>: Actor/Actor.h, Actor/Actor.cpp, Message/Message.h, ActorRegistry.h, ActorMessageDispatcher.h: type
    indices, handlers, the two queues of a mailbox, pushing by name.
  \<^item> \<open>Db_Layer\<close>, \<open>Auth\<close>: the Database directory; A_Auth and AuthJob.h with its background thread.
  \<^item> \<open>Net_Server\<close>: NetworkServer; accepting, the handler of each completion, sending, association with actors, and the
    clean-up in its parts, composed from \<open>Session_Io\<close> and \<open>Actors\<close>; the constructor.
  \<^item> \<open>Net_Steps\<close>: the same cut at \<open>sessionsMutex_\<close>, for any number of threads, with the mailboxes of the actors: where each
    accepted session is, and who is told that it is gone.  Every round of a worker thread is a run of these steps.
  \<^item> \<open>Net_Stream\<close>: runs of completions, from the bytes of a client to the mailbox of its actor.
  \<^item> \<open>Auth_Server\<close>: the composition of \<open>A_Auth\<close> with the network server: a message of a client reaches the request
    handlers, a lost connection takes the client offline before the tick, and replies go out through ActorNetworkInterface.
  \<^item> \<open>Net_Stop\<close>: the destructor of \<open>NetworkServer\<close> and the stop completion that the worker threads pass on; when completions
    keep arriving, the end needs a fair run (\<open>fair_port\<close>), stated as the locale \<open>stop_run\<close>.
  \<^item> \<open>Parallel_Exec\<close>: Floweryclover/ParallelExecutor.h; the claiming of chunks, result pages and their iteration.
  \<^item> \<open>Parallel_Life\<close>: the same class from its constructor over its calls to its destructor, with the body of its threads.
  \<^item> \<open>Main_Loop\<close>: \<open>Run\<close> and \<open>WorkerThreadBody\<close> of MainServer.cpp, and the command thread of Main.cpp.
  \<^item> \<open>Server_Start\<close>: \<open>ActorRegistry::Register\<close>, the constructor of \<open>MainServer\<close> and \<open>main\<close>; what a frame runs.

  \<^bold>\<open>What the properties show.\<close>  The data structures refine maps, queues and pools, on every branch and with the
  exceptions stated.  The bytes of a client reach its actor as messages, in chunks of any sizes below the capacity of a buffer.
  A message pushed on a session is read back on the other side; received messages reach the mailbox of the
  actor in order and are handled once each; accounts are online in at most one session; each accepted session is on its way into
  the map, in the map, on its way out, or has its one notice in one mailbox; a queued message is always sent or about to be,
  and with orderly threads the records of all pushed messages are sent in order; every frame runs every registered actor once
  and the next frame always comes; a parallel loop executes every index once and returns; executor and network server stop all their threads.  The conditions under
  which a property holds are in the text in front of it.  Several properties are about faults of the code
  and name the state that leads to them; the text in front of each says so.

  \<^bold>\<open>Bounds.\<close>  Entity ids below $2^{20}$; at most $2^{32}$ accepted connections and message types; number of actors plus
  number of workers below $2^{32}$ (\<open>registry_ok\<close>); number of axes plus two chunks and a chunk for each thread below
  $2^{32}$ (\<open>job_ok\<close>).  Sizes in memory are natural numbers.

  \<^bold>\<open>Not modelled.\<close>  Channel.h, Executor.h and Stub.cpp are commented out in full.  Of ErrorMacros.h only \<open>CRASH_COND\<close> and the
  aborts have a counterpart; what it prints is left out, and its early returns are branches of the definitions.  Field,
  Manager, Context, ActorEnvironment and G_PersistenceTimer hold no behaviour, DbService and Environment only references.
  \<open>ActorRegistry::Create\<close> and \<open>Get\<close> are called but not defined anywhere and are parameters.  The relaxed memory order of some
  atomics is not modelled.
\<close>

end
